(* ===== verification/Prelude.thy ===== *)
theory Prelude
  imports Main "HOL-Library.Word" "HOL-Library.Char_ord" "HOL-Library.List_Lexorder"
begin

unbundle bit_operations_syntax

text \<open>
  Shared vocabulary of the development.

  \<^item> Machine integers: \<open>u8\<close> .. \<open>u64\<close> are words; a \<open>size_t\<close> is a \<open>nat\<close> whose arithmetic wraps
    through \<open>add64\<close>, \<open>sub64\<close> and \<open>mul64\<close> wherever the code could overflow.
  \<^item> Faults: an operation of the program that has no defined continuation (a read or write outside
    an allocation, the use of an indeterminate value, a failed \<open>assert\<close>, a division by zero, a loop
    that never ends, an escaping C++ exception, a shift by too much) is \<open>Inl\<close> of a \<open>fault\<close>. The program is built without
    \<open>NDEBUG\<close> (src/Makefile), so its asserts are live.
  \<^item> Memory: a block of bytes is a list of cells, \<open>None\<close> for a byte that was allocated and never
    written.
\<close>

section \<open>Machine integers\<close>

type_synonym u8 = "8 word"
type_synonym u16 = "16 word"
type_synonym u32 = "32 word"
type_synonym u64 = "64 word"

text \<open>Arithmetic of \<open>size_t\<close> (64 bits, wraps around).\<close>

definition add64 :: "nat \<Rightarrow> nat \<Rightarrow> nat" where
  "add64 a b = (a + b) mod 2 ^ 64"

definition sub64 :: "nat \<Rightarrow> nat \<Rightarrow> nat" where
  "sub64 a b = nat ((int a - int b) mod 2 ^ 64)"

definition mul64 :: "nat \<Rightarrow> nat \<Rightarrow> nat" where
  "mul64 a b = (a * b) mod 2 ^ 64"

named_theorems no_wrap "64-bit operations whose operands stay in range"

lemma add64_small [no_wrap]: "a + b < 2 ^ 64 \<Longrightarrow> add64 a b = a + b"
  by (simp add: add64_def)

lemma sub64_small [no_wrap]: "b \<le> a \<Longrightarrow> a < 2 ^ 64 \<Longrightarrow> sub64 a b = a - b"
  by (simp add: sub64_def nat_minus_as_int mod_pos_pos_trivial)

lemma mul64_small [no_wrap]: "a * b < 2 ^ 64 \<Longrightarrow> mul64 a b = a * b"
  by (simp add: mul64_def)

lemma add64_bound [simp]: "add64 a b < 2 ^ 64"
  by (simp add: add64_def)

lemma mul64_bound [simp]: "mul64 a b < 2 ^ 64"
  by (simp add: mul64_def)

section \<open>Faults and results\<close>

datatype fault =
    OutOfBounds
  | Uninitialised
  | AssertionFailure
  | DivisionByZero
  | Diverges
  | BadAnyCast
  | SystemError
  | BadShift

type_synonym 'a res = "fault + 'a"

fun rbind :: "'a res \<Rightarrow> ('a \<Rightarrow> 'b res) \<Rightarrow> 'b res" where
  "rbind (Inl e) f = Inl e"
| "rbind (Inr x) f = f x"

definition check :: "bool \<Rightarrow> fault \<Rightarrow> unit res" where
  "check P e = (if P then Inr () else Inl e)"

fun succeeds :: "'a res \<Rightarrow> bool" where
  "succeeds (Inl e) = False"
| "succeeds (Inr x) = True"

lemma rbind_cong [fundef_cong]:
  "m = m' \<Longrightarrow> (\<And>x. m' = Inr x \<Longrightarrow> f x = g x) \<Longrightarrow> rbind m f = rbind m' g"
  by (cases m') auto

lemma rbind_Inr_iff: "rbind m f = Inr y \<longleftrightarrow> (\<exists>x. m = Inr x \<and> f x = Inr y)"
  by (cases m) auto

lemma rbind_Inl_iff: "rbind m f = Inl e \<longleftrightarrow> m = Inl e \<or> (\<exists>x. m = Inr x \<and> f x = Inl e)"
  by (cases m) auto

lemma rbindE:
  assumes "rbind m f = Inr y"
  obtains x where "m = Inr x" "f x = Inr y"
  using assms by (auto simp: rbind_Inr_iff)

lemma rbind_assoc: "rbind (rbind m f) g = rbind m (\<lambda>x. rbind (f x) g)"
  by (cases m) auto

lemma rbind_Inr_right [simp]: "rbind m Inr = m"
  by (cases m) auto

lemma check_True [simp]: "check True e = Inr ()"
  by (simp add: check_def)

lemma check_False [simp]: "check False e = Inl e"
  by (simp add: check_def)

lemma check_Inr_iff [simp]: "check P e = Inr u \<longleftrightarrow> P"
  by (simp add: check_def)

lemma check_Inl_iff [simp]: "check P e = Inl e' \<longleftrightarrow> \<not> P \<and> e = e'"
  by (auto simp: check_def)

lemma succeeds_iff: "succeeds m \<longleftrightarrow> (\<exists>x. m = Inr x)"
  by (cases m) auto

lemma not_succeeds_iff: "\<not> succeeds m \<longleftrightarrow> (\<exists>e. m = Inl e)"
  by (cases m) auto

text \<open>Left-to-right iteration of a fallible step over a list (a C++ range \<open>for\<close>).\<close>

fun rfold :: "('a \<Rightarrow> 's \<Rightarrow> 's res) \<Rightarrow> 'a list \<Rightarrow> 's \<Rightarrow> 's res" where
  "rfold f [] s = Inr s"
| "rfold f (x # xs) s = rbind (f x s) (rfold f xs)"

lemma rfold_append: "rfold f (xs @ ys) s = rbind (rfold f xs s) (rfold f ys)"
proof (induction xs arbitrary: s)
  case (Cons x xs)
  then have "rfold f (xs @ ys) = (\<lambda>s. rbind (rfold f xs s) (rfold f ys))"
    by blast
  then show ?case by (simp add: rbind_assoc)
qed simp

lemma rfold_cong [fundef_cong]:
  "xs = ys \<Longrightarrow> s = t \<Longrightarrow> (\<And>x s. x \<in> set ys \<Longrightarrow> f x s = g x s) \<Longrightarrow> rfold f xs s = rfold g ys t"
proof (induction xs arbitrary: ys s t)
  case Nil
  then show ?case by auto
next
  case (Cons x xs)
  have "rfold f xs = rfold g xs"
    using Cons by (intro ext) auto
  with Cons.prems show ?case by auto
qed

lemma rfold_inv:
  assumes "rfold f xs s = Inr t" "P s"
    and "\<And>x s s'. x \<in> set xs \<Longrightarrow> P s \<Longrightarrow> f x s = Inr s' \<Longrightarrow> P s'"
  shows "P t"
  using assms
proof (induction xs arbitrary: s)
  case Nil
  then show ?case by simp
next
  case (Cons x xs)
  from Cons.prems(1) obtain s1 where "f x s = Inr s1" "rfold f xs s1 = Inr t"
    by (auto elim: rbindE)
  with Cons show ?case by (metis list.set_intros)
qed

section \<open>Memory\<close>

type_synonym mem = "u8 option list"

definition load :: "'a option list \<Rightarrow> nat \<Rightarrow> 'a res" where
  "load m p =
     (if p < length m then (case m ! p of None \<Rightarrow> Inl Uninitialised | Some v \<Rightarrow> Inr v)
      else Inl OutOfBounds)"

definition store :: "'a option list \<Rightarrow> nat \<Rightarrow> 'a \<Rightarrow> 'a option list res" where
  "store m p v = (if p < length m then Inr (m[p := Some v]) else Inl OutOfBounds)"

text \<open>\<open>memcpy\<close> of a source block into \<open>dst\<close> at \<open>p\<close>; indeterminate cells are copied as such.\<close>

definition blit :: "'a option list \<Rightarrow> nat \<Rightarrow> 'a option list \<Rightarrow> 'a option list res" where
  "blit dst p src =
     (if p + length src \<le> length dst
      then Inr (take p dst @ src @ drop (p + length src) dst) else Inl OutOfBounds)"

lemma load_Some [simp]: "p < length xs \<Longrightarrow> load (map Some xs) p = Inr (xs ! p)"
  by (simp add: load_def)

lemma load_in: "p < length m \<Longrightarrow> m ! p = Some v \<Longrightarrow> load m p = Inr v"
  by (simp add: load_def)

lemma load_Inr_iff: "load m p = Inr v \<longleftrightarrow> p < length m \<and> m ! p = Some v"
  by (auto simp: load_def split: option.splits)

lemma load_out [simp]: "length m \<le> p \<Longrightarrow> load m p = Inl OutOfBounds"
  by (simp add: load_def)

lemma store_in [simp]: "p < length m \<Longrightarrow> store m p v = Inr (m[p := Some v])"
  by (simp add: store_def)

lemma store_Inr_iff: "store m p v = Inr m' \<longleftrightarrow> p < length m \<and> m' = m[p := Some v]"
  by (auto simp: store_def)

lemma blit_in [simp]:
  "p + length src \<le> length dst \<Longrightarrow> blit dst p src = Inr (take p dst @ src @ drop (p + length src) dst)"
  by (simp add: blit_def)

lemma blit_Inr_iff:
  "blit dst p src = Inr m \<longleftrightarrow>
     p + length src \<le> length dst \<and> m = take p dst @ src @ drop (p + length src) dst"
  by (auto simp: blit_def)

lemma blit_length: "blit dst p src = Inr m \<Longrightarrow> length m = length dst"
  by (auto simp: blit_Inr_iff)

text \<open>The bytes of a \<open>std::string\<close> seen through a \<open>uint8_t\<close> pointer, and back.\<close>

definition byte_of_char :: "char \<Rightarrow> u8" where
  "byte_of_char c = of_char c"

definition char_of_byte :: "u8 \<Rightarrow> char" where
  "char_of_byte b = char_of (unat b)"

lemma char_of_byte_of_char [simp]: "char_of_byte (byte_of_char c) = c"
proof -
  have "(of_char c :: nat) < 256"
    by (rule nat_of_char_less_256)
  then have "unat (of_nat (of_char c) :: u8) = of_char c"
    by (simp add: unat_of_nat)
  then have "unat (of_char c :: u8) = of_char c"
    by (simp add: of_nat_of_char)
  then show ?thesis by (simp add: char_of_byte_def byte_of_char_def)
qed

section \<open>Splitting at a separator\<close>

lemma takeWhile_stop: "c \<notin> set xs \<Longrightarrow> takeWhile (\<lambda>x. x \<noteq> c) (xs @ c # ys) = xs"
  by (induction xs) auto

lemma dropWhile_stop: "c \<notin> set xs \<Longrightarrow> dropWhile (\<lambda>x. x \<noteq> c) (xs @ c # ys) = c # ys"
  by (induction xs) auto

end
