(* ===== verification/Serializer.thy ===== *)
theory Serializer
  imports Prelude
begin

text \<open>
  src/util/serializer.h: reading and writing 16-, 32- and 64-bit integers in little- and big-endian
  order. A \<open>const uint8_t *addr\<close> is a block of memory with an offset into it; touching a byte past
  the block is a fault. The locale \<open>byte_codec\<close> is the contract the message classes, the bit set
  and the tracker rely on; it is interpreted for all six pairs of functions.
\<close>

section \<open>The functions of the header\<close>

definition readLE16 :: "mem \<Rightarrow> nat \<Rightarrow> u16 res" where
  "readLE16 a p =
     rbind (load a (p + 1)) (\<lambda>a1.
     rbind (load a p) (\<lambda>a0.
       Inr (push_bit 8 (ucast a1) OR ucast a0)))"

definition readLE32 :: "mem \<Rightarrow> nat \<Rightarrow> u32 res" where
  "readLE32 a p =
     rbind (readLE16 a (p + 2)) (\<lambda>hi.
     rbind (readLE16 a p) (\<lambda>lo.
       Inr (push_bit 16 (ucast hi) OR ucast lo)))"

definition readLE64 :: "mem \<Rightarrow> nat \<Rightarrow> u64 res" where
  "readLE64 a p =
     rbind (readLE32 a (p + 4)) (\<lambda>hi.
     rbind (readLE32 a p) (\<lambda>lo.
       Inr (push_bit 32 (ucast hi) OR ucast lo)))"

definition writeLE16 :: "mem \<Rightarrow> nat \<Rightarrow> u16 \<Rightarrow> mem res" where
  "writeLE16 a p v =
     rbind (store a (p + 1) (ucast (drop_bit 8 v))) (\<lambda>a.
       store a p (ucast v))"

definition writeLE32 :: "mem \<Rightarrow> nat \<Rightarrow> u32 \<Rightarrow> mem res" where
  "writeLE32 a p v =
     rbind (writeLE16 a (p + 2) (ucast (drop_bit 16 v))) (\<lambda>a.
       writeLE16 a p (ucast v))"

definition writeLE64 :: "mem \<Rightarrow> nat \<Rightarrow> u64 \<Rightarrow> mem res" where
  "writeLE64 a p v =
     rbind (writeLE32 a (p + 4) (ucast (drop_bit 32 v))) (\<lambda>a.
       writeLE32 a p (ucast v))"

definition readBE16 :: "mem \<Rightarrow> nat \<Rightarrow> u16 res" where
  "readBE16 a p =
     rbind (load a (p + 1)) (\<lambda>a1.
     rbind (load a p) (\<lambda>a0.
       Inr (ucast a1 OR push_bit 8 (ucast a0))))"

definition readBE32 :: "mem \<Rightarrow> nat \<Rightarrow> u32 res" where
  "readBE32 a p =
     rbind (readBE16 a (p + 2)) (\<lambda>lo.
     rbind (readBE16 a p) (\<lambda>hi.
       Inr (ucast lo OR push_bit 16 (ucast hi))))"

definition readBE64 :: "mem \<Rightarrow> nat \<Rightarrow> u64 res" where
  "readBE64 a p =
     rbind (readBE32 a (p + 4)) (\<lambda>lo.
     rbind (readBE32 a p) (\<lambda>hi.
       Inr (ucast lo OR push_bit 32 (ucast hi))))"

definition writeBE16 :: "mem \<Rightarrow> nat \<Rightarrow> u16 \<Rightarrow> mem res" where
  "writeBE16 a p v =
     rbind (store a p (ucast (drop_bit 8 v))) (\<lambda>a.
       store a (p + 1) (ucast v))"

definition writeBE32 :: "mem \<Rightarrow> nat \<Rightarrow> u32 \<Rightarrow> mem res" where
  "writeBE32 a p v =
     rbind (store a p (ucast (drop_bit 24 v))) (\<lambda>a.
     rbind (store a (p + 1) (ucast (drop_bit 16 v))) (\<lambda>a.
     rbind (store a (p + 2) (ucast (drop_bit 8 v))) (\<lambda>a.
       store a (p + 3) (ucast v))))"

definition writeBE64 :: "mem \<Rightarrow> nat \<Rightarrow> u64 \<Rightarrow> mem res" where
  "writeBE64 a p v =
     rbind (store a p (ucast (drop_bit 56 v))) (\<lambda>a.
     rbind (store a (p + 1) (ucast (drop_bit 48 v))) (\<lambda>a.
     rbind (store a (p + 2) (ucast (drop_bit 40 v))) (\<lambda>a.
     rbind (store a (p + 3) (ucast (drop_bit 32 v))) (\<lambda>a.
     rbind (store a (p + 4) (ucast (drop_bit 24 v))) (\<lambda>a.
     rbind (store a (p + 5) (ucast (drop_bit 16 v))) (\<lambda>a.
     rbind (store a (p + 6) (ucast (drop_bit 8 v))) (\<lambda>a.
       store a (p + 7) (ucast v))))))))"

section \<open>The byte images\<close>

text \<open>What a written value looks like in memory, most significant byte first.\<close>

definition be16 :: "u16 \<Rightarrow> u8 list" where
  "be16 v = [ucast (drop_bit 8 v), ucast v]"

definition be32 :: "u32 \<Rightarrow> u8 list" where
  "be32 v = [ucast (drop_bit 24 v), ucast (drop_bit 16 v), ucast (drop_bit 8 v), ucast v]"

definition be64 :: "u64 \<Rightarrow> u8 list" where
  "be64 v = [ucast (drop_bit 56 v), ucast (drop_bit 48 v), ucast (drop_bit 40 v),
     ucast (drop_bit 32 v), ucast (drop_bit 24 v), ucast (drop_bit 16 v), ucast (drop_bit 8 v),
     ucast v]"

definition le16 :: "u16 \<Rightarrow> u8 list" where "le16 v = rev (be16 v)"
definition le32 :: "u32 \<Rightarrow> u8 list" where "le32 v = rev (be32 v)"
definition le64 :: "u64 \<Rightarrow> u8 list" where "le64 v = rev (be64 v)"

text \<open>The number a run of bytes stands for in base 256.\<close>

definition be_value :: "u8 list \<Rightarrow> nat" where
  "be_value bs = foldl (\<lambda>n b. 256 * n + unat b) 0 bs"

definition le_value :: "u8 list \<Rightarrow> nat" where
  "le_value bs = be_value (rev bs)"

lemmas byte_images = be16_def be32_def be64_def le16_def le32_def le64_def

lemma byte_image_lengths [simp]:
  "length (be16 a) = 2" "length (be32 b) = 4" "length (be64 c) = 8"
  "length (le16 a) = 2" "length (le32 b) = 4" "length (le64 c) = 8"
  by (simp_all add: byte_images)

section \<open>Blocks of memory\<close>

lemma split_block:
  assumes "p + w \<le> length m"
  obtains xs cs ys where "m = xs @ cs @ ys" "length xs = p" "length cs = w"
proof
  show "m = take p m @ take w (drop p m) @ drop (p + w) m"
    by (metis append_take_drop_id drop_drop add.commute)
qed (use assms in auto)

lemma load_mid: "length xs = p \<Longrightarrow> k < length cs \<Longrightarrow> load (xs @ cs @ ys) (p + k) = load cs k"
  by (simp add: load_def nth_append)

lemma load_mid0: "length xs = p \<Longrightarrow> cs \<noteq> [] \<Longrightarrow> load (xs @ cs @ ys) p = load cs 0"
  by (simp add: load_def nth_append)

lemma store_mid:
  "length xs = p \<Longrightarrow> k < length cs \<Longrightarrow>
     store (xs @ cs @ ys) (p + k) v = Inr (xs @ cs[k := Some v] @ ys)"
  by (simp add: store_def list_update_append)

lemma store_mid0:
  "length xs = p \<Longrightarrow> cs \<noteq> [] \<Longrightarrow> store (xs @ cs @ ys) p v = Inr (xs @ cs[0 := Some v] @ ys)"
  by (simp add: store_def list_update_append)

lemma load_at_end: "length m < p + w \<Longrightarrow> 0 < w \<Longrightarrow> load m (p + w - 1) = Inl OutOfBounds"
  by simp

lemmas block_simps = load_mid load_mid0 store_mid store_mid0

lemma length_cells:
  "length cs = 2 \<longleftrightarrow> (\<exists>a b. cs = [a, b])"
  "length cs = 4 \<longleftrightarrow> (\<exists>a b c d. cs = [a, b, c, d])"
  "length cs = 8 \<longleftrightarrow> (\<exists>a b c d e f g h. cs = [a, b, c, d, e, f, g, h])"
  by (auto simp: numeral_eq_Suc length_Suc_conv)

section \<open>Joining words\<close>

lemma join_split_word:
  fixes v :: "'c::len word"
  assumes "LENGTH('c) \<le> LENGTH('a::len) + LENGTH('b::len)"
  shows "push_bit LENGTH('b) (ucast (ucast (drop_bit LENGTH('b) v) :: 'a word))
           OR ucast (ucast v :: 'b word) = v"
  using assms by (intro bit_word_eqI) (auto simp: bit_simps)

lemma ucast_ucast_narrow [simp]:
  fixes v :: "'a::len word"
  assumes "LENGTH('c::len) \<le> LENGTH('b::len)"
  shows "(ucast (ucast v :: 'b word) :: 'c word) = ucast v"
  using assms by (intro bit_word_eqI) (auto simp: bit_simps)

lemma ucast_drop_ucast [simp]:
  fixes v :: "'a::len word"
  assumes "n + LENGTH('c::len) \<le> LENGTH('b::len)"
  shows "(ucast (drop_bit n (ucast v :: 'b word)) :: 'c word) = ucast (drop_bit n v)"
  using assms by (intro bit_word_eqI) (auto simp: bit_simps)

lemma unat_join_word:
  fixes hi :: "'a::len word" and lo :: "'b::len word"
  assumes "LENGTH('a) + LENGTH('b) \<le> LENGTH('c::len)"
  shows "unat (push_bit LENGTH('b) (ucast hi) OR ucast lo :: 'c word)
           = 2 ^ LENGTH('b) * unat hi + unat lo"
proof -
  let ?h = "push_bit LENGTH('b) (ucast hi) :: 'c word" and ?l = "ucast lo :: 'c word"
  have sum: "?h + ?l = ?h OR ?l"
    by (rule disjunctive_add) (auto simp: bit_simps dest: bit_imp_le_length)
  have lo: "unat lo < 2 ^ LENGTH('b)" and hi: "unat hi < 2 ^ LENGTH('a)"
    by (rule unsigned_less)+
  have len: "(2::nat) ^ LENGTH('b) * 2 ^ LENGTH('a) \<le> 2 ^ LENGTH('c)"
    using assms by (simp flip: power_add add: add.commute)
  have "2 ^ LENGTH('b) * unat hi + unat lo < 2 ^ LENGTH('b) * (unat hi + 1)"
    using lo by simp
  also have "\<dots> \<le> 2 ^ LENGTH('b) * 2 ^ LENGTH('a)"
    using hi by (intro mult_le_mono2) (simp add: Suc_le_eq)
  finally have small: "2 ^ LENGTH('b) * unat hi + unat lo < 2 ^ LENGTH('c)"
    using len by linarith
  have "unat ?l = unat lo"
    using assms less_le_trans [OF lo power_increasing [of "LENGTH('b)" "LENGTH('c)" 2]]
    by (simp add: unsigned_ucast_eq take_bit_nat_eq_self)
  moreover have "unat (ucast hi :: 'c word) = unat hi"
    using assms less_le_trans [OF hi power_increasing [of "LENGTH('a)" "LENGTH('c)" 2]]
    by (simp add: unsigned_ucast_eq take_bit_nat_eq_self)
  then have "unat ?h = take_bit LENGTH('c) (push_bit LENGTH('b) (unat hi))"
    by (simp only: unsigned_push_bit_eq)
  then have "unat ?h = 2 ^ LENGTH('b) * unat hi"
    using small by (simp add: push_bit_eq_mult take_bit_nat_eq_self mult.commute)
  ultimately show ?thesis
    using small by (simp flip: sum add: unat_word_ariths)
qed


section \<open>The contract of a pair of accessors\<close>

text \<open>
  \<open>get\<close> and \<open>put\<close> move a value of \<open>width\<close> bytes: a write inside the block replaces exactly
  those bytes by the image of the value, a read looks at exactly those bytes and undoes the
  image, and both fault when the run does not fit.
\<close>

locale byte_codec =
  fixes width :: nat
    and get :: "mem \<Rightarrow> nat \<Rightarrow> 'w res"
    and put :: "mem \<Rightarrow> nat \<Rightarrow> 'w \<Rightarrow> mem res"
    and image :: "'w \<Rightarrow> u8 list"
  assumes width_pos: "0 < width"
    and image_length: "length (image v) = width"
    and put_mid: "length xs = p \<Longrightarrow> length cs = width \<Longrightarrow>
      put (xs @ cs @ ys) p v = Inr (xs @ map Some (image v) @ ys)"
    and put_out: "length m < p + width \<Longrightarrow> put m p v = Inl OutOfBounds"
    and get_mid: "length xs = p \<Longrightarrow> length cs = width \<Longrightarrow> get (xs @ cs @ ys) p = get cs 0"
    and get_image: "get (map Some (image v)) 0 = Inr v"
    and get_out: "length m < p + width \<Longrightarrow> get m p = Inl OutOfBounds"
begin

lemma put_in:
  assumes "p + width \<le> length m"
  shows "put m p v = Inr (take p m @ map Some (image v) @ drop (p + width) m)"
  using assms by (elim split_block) (simp add: put_mid)

lemma put_Inr_iff:
  "put m p v = Inr m' \<longleftrightarrow>
     p + width \<le> length m \<and> m' = take p m @ map Some (image v) @ drop (p + width) m"
  by (cases "p + width \<le> length m") (auto simp: put_in put_out)

lemma put_fault_iff: "put m p v = Inl e \<longleftrightarrow> length m < p + width \<and> e = OutOfBounds"
  by (cases "p + width \<le> length m") (auto simp: put_in put_out)

lemma put_length: "put m p v = Inr m' \<Longrightarrow> length m' = length m"
  by (auto simp: put_Inr_iff image_length)

lemma put_blit: "put m p v = blit m p (map Some (image v))"
  by (cases "p + width \<le> length m") (auto simp: put_in put_out blit_def image_length)

lemma get_in:
  assumes "p + width \<le> length m"
  shows "get m p = get (take width (drop p m)) 0"
  using assms by (elim split_block) (simp add: get_mid)

lemma get_at:
  assumes "take width (drop p m) = map Some (image v)"
  shows "get m p = Inr v"
proof -
  from assms have "length (take width (drop p m)) = width"
    by (simp add: image_length)
  with width_pos have "p + width \<le> length m"
    by (auto simp: min_def split: if_splits)
  with assms show ?thesis
    by (simp add: get_in [of p m] get_image)
qed

lemma get_put_same: "put m p v = Inr m' \<Longrightarrow> get m' p = Inr v"
  by (rule get_at) (auto simp: put_Inr_iff image_length)

lemma put_other_bytes:
  assumes "put m p v = Inr m'" "k < p \<or> p + width \<le> k"
  shows "m' ! k = m ! k"
proof -
  from assms(1) have "p + width \<le> length m"
    by (simp add: put_Inr_iff)
  then obtain xs cs ys where m: "m = xs @ cs @ ys" and len: "length xs = p" "length cs = width"
    by (rule split_block)
  then have m': "m' = xs @ map Some (image v) @ ys"
    using assms(1) by (simp add: put_mid)
  show ?thesis
  proof (cases "k < p")
    case True
    then show ?thesis by (simp add: m m' len nth_append)
  next
    case False
    with assms(2) obtain j where "k = p + width + j"
      by (auto simp: le_iff_add)
    then show ?thesis
      using len by (simp add: m m' image_length nth_append)
  qed
qed

lemma get_put_other:
  assumes "put m p v = Inr m'" "q + width \<le> p \<or> p + width \<le> q"
  shows "get m' q = get m q"
proof (cases "q + width \<le> length m")
  case True
  have "m' ! (q + k) = m ! (q + k)" if "k < width" for k
    by (rule put_other_bytes [OF assms(1)]) (use assms(2) that in linarith)
  then have "take width (drop q m') = take width (drop q m)"
    using True put_length [OF assms(1)] by (intro nth_equalityI) simp_all
  then show ?thesis
    using True put_length [OF assms(1)] by (simp add: get_in [of q m] get_in [of q m'])
next
  case False
  then show ?thesis
    using put_length [OF assms(1)] by (simp add: get_out)
qed

end


section \<open>The six pairs satisfy the contract\<close>

lemmas reader_defs = readLE16_def readLE32_def readLE64_def readBE16_def readBE32_def readBE64_def
lemmas writer_defs = writeLE16_def writeLE32_def writeLE64_def writeBE16_def writeBE32_def writeBE64_def

lemma writers_mid:
  assumes "length xs = p"
  shows "length cs = 2 \<Longrightarrow> writeLE16 (xs @ cs @ ys) p v2 = Inr (xs @ map Some (le16 v2) @ ys)"
    and "length cs = 2 \<Longrightarrow> writeBE16 (xs @ cs @ ys) p v2 = Inr (xs @ map Some (be16 v2) @ ys)"
    and "length cs = 4 \<Longrightarrow> writeLE32 (xs @ cs @ ys) p v4 = Inr (xs @ map Some (le32 v4) @ ys)"
    and "length cs = 4 \<Longrightarrow> writeBE32 (xs @ cs @ ys) p v4 = Inr (xs @ map Some (be32 v4) @ ys)"
    and "length cs = 8 \<Longrightarrow> writeLE64 (xs @ cs @ ys) p v8 = Inr (xs @ map Some (le64 v8) @ ys)"
    and "length cs = 8 \<Longrightarrow> writeBE64 (xs @ cs @ ys) p v8 = Inr (xs @ map Some (be64 v8) @ ys)"
  using assms
  by (auto simp: length_cells writer_defs byte_images store_def list_update_append)

lemma writers_out:
  "length m < p + 2 \<Longrightarrow> writeLE16 m p v2 = Inl OutOfBounds"
  "length m < p + 2 \<Longrightarrow> writeBE16 m p v2 = Inl OutOfBounds"
  "length m < p + 4 \<Longrightarrow> writeLE32 m p v4 = Inl OutOfBounds"
  "length m < p + 4 \<Longrightarrow> writeBE32 m p v4 = Inl OutOfBounds"
  "length m < p + 8 \<Longrightarrow> writeLE64 m p v8 = Inl OutOfBounds"
  "length m < p + 8 \<Longrightarrow> writeBE64 m p v8 = Inl OutOfBounds"
  by (auto simp: writer_defs store_def)

lemma readers_mid:
  assumes "length xs = p"
  shows "length cs = 2 \<Longrightarrow> readLE16 (xs @ cs @ ys) p = readLE16 cs 0"
    and "length cs = 2 \<Longrightarrow> readBE16 (xs @ cs @ ys) p = readBE16 cs 0"
    and "length cs = 4 \<Longrightarrow> readLE32 (xs @ cs @ ys) p = readLE32 cs 0"
    and "length cs = 4 \<Longrightarrow> readBE32 (xs @ cs @ ys) p = readBE32 cs 0"
    and "length cs = 8 \<Longrightarrow> readLE64 (xs @ cs @ ys) p = readLE64 cs 0"
    and "length cs = 8 \<Longrightarrow> readBE64 (xs @ cs @ ys) p = readBE64 cs 0"
  using assms by (simp_all add: reader_defs load_def nth_append numeral_eq_Suc)

lemma readers_out:
  "length m < p + 2 \<Longrightarrow> readLE16 m p = Inl OutOfBounds"
  "length m < p + 2 \<Longrightarrow> readBE16 m p = Inl OutOfBounds"
  "length m < p + 4 \<Longrightarrow> readLE32 m p = Inl OutOfBounds"
  "length m < p + 4 \<Longrightarrow> readBE32 m p = Inl OutOfBounds"
  "length m < p + 8 \<Longrightarrow> readLE64 m p = Inl OutOfBounds"
  "length m < p + 8 \<Longrightarrow> readBE64 m p = Inl OutOfBounds"
  by (auto simp: reader_defs)


lemma join_bytes:
  fixes a b :: u8
  shows "unat (push_bit 8 (ucast a) OR ucast b :: u16) = 256 * unat a + unat b"
  using unat_join_word [where 'c = 16, of a b] by simp

lemma join_u16:
  fixes a b :: u16
  shows "unat (push_bit 16 (ucast a) OR ucast b :: u32) = 65536 * unat a + unat b"
  using unat_join_word [where 'c = 32, of a b] by simp

lemma join_u32:
  fixes a b :: u32
  shows "unat (push_bit 32 (ucast a) OR ucast b :: u64) = 4294967296 * unat a + unat b"
  using unat_join_word [where 'c = 64, of a b] by simp

lemma rejoin:
  fixes v2 :: u16 and v4 :: u32 and v8 :: u64
  shows "push_bit 8 (ucast (ucast (drop_bit 8 v2) :: u8)) OR ucast (ucast v2 :: u8) = v2"
    and "push_bit 16 (ucast (ucast (drop_bit 16 v4) :: u16)) OR ucast (ucast v4 :: u16) = v4"
    and "push_bit 32 (ucast (ucast (drop_bit 32 v8) :: u32)) OR ucast (ucast v8 :: u32) = v8"
  using join_split_word [where 'a = 8 and 'b = 8, of v2]
    join_split_word [where 'a = 16 and 'b = 16, of v4]
    join_split_word [where 'a = 32 and 'b = 32, of v8] by simp_all

lemmas rejoins = rejoin rejoin [unfolded or.commute [of "push_bit _ _"]]

lemma image_split:
  fixes v4 :: u32 and v8 :: u64
  shows "be32 v4 = be16 (ucast (drop_bit 16 v4)) @ be16 (ucast v4)"
    and "be64 v8 = be32 (ucast (drop_bit 32 v8)) @ be32 (ucast v8)"
  by (simp_all add: byte_images)

lemma image_split_le:
  fixes v4 :: u32 and v8 :: u64
  shows "le32 v4 = le16 (ucast v4) @ le16 (ucast (drop_bit 16 v4))"
    and "le64 v8 = le32 (ucast v8) @ le32 (ucast (drop_bit 32 v8))"
  by (simp_all add: le16_def le32_def le64_def image_split)

lemma read16_image:
  "readLE16 (map Some (le16 v)) 0 = Inr v" "readBE16 (map Some (be16 v)) 0 = Inr v"
  by (simp_all add: reader_defs byte_images load_def rejoins)

lemmas readers_head = readers_mid [where xs = "[]", simplified]
lemmas readers_last = readers_mid [where ys = "[]", simplified]

lemma read32_image:
  "readLE32 (map Some (le32 v)) 0 = Inr v" "readBE32 (map Some (be32 v)) 0 = Inr v"
  unfolding readLE32_def readBE32_def image_split image_split_le map_append
  by (simp_all add: readers_head readers_last read16_image rejoins del: list.map)

lemma read64_image:
  "readLE64 (map Some (le64 v)) 0 = Inr v" "readBE64 (map Some (be64 v)) 0 = Inr v"
  unfolding readLE64_def readBE64_def image_split(2) image_split_le(2) map_append
  by (simp_all add: readers_head readers_last read32_image rejoins del: list.map)

interpretation LE16: byte_codec 2 readLE16 writeLE16 le16
  by unfold_locales (simp_all add: writers_mid writers_out readers_mid readers_out read16_image)

interpretation BE16: byte_codec 2 readBE16 writeBE16 be16
  by unfold_locales (simp_all add: writers_mid writers_out readers_mid readers_out read16_image)

interpretation LE32: byte_codec 4 readLE32 writeLE32 le32
  by unfold_locales (simp_all add: writers_mid writers_out readers_mid readers_out read32_image)

interpretation BE32: byte_codec 4 readBE32 writeBE32 be32
  by unfold_locales (simp_all add: writers_mid writers_out readers_mid readers_out read32_image)

interpretation LE64: byte_codec 8 readLE64 writeLE64 le64
  by unfold_locales (simp_all add: writers_mid writers_out readers_mid readers_out read64_image)

interpretation BE64: byte_codec 8 readBE64 writeBE64 be64
  by unfold_locales (simp_all add: writers_mid writers_out readers_mid readers_out read64_image)


section \<open>The numbers the images stand for\<close>

lemma be_value_append: "be_value (xs @ ys) = 256 ^ length ys * be_value xs + be_value ys"
proof (induction ys rule: rev_induct)
  case (snoc y ys)
  have "be_value (zs @ [y]) = 256 * be_value zs + unat y" for zs
    by (simp add: be_value_def)
  then show ?case
    using snoc by (simp add: algebra_simps flip: append_assoc)
qed (simp add: be_value_def)

lemma be_value_images:
  fixes v2 :: u16 and v4 :: u32 and v8 :: u64
  shows "be_value (be16 v2) = unat v2" "be_value (be32 v4) = unat v4" "be_value (be64 v8) = unat v8"
proof -
  have 2: "be_value (be16 v) = unat v" for v
    using join_bytes [of "ucast (drop_bit 8 v)" "ucast v"]
    by (simp add: be_value_def be16_def rejoin del: push_bit_of_1)
  have 4: "be_value (be32 v) = unat v" for v
    using join_u16 [of "ucast (drop_bit 16 v)" "ucast v"]
    by (simp only: image_split(1) be_value_append 2 rejoin) simp
  show "be_value (be16 v2) = unat v2" "be_value (be32 v4) = unat v4"
    by (rule 2, rule 4)
  show "be_value (be64 v8) = unat v8"
    using join_u32 [of "ucast (drop_bit 32 v8)" "ucast v8"]
    by (simp only: image_split(2) be_value_append 4 rejoin) simp
qed

lemma le_value_images:
  "le_value (le16 v2) = unat v2" "le_value (le32 v4) = unat v4" "le_value (le64 v8) = unat v8"
  by (simp_all add: le_value_def le16_def le32_def le64_def be_value_images)

text \<open>
  What a pair of a writer and a reader of \<open>w\<close> bytes is for: the write succeeds, the reader gets the value
  back, the bytes spell the value in the given base-256 notation, and no other byte changes.
\<close>

definition transports ::
  "nat \<Rightarrow> (mem \<Rightarrow> nat \<Rightarrow> 'a::len word \<Rightarrow> mem res) \<Rightarrow> (mem \<Rightarrow> nat \<Rightarrow> 'a word res) \<Rightarrow> (u8 list \<Rightarrow> nat) \<Rightarrow>
    mem \<Rightarrow> nat \<Rightarrow> 'a word \<Rightarrow> bool" where
  "transports w put get number m p v \<longleftrightarrow>
     (\<exists>m' bs. put m p v = Inr m' \<and> get m' p = Inr v \<and> m' = take p m @ map Some bs @ drop (p + w) m \<and>
        length bs = w \<and> number bs = unat v)"

section \<open>Properties\<close>

text \<open>
  Property C32. Each of the six pairs of readers and writers transports its values in the byte order it is
  named after, wherever its bytes fit into the block.
\<close>

theorem codecs_transport:
  assumes "p + 8 \<le> length m"
  shows "transports 2 writeBE16 readBE16 be_value m p v2 \<and> transports 2 writeLE16 readLE16 le_value m p v2 \<and>
    transports 4 writeBE32 readBE32 be_value m p v4 \<and> transports 4 writeLE32 readLE32 le_value m p v4 \<and>
    transports 8 writeBE64 readBE64 be_value m p v8 \<and> transports 8 writeLE64 readLE64 le_value m p v8"
  unfolding transports_def
  using assms BE16.put_in [of p m v2] LE16.put_in [of p m v2] BE32.put_in [of p m v4] LE32.put_in [of p m v4]
    BE64.put_in [of p m v8] LE64.put_in [of p m v8]
  by (intro conjI)
    (force simp: be_value_images le_value_images dest: BE16.get_put_same LE16.get_put_same
      BE32.get_put_same LE32.get_put_same BE64.get_put_same LE64.get_put_same)+

theorem codecs_transport_witness:
  "transports 4 writeBE32 readBE32 be_value (replicate 9 None) 1 0x01020304"
  using codecs_transport [where p = 1 and m = "replicate 9 None" and ?v4.0 = "0x01020304"] by simp

end
