(* ===== verification/Popcount.thy ===== *)
theory Popcount
  imports Serializer
begin

text \<open>
  \<open>bitset::popcnt\<close> of src/util/bitset.h: the word-parallel Hamming weight, and the proof that it
  is the number of one bits. The masks cut the word into lanes of 2, 4 and 8 bits; each stage acts
  on the lanes independently (\<open>lanes_high_half\<close>, \<open>lanes_low_half\<close>, \<open>lanes_nibble_sum\<close>) and doubles
  the lane width (\<open>lanes_pairs\<close>) while keeping the sum of the lanes (\<open>sum_list_pairs\<close>); the final
  multiplication gathers the eight byte lanes in the top byte (\<open>lanes_multiply\<close>).
\<close>

definition popcnt :: "u64 \<Rightarrow> nat" where
  "popcnt v =
     (let v = v - (drop_bit 1 v AND 0x5555555555555555);
          v = (v AND 0x3333333333333333) + (drop_bit 2 v AND 0x3333333333333333)
      in unat (drop_bit 56 (((v + drop_bit 4 v) AND 0x0F0F0F0F0F0F0F0F) * 0x0101010101010101)))"

fun lanes :: "nat \<Rightarrow> nat list \<Rightarrow> nat" where
  "lanes B [] = 0"
| "lanes B (x # xs) = x + B * lanes B xs"

fun pairs :: "nat \<Rightarrow> nat list \<Rightarrow> nat list" where
  "pairs B (x # y # zs) = (x + B * y) # pairs B zs"
| "pairs B xs = []"

fun crumbs :: "nat \<Rightarrow> nat \<Rightarrow> nat list" where
  "crumbs 0 v = []"
| "crumbs (Suc n) v = (v mod 4) # crumbs n (v div 4)"

lemma plus_is_or:
  fixes y Y :: nat
  assumes "y < 2 ^ m"
  shows "y + 2 ^ m * Y = (push_bit m Y OR y)"
proof -
  have "take_bit m y = y" using assms by (simp add: take_bit_nat_eq_self)
  then have "\<not> bit y n" if "m \<le> n" for n
    using that by (metis bit_take_bit_iff not_le)
  then have "push_bit m Y + y = push_bit m Y OR y"
    by (intro disjunctive_add) (auto simp: bit_push_bit_iff)
  then show ?thesis by (simp add: push_bit_eq_mult mult.commute)
qed

lemma and_lane:
  fixes x c X C :: nat
  assumes "x < 2 ^ m" "c < 2 ^ m"
  shows "(x + 2 ^ m * X) AND (c + 2 ^ m * C) = (x AND c) + 2 ^ m * (X AND C)"
proof -
  have no_bit: "\<not> bit y n" if "y < 2 ^ m" "m \<le> n" for y n :: nat
    using that by (metis bit_take_bit_iff not_le take_bit_nat_eq_self)
  have "take_bit m (x AND c) = x AND c"
    using assms by (simp add: take_bit_and take_bit_nat_eq_self)
  then have "x AND c < 2 ^ m"
    by (metis take_bit_nat_less_exp)
  then show ?thesis
    using assms no_bit
    by (intro bit_eqI) (auto simp: plus_is_or bit_and_iff bit_or_iff bit_push_bit_iff)
qed

lemma half_lane:
  fixes x X :: nat
  assumes "B = b * b" "0 < b" "x < B"
  shows "(x + B * X) div b = (x div b + b * (X mod b)) + B * (X div b)"
proof -
  have "(x + B * X) div b = x div b + b * X"
    using assms by (simp add: mult.assoc)
  also have "b * X = b * (X mod b) + B * (X div b)"
    using assms by (metis distrib_left mult.assoc mod_mult_div_eq)
  finally show ?thesis by simp
qed

lemma low_mask_less: "(mask k :: nat) < 2 ^ (2 * k)"
  unfolding mask_eq_exp_minus_1
proof -
  have "(2::nat) ^ k \<le> 2 ^ (2 * k)" by (intro power_increasing) auto
  moreover have "(0::nat) < 2 ^ k" by simp
  ultimately show "(2::nat) ^ k - 1 < 2 ^ (2 * k)" by linarith
qed

lemma and_low_mask: "(x::nat) AND mask k = x mod 2 ^ k"
  by (metis take_bit_eq_mask take_bit_eq_mod)

lemma lanes_low_half:
  assumes "\<forall>x\<in>set xs. x < 2 ^ (2 * k)"
  shows "lanes (2 ^ (2 * k)) xs AND lanes (2 ^ (2 * k)) (replicate (length xs) (mask k))
    = lanes (2 ^ (2 * k)) (map (\<lambda>x. x mod 2 ^ k) xs)"
  using assms
  by (induction xs) (simp_all add: and_lane [OF _ low_mask_less] and_low_mask)

lemma lanes_high_half:
  assumes "\<forall>x\<in>set xs. x < 2 ^ (2 * k)"
  shows "(lanes (2 ^ (2 * k)) xs div 2 ^ k) AND
      lanes (2 ^ (2 * k)) (replicate (length xs) (mask k))
    = lanes (2 ^ (2 * k)) (map (\<lambda>x. x div 2 ^ k) xs)"
  using assms
proof (induction xs)
  case (Cons x xs)
  let ?B = "(2::nat) ^ (2 * k)" and ?X = "lanes (2 ^ (2 * k)) xs"
  have B: "?B = 2 ^ k * 2 ^ k"
    by (simp add: mult_2 power_add)
  have x: "x < ?B" "x div 2 ^ k < 2 ^ k"
    using Cons.prems by (auto simp: B less_mult_imp_div_less)
  have "x div 2 ^ k + 2 ^ k * (?X mod 2 ^ k) < 2 ^ k * (?X mod 2 ^ k + 1)"
    using x by simp
  also have "\<dots> \<le> ?B"
    unfolding B by (intro mult_le_mono2) (simp add: Suc_le_eq)
  finally have "x div 2 ^ k + 2 ^ k * (?X mod 2 ^ k) < ?B" .
  moreover have "(x div 2 ^ k + 2 ^ k * (?X mod 2 ^ k)) mod 2 ^ k = x div 2 ^ k"
    using x by simp
  ultimately show ?case
    using Cons x by (simp add: half_lane [OF B] and_lane [OF _ low_mask_less] and_low_mask)
qed simp

text \<open>The last stage adds first and masks afterwards: the sums fit in a nibble.\<close>

lemma lanes_nibble_sum:
  assumes "\<forall>x\<in>set xs. x mod 16 \<le> 4 \<and> x div 16 \<le> 4"
  shows "(lanes 256 xs + lanes 256 xs div 16) AND lanes 256 (replicate (length xs) 15)
    = lanes 256 (map (\<lambda>x. x mod 16 + x div 16) xs)"
  using assms
proof (induction xs)
  case (Cons x xs)
  let ?X = "lanes 256 xs"
  have X: "?X mod 16 \<le> 4"
    using Cons.prems by (cases xs) (auto simp: mod_add_eq [symmetric] mod_mult_eq [symmetric])
  define l where "l = x + x div 16 + 16 * (?X mod 16)"
  define q where "q = x div 16"
  define r where "r = x mod 16"
  have x_parts: "x div 16 = q" "x mod 16 = r"
    by (simp_all add: q_def r_def)
  have x: "x = 16 * q + r" "r \<le> 4" "q \<le> 4"
    using Cons.prems by (simp_all add: q_def r_def)
  have l: "l = (r + q) + 16 * (q + ?X mod 16)"
    unfolding l_def x_parts using x(1) by simp
  obtain m where m: "?X mod 16 = m" by blast
  have "l < 256" using x(2,3) X unfolding l m by simp
  then have "l < 2 ^ 8" by simp
  have "l mod 16 = (r + q) mod 16" unfolding l by (rule mod_mult_self2)
  also have "\<dots> = r + q" using x by simp
  finally have "l AND 15 = x mod 16 + x div 16"
    using and_low_mask [of l 4] by (simp add: mask_eq_exp_minus_1 x_parts)
  have "(x + 256 * ?X) div 16 = x div 16 + 16 * (?X mod 16) + 256 * (?X div 16)"
    using half_lane [of 256 16 x ?X] x x_parts by simp
  then have "lanes 256 (x # xs) + lanes 256 (x # xs) div 16 = l + 2 ^ 8 * (?X + ?X div 16)"
    unfolding l_def by simp
  moreover have "lanes 256 (replicate (length (x # xs)) 15)
      = 15 + 2 ^ 8 * lanes 256 (replicate (length xs) 15)" by simp
  moreover have "(l + 2 ^ 8 * (?X + ?X div 16)) AND (15 + 2 ^ 8 * lanes 256 (replicate (length xs) 15))
      = (l AND 15) + 2 ^ 8 * ((?X + ?X div 16) AND lanes 256 (replicate (length xs) 15))"
    using \<open>l < 2 ^ 8\<close> by (intro and_lane) simp_all
  ultimately have "(lanes 256 (x # xs) + lanes 256 (x # xs) div 16) AND
      lanes 256 (replicate (length (x # xs)) 15)
      = (l AND 15) + 2 ^ 8 * ((?X + ?X div 16) AND lanes 256 (replicate (length xs) 15))"
    by (simp only:)
  then show ?case
    using Cons.IH Cons.prems \<open>l AND 15 = x mod 16 + x div 16\<close> by simp
qed simp

lemma lanes_replicate:
  "B * lanes B (replicate n c) + c = lanes B (replicate n c) + c * B ^ n"
  by (induction n) (auto simp: algebra_simps)

lemma lanes_pairs: "even (length xs) \<Longrightarrow> lanes (B * B) (pairs B xs) = lanes B xs"
  by (induction B xs rule: pairs.induct) (auto simp: algebra_simps)

lemma length_pairs: "length (pairs B xs) = length xs div 2"
  by (induction B xs rule: pairs.induct) auto

lemma pairs_bound: "\<forall>x\<in>set xs. x \<le> c \<Longrightarrow> z \<in> set (pairs B xs) \<Longrightarrow> z \<le> c + B * c"
  by (induction B xs rule: pairs.induct) (auto intro!: add_mono mult_le_mono)

lemma pairs_digits:
  assumes "\<forall>x\<in>set xs. x \<le> c" "c < B" "z \<in> set (pairs B xs)"
  shows "z mod B \<le> c" "z div B \<le> c"
  using assms by (induction B xs rule: pairs.induct) auto

lemma pairs_sums:
  "\<forall>x\<in>set xs. x < B \<Longrightarrow> map (\<lambda>z. z mod B + z div B) (pairs B xs) = pairs 1 xs"
  by (induction B xs rule: pairs.induct) auto

lemma sum_list_pairs: "even (length xs) \<Longrightarrow> sum_list (pairs 1 xs) = sum_list xs"
proof (induction "1::nat" xs rule: pairs.induct)
qed auto

lemma lanes_crumbs: "v < 4 ^ n \<Longrightarrow> lanes 4 (crumbs n v) = v"
  by (induction n arbitrary: v) (auto simp: less_mult_imp_div_less mult.commute)

lemma crumbs_bound: "\<forall>x\<in>set (crumbs n v). x < 4"
  by (induction n arbitrary: v) auto

lemma length_crumbs [simp]: "length (crumbs n v) = n"
  by (induction n arbitrary: v) auto

lemma sum_crumbs:
  "sum_list (map (\<lambda>d. d - d div 2) (crumbs n v)) = (\<Sum>i<2 * n. of_bool (bit v i))"
proof (induction n arbitrary: v)
  case (Suc n)
  have "(\<Sum>i<2 * Suc n. of_bool (bit v i) :: nat)
      = of_bool (bit v 0) + of_bool (bit v 1) + (\<Sum>i<2 * n. of_bool (bit (v div 4) i))"
    by (simp add: sum.lessThan_Suc_shift bit_Suc flip: div_mult2_eq del: sum.lessThan_Suc)
  moreover have "v mod 4 = v mod 2 + 2 * (v div 2 mod 2)"
    using mod_mult2_eq [of v 2 2] by simp
  then have "v mod 4 - v mod 4 div 2 = v mod 2 + v div 2 mod 2"
    by linarith
  then have "v mod 4 - v mod 4 div 2 = of_bool (bit v 0) + of_bool (bit v 1)"
    by (simp add: bit_Suc bit_0 odd_iff_mod_2_eq_one)
  ultimately show ?case using Suc by simp
qed simp


text \<open>Multiplying eight small lanes by \<open>0x0101...\<close> leaves their sum in the top byte.\<close>

lemma lanes_multiply:
  assumes "length xs = 8" "\<forall>x\<in>set xs. x \<le> 8"
  shows "lanes 256 xs * 0x0101010101010101 mod 2 ^ 64 div 2 ^ 56 = sum_list xs"
proof -
  obtain a b c d e f g h where xs: "xs = [a, b, c, d, e, f, g, h]"
    using assms(1) by (auto simp: length_cells)
  let ?low = "a + 256 * (a + b) + 65536 * (a + b + c) + 16777216 * (a + b + c + d)
    + 4294967296 * (a + b + c + d + e) + 1099511627776 * (a + b + c + d + e + f)
    + 281474976710656 * (a + b + c + d + e + f + g)"
  let ?high = "(b + c + d + e + f + g + h) + 256 * (c + d + e + f + g + h)
    + 65536 * (d + e + f + g + h) + 16777216 * (e + f + g + h)
    + 4294967296 * (f + g + h) + 1099511627776 * (g + h) + 281474976710656 * h"
  have bounds: "a \<le> 8" "b \<le> 8" "c \<le> 8" "d \<le> 8" "e \<le> 8" "f \<le> 8" "g \<le> 8" "h \<le> 8"
    using assms(2) by (auto simp: xs)
  then have low: "?low < 2 ^ 56" by simp
  have "lanes 256 xs * 0x0101010101010101 = ?low + 2 ^ 56 * sum_list xs + 2 ^ 64 * ?high"
    by (simp add: xs algebra_simps)
  moreover have "?low + 2 ^ 56 * sum_list xs < 2 ^ 64"
    using bounds low by (simp add: xs)
  ultimately have "lanes 256 xs * 0x0101010101010101 mod 2 ^ 64 = ?low + 2 ^ 56 * sum_list xs"
    by (metis mod_less mod_mult_self2)
  then show ?thesis using low by simp
qed

text \<open>The three masking stages on the digits of a 64-bit number.\<close>

lemma swar_stages:
  fixes v :: nat
  assumes "v < 2 ^ 64"
  defines "v1 \<equiv> v - ((v div 2) AND 0x5555555555555555)"
  defines "v2 \<equiv> (v1 AND 0x3333333333333333) + ((v1 div 4) AND 0x3333333333333333)"
  shows "\<exists>gs. length gs = 8 \<and> (\<forall>g\<in>set gs. g \<le> 8) \<and>
    (v2 + v2 div 16) AND 0x0F0F0F0F0F0F0F0F = lanes 256 gs \<and>
    sum_list gs = (\<Sum>i<64. of_bool (bit v i)) \<and> v2 + v2 div 16 < 2 ^ 64"
proof -
  define ds where "ds = crumbs 32 v"
  have ds: "lanes 4 ds = v" "length ds = 32" "\<forall>d\<in>set ds. d < 4"
    using assms(1) by (simp_all add: ds_def lanes_crumbs crumbs_bound)
  define es where "es = map (\<lambda>d. d - d div 2) ds"
  have masks: "lanes 4 (replicate 32 1) = 0x5555555555555555"
    "lanes 16 (replicate 16 3) = 0x3333333333333333"
    "lanes 256 (replicate 8 15) = 0x0F0F0F0F0F0F0F0F"
    using lanes_replicate [of 4 32 1] lanes_replicate [of 16 16 3] lanes_replicate [of 256 8 15]
    by simp_all
  have sub: "lanes 4 xs - lanes 4 (map (\<lambda>d. d div 2) xs) = lanes 4 (map (\<lambda>d. d - d div 2) xs)" for xs
  proof -
    have "lanes 4 (map (\<lambda>d. d - d div 2) xs) + lanes 4 (map (\<lambda>d. d div 2) xs) = lanes 4 xs"
      by (induction xs) auto
    then show ?thesis by linarith
  qed
  have add: "lanes B (map f xs) + lanes B (map g xs) = lanes B (map (\<lambda>x. f x + g x) xs)" for B f g xs
    by (induction xs) (auto simp: algebra_simps simp flip: distrib_left)
  have v1: "v1 = lanes 4 es"
    using lanes_high_half [of ds 1] ds masks(1) sub [of ds]
    by (simp add: v1_def es_def mask_eq_exp_minus_1)
  have es: "length es = 32" "\<forall>e\<in>set es. e \<le> 2"
    using ds(2,3) by (auto simp: es_def)
  define ns where "ns = pairs 4 es"
  have ns: "length ns = 16" "lanes 16 ns = v1" "\<forall>n\<in>set ns. n < 16"
    using es lanes_pairs [of es 4] pairs_bound [OF es(2), of _ 4]
    by (fastforce simp: ns_def length_pairs v1)+
  define fs where "fs = map (\<lambda>z. z mod 4 + z div 4) ns"
  have v2: "v2 = lanes 16 fs"
    using lanes_low_half [of ns 2] lanes_high_half [of ns 2] ns masks(2)
    by (simp add: v2_def fs_def mask_eq_exp_minus_1 add)
  have fs: "length fs = 16" "\<forall>f\<in>set fs. f \<le> 4" "sum_list fs = sum_list es"
  proof -
    have "fs = pairs 1 es"
      unfolding fs_def ns_def using es(2) by (intro pairs_sums) auto
    then show "length fs = 16" "sum_list fs = sum_list es" "\<forall>f\<in>set fs. f \<le> 4"
      using es pairs_bound [OF es(2), of _ 1] sum_list_pairs [of es]
      by (auto simp: length_pairs)
  qed
  define bs where "bs = pairs 16 fs"
  have bs: "length bs = 8" "lanes 256 bs = v2"
    using fs lanes_pairs [of fs 16] by (auto simp: bs_def length_pairs v2)
  have nib: "\<forall>b\<in>set bs. b mod 16 \<le> 4 \<and> b div 16 \<le> 4"
    using pairs_digits [OF fs(2), of 16] by (auto simp: bs_def)
  define gs where "gs = map (\<lambda>x. x mod 16 + x div 16) bs"
  have "gs = pairs 1 fs"
    unfolding gs_def bs_def using fs(2) by (intro pairs_sums) auto
  then have "sum_list gs = sum_list fs"
    using fs(1) sum_list_pairs [of fs] by simp
  then have "sum_list gs = (\<Sum>i<64. of_bool (bit v i))"
    using sum_crumbs [of 32 v] by (simp add: fs(3) es_def ds_def)
  moreover have "(v2 + v2 div 16) AND 0x0F0F0F0F0F0F0F0F = lanes 256 gs"
    using lanes_nibble_sum [OF nib] bs masks(3) by (simp add: gs_def)
  moreover have "v2 \<le> 4 * 0x1111111111111111"
  proof -
    have "lanes 16 xs \<le> lanes 16 (replicate (length xs) 4)" if "\<forall>x\<in>set xs. x \<le> 4" for xs
      using that by (induction xs) auto
    from this [of fs] show ?thesis
      using fs lanes_replicate [of 16 16 4] by (simp add: v2)
  qed
  then have "v2 + v2 div 16 < 2 ^ 64" by simp
  ultimately show ?thesis
    using bs(1) nib by (intro exI [of _ gs]) (auto simp: gs_def)
qed


lemma unat_and: "unat (a AND b :: 'a::len word) = unat a AND unat b"
  by (simp add: unsigned_and_eq)

lemma unat_drop: "unat (drop_bit n a :: 'a::len word) = unat a div 2 ^ n"
  by (simp only: unsigned_drop_bit_eq) (simp add: drop_bit_eq_div take_bit_nat_eq_self)

text \<open>The number of one bits of a word.\<close>

definition ones :: "'a::len word \<Rightarrow> nat" where
  "ones w = card {i. bit w i}"

lemma popcnt_ones: "popcnt v = ones v"
  unfolding ones_def
proof -
  define n where "n = unat v"
  define v1 where "v1 = n - ((n div 2) AND 0x5555555555555555)"
  define v2 where "v2 = (v1 AND 0x3333333333333333) + ((v1 div 4) AND 0x3333333333333333)"
  have n: "n < 2 ^ 64"
    using unsigned_less [of v] by (simp add: n_def)
  from swar_stages [OF this] obtain gs where gs: "length gs = 8" "\<forall>g\<in>set gs. g \<le> 8"
    "(v2 + v2 div 16) AND 0x0F0F0F0F0F0F0F0F = lanes 256 gs"
    "sum_list gs = (\<Sum>i<64. of_bool (bit n i))" and v2: "v2 + v2 div 16 < 2 ^ 64"
    by (auto simp: v1_def v2_def)
  define w1 where "w1 = v - (drop_bit 1 v AND 0x5555555555555555)"
  define w2 where "w2 = (w1 AND 0x3333333333333333) + (drop_bit 2 w1 AND 0x3333333333333333)"
  have "drop_bit 1 v AND 0x5555555555555555 \<le> drop_bit 1 v"
    by (rule word_and_le2)
  also have "drop_bit 1 v \<le> v"
    by (simp add: word_le_nat_alt unat_drop)
  finally have w1: "unat w1 = v1"
    unfolding w1_def v1_def n_def by (simp add: unat_sub unat_and unat_drop)
  have "unat (w1 AND 0x3333333333333333) + unat (drop_bit 2 w1 AND 0x3333333333333333) = v2"
    by (simp add: v2_def w1 unat_and unat_drop)
  then have w2: "unat w2 = v2"
    using v2 by (simp add: w2_def unat_word_ariths)
  have "unat (w2 + drop_bit 4 w2) = v2 + v2 div 16"
    using v2 by (simp add: unat_word_ariths unat_drop w2)
  then have "unat ((w2 + drop_bit 4 w2) AND 0x0F0F0F0F0F0F0F0F) = lanes 256 gs"
    using gs(3) by (simp add: unat_and)
  then have "popcnt v = lanes 256 gs * 0x0101010101010101 mod 2 ^ 64 div 2 ^ 56"
    unfolding popcnt_def Let_def w1_def [symmetric] w2_def [symmetric]
    by (simp add: unat_drop unat_word_ariths)
  also have "\<dots> = (\<Sum>i<64. of_bool (bit n i))"
    using gs lanes_multiply by simp
  also have "\<dots> = card {i. i < 64 \<and> bit n i}"
    by (simp add: sum.If_cases Int_def of_bool_def)
  also have "{i. i < 64 \<and> bit n i} = {i. bit v i}"
    by (auto simp: n_def bit_unsigned_iff dest: bit_imp_le_length)
  finally show "popcnt v = card {i. bit v i}" .
qed

lemma ones_ucast:
  fixes w :: "'a::len word"
  assumes "LENGTH('a) \<le> LENGTH('b::len)"
  shows "ones (ucast w :: 'b word) = ones w"
proof -
  have "{i. bit (ucast w :: 'b word) i} = {i. bit w i}"
    using assms by (auto simp: bit_simps dest: bit_imp_le_length)
  then show ?thesis by (simp add: ones_def)
qed

lemma ones_join:
  fixes hi :: "'a::len word" and lo :: "'b::len word"
  assumes "LENGTH('a) + LENGTH('b) \<le> LENGTH('c::len)"
  shows "ones (push_bit LENGTH('b) (ucast hi) OR ucast lo :: 'c word) = ones hi + ones lo"
proof -
  let ?H = "(\<lambda>n. n + LENGTH('b)) ` {n. bit hi n}" and ?L = "{n. bit lo n}"
  have H: "?H = {n. LENGTH('b) \<le> n \<and> bit hi (n - LENGTH('b))}"
    by (force simp: image_iff le_iff_add)
  have "{n. bit (push_bit LENGTH('b) (ucast hi) OR ucast lo :: 'c word) n} = ?H \<union> ?L"
    unfolding H using assms by (auto simp: bit_simps dest: bit_imp_le_length)
  moreover have "?H \<inter> ?L = {}"
    by (auto dest: bit_imp_le_length)
  moreover have "finite {n. bit w n}" for w :: "'d::len word"
    by (rule finite_subset [of _ "{..<LENGTH('d)}"]) (auto dest: bit_imp_le_length)
  ultimately show ?thesis
    by (simp add: ones_def card_Un_disjoint card_image)
qed

lemma ones_byte: "ones (x :: u8) = card {i. i < 8 \<and> bit x i}"
proof -
  have "{i. bit x i} = {i. i < 8 \<and> bit x i}"
    by (auto dest: bit_imp_le_length)
  then show ?thesis by (simp add: ones_def)
qed

end
