(* ===== verification/Bitset.thy ===== *)
theory Bitset
  imports Popcount
begin

text \<open>
  src/util/bitset.h. A bit set of \<open>n\<close> bits owns \<open>n\<close> bytes (\<open>construct\<close> allocates \<open>size\<close> bytes), of
  which bit \<open>i\<close> lives in byte \<open>i >> 3\<close>. The accessor \<open>bitsAt\<close> takes an \<open>int\<close>, so an index is
  first converted to 32 bits. An access outside the array is a fault.
\<close>

section \<open>State and operations\<close>

record bitset =
  bs_bits :: "u8 list"
  bs_size :: nat

definition bitset_construct :: "nat \<Rightarrow> bitset" where
  "bitset_construct n = \<lparr>bs_bits = replicate n 0, bs_size = n\<rparr>"

definition bitset_resize :: "bitset \<Rightarrow> nat \<Rightarrow> bitset res" where
  "bitset_resize b n =
     (if n \<le> length (bs_bits b)
      then Inr (b\<lparr>bs_bits := take n (bs_bits b), bs_size := n\<rparr>)
      else Inl OutOfBounds)"

text \<open>The index \<open>i >> 3\<close> of an argument converted to \<open>int\<close>.\<close>

definition bitsAt_index :: "nat \<Rightarrow> int" where
  "bitsAt_index i = sint (of_nat i :: u32) div 8"

definition bitsAt :: "bitset \<Rightarrow> nat \<Rightarrow> u8 res" where
  "bitsAt b i =
     (let k = bitsAt_index i in
      if 0 \<le> k \<and> k < int (length (bs_bits b)) then Inr (bs_bits b ! nat k) else Inl OutOfBounds)"

text \<open>Assignment through the reference that \<open>bitsAt\<close> returns.\<close>

definition bitsAt_assign :: "bitset \<Rightarrow> nat \<Rightarrow> u8 \<Rightarrow> bitset res" where
  "bitsAt_assign b i v =
     (let k = bitsAt_index i in
      if 0 \<le> k \<and> k < int (length (bs_bits b)) then Inr (b\<lparr>bs_bits := (bs_bits b)[nat k := v]\<rparr>)
      else Inl OutOfBounds)"

text \<open>\<open>1 << (i & 7)\<close>.\<close>

definition bit_mask :: "nat \<Rightarrow> u8" where
  "bit_mask i = push_bit (i mod 8) 1"

definition bitset_test :: "bitset \<Rightarrow> nat \<Rightarrow> bool res" where
  "bitset_test b i = rbind (bitsAt b i) (\<lambda>x. Inr (x AND bit_mask i \<noteq> 0))"

definition bitset_set :: "bitset \<Rightarrow> nat \<Rightarrow> bitset res" where
  "bitset_set b i = rbind (bitsAt b i) (\<lambda>x. bitsAt_assign b i (x OR bit_mask i))"

definition bitset_set_to :: "bitset \<Rightarrow> nat \<Rightarrow> bool \<Rightarrow> bitset res" where
  "bitset_set_to b i v =
     rbind (bitsAt b i) (\<lambda>x.
       bitsAt_assign b i (x XOR (((if v then - 1 else 0) XOR x) AND bit_mask i)))"

definition bitset_clear :: "bitset \<Rightarrow> nat \<Rightarrow> bitset res" where
  "bitset_clear b i = rbind (bitsAt b i) (\<lambda>x. bitsAt_assign b i (x AND NOT (bit_mask i)))"

definition bitset_toggle :: "bitset \<Rightarrow> nat \<Rightarrow> bitset res" where
  "bitset_toggle b i = rbind (bitsAt b i) (\<lambda>x. bitsAt_assign b i (x XOR bit_mask i))"

definition bitset_raw_set :: "bitset \<Rightarrow> u8 list \<Rightarrow> nat \<Rightarrow> bitset res" where
  "bitset_raw_set b bits n =
     (if \<not> n \<le> bs_size b then Inl AssertionFailure
      else if n \<le> length bits \<and> n \<le> length (bs_bits b)
      then Inr (b\<lparr>bs_bits := take n bits @ drop n (bs_bits b)\<rparr>)
      else Inl OutOfBounds)"

text \<open>
  \<open>count\<close>: \<open>src\<close> is the offset of the running pointer, \<open>dst\<close> the offset \<open>m_size\<close> of the end. The
  tests \<open>src + 7 <= dst\<close>, \<open>src + 3 <= dst\<close> and \<open>src + 1 <= dst\<close> are the code's; the loads behind
  them read 8, 4 and 2 bytes. The wide loads are little-endian, as on the x86 hosts the program
  targets (the number of ones does not depend on it).
\<close>

function count_qwords :: "mem \<Rightarrow> nat \<Rightarrow> nat \<Rightarrow> nat \<Rightarrow> (nat \<times> nat) res" where
  "count_qwords m dst src s =
     (if src + 7 \<le> dst
      then rbind (readLE64 m src) (\<lambda>v. count_qwords m dst (src + 8) (s + popcnt v))
      else Inr (src, s))"
  by pat_completeness auto
termination
  by (relation "measure (\<lambda>(m, dst, src, s). dst - src)") auto

declare count_qwords.simps [simp del]

definition bitset_count :: "bitset \<Rightarrow> nat res" where
  "bitset_count b =
     (let m = map Some (bs_bits b); dst = bs_size b in
      rbind (count_qwords m dst 0 0) (\<lambda>(src, s).
      rbind (if src + 3 \<le> dst
             then rbind (readLE32 m src) (\<lambda>v. Inr (src + 4, s + popcnt (ucast v)))
             else Inr (src, s)) (\<lambda>(src, s).
      rbind (if src + 1 \<le> dst
             then rbind (readLE16 m src) (\<lambda>v. Inr (src + 2, s + popcnt (ucast v)))
             else Inr (src, s)) (\<lambda>(src, s).
      if src < dst
      then rbind (load m src) (\<lambda>v. Inr (s + popcnt (ucast v)))
      else Inr s))))"

definition bitset_wf :: "bitset \<Rightarrow> bool" where
  "bitset_wf b \<longleftrightarrow> length (bs_bits b) = bs_size b"

text \<open>The indices an \<open>int\<close> can address inside the array.\<close>

definition bitset_cap :: "bitset \<Rightarrow> nat" where
  "bitset_cap b = min (8 * length (bs_bits b)) (2 ^ 31)"

lemma bitsAt_index_small:
  assumes "i < 2 ^ 31"
  shows "bitsAt_index i = int (i div 8)"
proof -
  have "sint (of_nat i :: u32) = int i"
    using assms by (simp add: signed_of_nat signed_take_bit_int_eq_self)
  then show ?thesis by (simp add: bitsAt_index_def zdiv_int)
qed

lemma bit_mask_bit [simp]: "bit (bit_mask i) n \<longleftrightarrow> n = i mod 8"
  by (auto simp: bit_mask_def bit_simps)

lemma and_mask_nonzero: "x AND bit_mask i \<noteq> 0 \<longleftrightarrow> bit x (i mod 8)"
proof
  assume "x AND bit_mask i \<noteq> 0"
  then obtain n where "bit (x AND bit_mask i) n"
    by (metis bit_eqI bit_0_eq bot_apply bot_bool_def)
  then show "bit x (i mod 8)" by (auto simp: bit_simps)
next
  assume "bit x (i mod 8)"
  then have "bit (x AND bit_mask i) (i mod 8)" by (simp add: bit_simps)
  then show "x AND bit_mask i \<noteq> 0" by (metis bit_0_eq bot_apply bot_bool_def)
qed

lemma bitsAt_in:
  assumes "i < bitset_cap b"
  shows "bitsAt b i = Inr (bs_bits b ! (i div 8))"
proof -
  from assms have "i < 2 ^ 31" "i div 8 < length (bs_bits b)"
    by (auto simp: bitset_cap_def)
  then show ?thesis
    by (simp add: bitsAt_def bitsAt_index_small)
qed

lemma bitsAt_assign_in:
  assumes "i < bitset_cap b"
  shows "bitsAt_assign b i v = Inr (b\<lparr>bs_bits := (bs_bits b)[i div 8 := v]\<rparr>)"
proof -
  from assms have "i < 2 ^ 31" "i div 8 < length (bs_bits b)"
    by (auto simp: bitset_cap_def)
  then show ?thesis
    by (simp add: bitsAt_assign_def bitsAt_index_small)
qed

lemma test_in: "i < bitset_cap b \<Longrightarrow> bitset_test b i = Inr (bit (bs_bits b ! (i div 8)) (i mod 8))"
  by (simp add: bitset_test_def bitsAt_in and_mask_nonzero)


section \<open>The contract of an array of bits\<close>

locale bit_array =
  fixes cap :: "'b \<Rightarrow> nat"
    and test :: "'b \<Rightarrow> nat \<Rightarrow> bool res"
    and put :: "'b \<Rightarrow> nat \<Rightarrow> 'b res"
    and erase :: "'b \<Rightarrow> nat \<Rightarrow> 'b res"
  assumes test_total: "i < cap b \<Longrightarrow> succeeds (test b i)"
    and put_total: "i < cap b \<Longrightarrow> succeeds (put b i)"
    and erase_total: "i < cap b \<Longrightarrow> succeeds (erase b i)"
    and cap_put: "put b i = Inr b' \<Longrightarrow> i < cap b \<Longrightarrow> cap b' = cap b"
    and cap_erase: "erase b i = Inr b' \<Longrightarrow> i < cap b \<Longrightarrow> cap b' = cap b"
    and test_put: "put b i = Inr b' \<Longrightarrow> i < cap b \<Longrightarrow> j < cap b \<Longrightarrow>
      test b' j = (if j = i then Inr True else test b j)"
    and test_erase: "erase b i = Inr b' \<Longrightarrow> i < cap b \<Longrightarrow> j < cap b \<Longrightarrow>
      test b' j = (if j = i then Inr False else test b j)"
begin

definition members :: "'b \<Rightarrow> nat set" where
  "members b = {i. i < cap b \<and> test b i = Inr True}"

lemma members_bound: "members b \<subseteq> {..<cap b}"
  by (auto simp: members_def)

lemma finite_members: "finite (members b)"
  by (rule finite_subset [OF members_bound]) simp

lemma test_members: "i < cap b \<Longrightarrow> test b i = Inr (i \<in> members b)"
  using test_total [of i b] by (auto simp: members_def succeeds_iff)

lemma members_put: "put b i = Inr b' \<Longrightarrow> i < cap b \<Longrightarrow> members b' = insert i (members b)"
  by (auto simp: members_def cap_put test_put split: if_splits)

lemma members_erase: "erase b i = Inr b' \<Longrightarrow> i < cap b \<Longrightarrow> members b' = members b - {i}"
  by (auto simp: members_def cap_erase test_erase split: if_splits)

lemma put_all:
  assumes "\<forall>i\<in>set is. i < cap b"
  shows "\<exists>b'. rfold (\<lambda>i b. put b i) is b = Inr b' \<and> cap b' = cap b \<and>
    members b' = set is \<union> members b"
  using assms
proof (induction "is" arbitrary: b)
  case Nil
  then show ?case by simp
next
  case (Cons i "is")
  then obtain b1 where b1: "put b i = Inr b1"
    using put_total [of i b] by (auto simp: succeeds_iff)
  with Cons.prems have "cap b1 = cap b" "members b1 = insert i (members b)"
    by (simp_all add: cap_put members_put)
  with Cons.IH [of b1] Cons.prems b1 show ?case by auto
qed

end

lemmas bitset_writes = bitset_set_def bitset_clear_def bitset_set_to_def bitset_toggle_def

lemma byte_of_index_lt: "i < bitset_cap b \<Longrightarrow> i div 8 < length (bs_bits b)"
  by (auto simp: bitset_cap_def)

lemma same_bit_iff: "(j::nat) = i \<longleftrightarrow> j div 8 = i div 8 \<and> j mod 8 = i mod 8"
  by (metis div_mult_mod_eq)

text \<open>Replacing byte \<open>i div 8\<close> by one that differs from it in bit \<open>i mod 8\<close> only.\<close>

lemma test_assign:
  assumes "i < bitset_cap b" "j < bitset_cap b"
    and "\<And>n. n < 8 \<Longrightarrow> n \<noteq> i mod 8 \<Longrightarrow> bit v n = bit (bs_bits b ! (i div 8)) n"
  shows "bitset_test (b\<lparr>bs_bits := (bs_bits b)[i div 8 := v]\<rparr>) j
    = (if j = i then Inr (bit v (i mod 8)) else bitset_test b j)"
proof -
  have "j < bitset_cap (b\<lparr>bs_bits := (bs_bits b)[i div 8 := v]\<rparr>)"
    using assms(2) by (simp add: bitset_cap_def)
  then show ?thesis
    using assms same_bit_iff [of j i] byte_of_index_lt [OF assms(1)]
    by (cases "j div 8 = i div 8") (auto simp: test_in nth_list_update)
qed

lemma bitset_writes_in:
  assumes "i < bitset_cap b"
  shows "\<exists>v. bitset_set b i = Inr (b\<lparr>bs_bits := (bs_bits b)[i div 8 := v]\<rparr>) \<and>
      (\<forall>n<8. bit v n = (n = i mod 8 \<or> bit (bs_bits b ! (i div 8)) n))"
    and "\<exists>v. bitset_clear b i = Inr (b\<lparr>bs_bits := (bs_bits b)[i div 8 := v]\<rparr>) \<and>
      (\<forall>n<8. bit v n = (n \<noteq> i mod 8 \<and> bit (bs_bits b ! (i div 8)) n))"
    and "\<exists>v. bitset_toggle b i = Inr (b\<lparr>bs_bits := (bs_bits b)[i div 8 := v]\<rparr>) \<and>
      (\<forall>n<8. bit v n = ((n = i mod 8) \<noteq> bit (bs_bits b ! (i div 8)) n))"
    and "\<exists>v. bitset_set_to b i c = Inr (b\<lparr>bs_bits := (bs_bits b)[i div 8 := v]\<rparr>) \<and>
      (\<forall>n<8. bit v n = (if n = i mod 8 then c else bit (bs_bits b ! (i div 8)) n))"
  using assms by (auto simp: bitset_writes bitsAt_in bitsAt_assign_in bit_simps)

lemma bitset_cap_update [simp]:
  "bitset_cap (b\<lparr>bs_bits := (bs_bits b)[k := v]\<rparr>) = bitset_cap b"
  by (simp add: bitset_cap_def)

lemma bitset_wf_update [simp]:
  "bitset_wf (b\<lparr>bs_bits := (bs_bits b)[k := v]\<rparr>) = bitset_wf b"
  by (simp add: bitset_wf_def)

lemma bitset_wf_construct [simp]: "bitset_wf (bitset_construct n)"
  by (simp add: bitset_wf_def bitset_construct_def)

lemma bitset_set_frame:
  assumes "bitset_set b i = Inr b'" "i < bitset_cap b"
  shows "bitset_cap b' = bitset_cap b" "bs_size b' = bs_size b" "bitset_wf b' = bitset_wf b"
  using bitset_writes_in(1) [OF assms(2)] assms(1) by auto

lemma bitset_clear_frame:
  assumes "bitset_clear b i = Inr b'" "i < bitset_cap b"
  shows "bitset_cap b' = bitset_cap b" "bs_size b' = bs_size b" "bitset_wf b' = bitset_wf b"
  using bitset_writes_in(2) [OF assms(2)] assms(1) by auto

interpretation bits: bit_array bitset_cap bitset_test bitset_set bitset_clear
proof (unfold_locales, goal_cases)
  case (1 i b)
  then show ?case by (simp add: test_in)
next
  case (2 i b)
  then show ?case using bitset_writes_in(1) [of i b] by (auto simp: succeeds_iff)
next
  case (3 i b)
  then show ?case using bitset_writes_in(2) [of i b] by (auto simp: succeeds_iff)
next
  case (4 b i b')
  then show ?case by (simp add: bitset_set_frame)
next
  case (5 b i b')
  then show ?case by (simp add: bitset_clear_frame)
next
  case (6 b i b' j)
  then show ?case using bitset_writes_in(1) [of i b] by (auto simp: test_assign)
next
  case (7 b i b' j)
  then show ?case using bitset_writes_in(2) [of i b] by (auto simp: test_assign)
qed


section \<open>Counting the ones\<close>

text \<open>The number of ones in bytes \<open>i\<close> to \<open>j - 1\<close>.\<close>

definition ones_between :: "u8 list \<Rightarrow> nat \<Rightarrow> nat \<Rightarrow> nat" where
  "ones_between bs i j = (\<Sum>k = i..<j. ones (bs ! k))"

lemma ones_between_Suc: "i \<le> j \<Longrightarrow> ones_between bs i (Suc j) = ones_between bs i j + ones (bs ! j)"
  by (simp add: ones_between_def)

lemma ones_between_split:
  "i \<le> j \<Longrightarrow> j \<le> k \<Longrightarrow> ones_between bs i k = ones_between bs i j + ones_between bs j k"
  by (simp add: ones_between_def sum.atLeastLessThan_concat)

lemma ones_between_empty [simp]: "ones_between bs i i = 0"
  by (simp add: ones_between_def)

lemma ones_u16: "ones (push_bit 8 (ucast a) OR ucast b :: u16) = ones (a :: u8) + ones (b :: u8)"
  using ones_join [where 'c = 16, of a b] by simp

lemma ones_u32: "ones (push_bit 16 (ucast a) OR ucast b :: u32) = ones (a :: u16) + ones (b :: u16)"
  using ones_join [where 'c = 32, of a b] by simp

lemma ones_u64: "ones (push_bit 32 (ucast a) OR ucast b :: u64) = ones (a :: u32) + ones (b :: u32)"
  using ones_join [where 'c = 64, of a b] by simp

lemma ones_between_pair: "ones_between bs p (p + 2) = ones (bs ! (p + 1)) + ones (bs ! p)"
  by (simp add: ones_between_def numeral_eq_Suc)

lemma readLE16_ones:
  assumes "p + 2 \<le> length bs"
  obtains v where "readLE16 (map Some bs) p = Inr v" "ones v = ones_between bs p (p + 2)"
proof
  show "readLE16 (map Some bs) p = Inr (push_bit 8 (ucast (bs ! (p + 1))) OR ucast (bs ! p))"
    using assms by (simp add: readLE16_def)
  show "ones (push_bit 8 (ucast (bs ! (p + 1))) OR ucast (bs ! p) :: u16)
      = ones_between bs p (p + 2)"
    by (simp only: ones_u16 ones_between_pair)
qed

lemma readLE32_ones:
  assumes "p + 4 \<le> length bs"
  obtains v where "readLE32 (map Some bs) p = Inr v" "ones v = ones_between bs p (p + 4)"
proof -
  have "p + 2 \<le> length bs" "p + 2 + 2 \<le> length bs"
    using assms by simp_all
  then obtain hi lo where h: "readLE16 (map Some bs) (p + 2) = Inr hi"
      "ones hi = ones_between bs (p + 2) (p + 2 + 2)"
    and l: "readLE16 (map Some bs) p = Inr lo" "ones lo = ones_between bs p (p + 2)"
    by (metis readLE16_ones)
  have "ones_between bs p (p + 4) = ones lo + ones hi"
    unfolding h l using ones_between_split [of p "p + 2" "p + 4" bs] by (simp add: numeral_eq_Suc)
  then show thesis
    using that [of "push_bit 16 (ucast hi) OR ucast lo"]
    by (simp only: readLE32_def h(1) l(1) rbind.simps ones_u32 add.commute)
qed

lemma readLE64_ones:
  assumes "p + 8 \<le> length bs"
  obtains v where "readLE64 (map Some bs) p = Inr v" "ones v = ones_between bs p (p + 8)"
proof -
  have "p + 4 \<le> length bs" "p + 4 + 4 \<le> length bs"
    using assms by simp_all
  then obtain hi lo where h: "readLE32 (map Some bs) (p + 4) = Inr hi"
      "ones hi = ones_between bs (p + 4) (p + 4 + 4)"
    and l: "readLE32 (map Some bs) p = Inr lo" "ones lo = ones_between bs p (p + 4)"
    by (metis readLE32_ones)
  have "ones_between bs p (p + 8) = ones lo + ones hi"
    unfolding h l using ones_between_split [of p "p + 4" "p + 4 + 4" bs] by (simp add: add.commute)
  then show thesis
    using that [of "push_bit 32 (ucast hi) OR ucast lo"]
    by (simp only: readLE64_def h(1) l(1) rbind.simps ones_u64 add.commute)
qed

lemma popcnt_ucasts:
  "popcnt (ucast (a :: u32)) = ones a" "popcnt (ucast (b :: u16)) = ones b"
  "popcnt (ucast (c :: u8)) = ones c"
  by (simp_all add: popcnt_ones ones_ucast)

text \<open>The quad-word loop leaves the last \<open>n mod 8\<close> bytes, or runs over the end if they are seven.\<close>

lemma count_qwords_result:
  assumes "src \<le> length bs"
  shows "count_qwords (map Some bs) (length bs) src s =
    (let r = (length bs - src) mod 8; e = length bs - r in
     if r = 7 then Inl OutOfBounds else Inr (e, s + ones_between bs src e))"
  using assms
proof (induction "length bs - src" arbitrary: src s rule: less_induct)
  case less
  show ?case
  proof (cases "src + 8 \<le> length bs")
    case True
    then obtain v where v: "readLE64 (map Some bs) src = Inr v"
      "ones v = ones_between bs src (src + 8)"
      by (rule readLE64_ones)
    obtain d where d: "length bs = src + 8 + d"
      using True by (auto simp: le_iff_add)
    define e where "e = length bs - d mod 8"
    have "src + 8 \<le> e" using d by (simp add: e_def)
    then have "ones_between bs src e = ones v + ones_between bs (src + 8) e"
      unfolding v(2) by (intro ones_between_split) auto
    then show ?thesis
      using less.hyps [of "src + 8" "s + popcnt v"] True v d
      by (subst count_qwords.simps) (simp add: Let_def e_def popcnt_ones)
  next
    case False
    then show ?thesis
      using less.prems readers_out(5) [of "map Some bs" src]
      by (subst count_qwords.simps) (auto simp: Let_def)
  qed
qed

lemma bitset_count_result:
  assumes "bitset_wf b"
  shows "bitset_count b =
    (if even (bs_size b) then Inr (ones_between (bs_bits b) 0 (bs_size b)) else Inl OutOfBounds)"
proof -
  define bs where "bs = bs_bits b"
  define r where "r = length bs mod 8"
  define e where "e = length bs - r"
  have len: "length bs = e + r" "bs_size b = length bs"
    using assms by (simp_all add: e_def r_def bs_def bitset_wf_def)
  have q: "count_qwords (map Some bs) (length bs) 0 0 =
      (if r = 7 then Inl OutOfBounds else Inr (e, ones_between bs 0 e))"
    using count_qwords_result [of 0 bs 0] by (simp add: Let_def r_def e_def)
  have par: "even (length bs) = even r"
    by (simp add: r_def dvd_mod_iff)
  have step: "ones_between bs 0 (e + k) = ones_between bs 0 e + ones_between bs e (e + k)" for k
    by (rule ones_between_split) auto
  define c0 where "c0 = ones_between bs 0 e"
  have defs: "bitset_count b = (if r = 7 then Inl OutOfBounds else
     rbind (if e + 3 \<le> length bs
            then rbind (readLE32 (map Some bs) e) (\<lambda>v. Inr (e + 4, c0 + ones v))
            else Inr (e, c0)) (\<lambda>(src, s).
     rbind (if src + 1 \<le> length bs
            then rbind (readLE16 (map Some bs) src) (\<lambda>v. Inr (src + 2, s + ones v))
            else Inr (src, s)) (\<lambda>(src, s).
     if src < length bs then rbind (load (map Some bs) src) (\<lambda>v. Inr (s + ones v))
     else Inr s)))"
    unfolding bitset_count_def Let_def bs_def [symmetric] len(2) q c0_def [symmetric]
    by (cases "r = 7") (simp_all only: popcnt_ucasts rbind.simps prod.case if_True if_False simp_thms)
  have "r < 8" by (simp add: r_def)
  then consider "r = 0" | "r = 1" | "r = 2" | "r = 3" | "r = 4" | "r = 5" | "r = 6" | "r = 7"
    by linarith
  then show ?thesis
  proof cases
    case 1
    then show ?thesis using par by (simp add: defs len c0_def flip: bs_def)
  next
    case 2
    then show ?thesis using par by (simp add: defs len c0_def readers_out flip: bs_def)
  next
    case 3
    moreover obtain v where "readLE16 (map Some bs) e = Inr v" "ones v = ones_between bs e (e + 2)"
      using 3 len(1) readLE16_ones [of e bs] by auto
    ultimately show ?thesis using par step [of 2] by (simp add: defs len c0_def flip: bs_def)
  next
    case 4
    then show ?thesis using par by (simp add: defs len c0_def readers_out flip: bs_def)
  next
    case 5
    moreover obtain v where "readLE32 (map Some bs) e = Inr v" "ones v = ones_between bs e (e + 4)"
      using 5 len(1) readLE32_ones [of e bs] by auto
    ultimately show ?thesis using par step [of 4] by (simp add: defs len c0_def flip: bs_def)
  next
    case 6
    moreover obtain v where "readLE32 (map Some bs) e = Inr v"
      using 6 len(1) readLE32_ones [of e bs] by auto
    ultimately show ?thesis using par by (simp add: defs len c0_def readers_out flip: bs_def)
  next
    case 7
    moreover obtain v where "readLE32 (map Some bs) e = Inr v" "ones v = ones_between bs e (e + 4)"
      using 7 len(1) readLE32_ones [of e bs] by auto
    moreover obtain w where "readLE16 (map Some bs) (e + 4) = Inr w"
      "ones w = ones_between bs (e + 4) (e + 4 + 2)"
      using 7 len(1) readLE16_ones [of "e + 4" bs] by auto
    ultimately show ?thesis
      using par step [of 6] ones_between_split [of e "e + 4" "e + 6" bs]
      by (simp add: defs len c0_def add.commute [of e] flip: bs_def)
  next
    case 8
    then show ?thesis using par by (simp add: defs len c0_def flip: bs_def)
  qed
qed


text \<open>The bits of a byte array, as indices.\<close>

definition one_bits :: "u8 list \<Rightarrow> nat set" where
  "one_bits bs = {i. i < 8 * length bs \<and> bit (bs ! (i div 8)) (i mod 8)}"

lemma ones_between_card: "j \<le> length bs \<Longrightarrow>
  ones_between bs 0 j = card {i. i < 8 * j \<and> bit (bs ! (i div 8)) (i mod 8)}"
proof (induction j)
  case (Suc j)
  let ?P = "\<lambda>i. bit (bs ! (i div 8)) (i mod 8)"
  have split: "{i. i < 8 * Suc j \<and> ?P i} = {i. i < 8 * j \<and> ?P i} \<union> (\<lambda>n. 8 * j + n) ` {n. n < 8 \<and> bit (bs ! j) n}"
  proof (intro set_eqI iffI)
    fix i assume i: "i \<in> {i. i < 8 * Suc j \<and> ?P i}"
    show "i \<in> {i. i < 8 * j \<and> ?P i} \<union> (\<lambda>n. 8 * j + n) ` {n. n < 8 \<and> bit (bs ! j) n}"
    proof (cases "i < 8 * j")
      case False
      with i have "i div 8 = j"
        by (auto intro!: div_nat_eqI)
      then have "i = 8 * j + i mod 8" "i div 8 = j"
        by auto
      with i show ?thesis by (auto intro!: image_eqI [of _ _ "i mod 8"])
    qed (use i in auto)
  qed auto
  have "card ((\<lambda>n. 8 * j + n) ` {n. n < 8 \<and> bit (bs ! j) n}) = ones (bs ! j)"
    by (simp add: card_image ones_byte)
  moreover have "{i. i < 8 * j \<and> ?P i} \<inter> (\<lambda>n. 8 * j + n) ` {n. n < 8 \<and> bit (bs ! j) n} = {}"
    by auto
  ultimately show ?case
    using Suc unfolding split by (simp add: ones_between_Suc card_Un_disjoint)
qed simp

lemma bitset_count_card:
  assumes "bitset_wf b"
  shows "bitset_count b =
    (if even (bs_size b) then Inr (card (one_bits (bs_bits b))) else Inl OutOfBounds)"
  using bitset_count_result [OF assms] ones_between_card [of "bs_size b" "bs_bits b"] assms
  by (simp add: bitset_wf_def one_bits_def)

lemma one_bits_members:
  assumes "8 * length (bs_bits b) \<le> 2 ^ 31"
  shows "one_bits (bs_bits b) = bits.members b"
proof -
  have "bitset_cap b = 8 * length (bs_bits b)"
    using assms by (simp add: bitset_cap_def)
  then show ?thesis
    by (auto simp: bits.members_def one_bits_def test_in)
qed

lemma bitset_cap_construct: "8 * n \<le> 2 ^ 31 \<Longrightarrow> bitset_cap (bitset_construct n) = 8 * n"
  by (simp add: bitset_cap_def bitset_construct_def)

lemma members_construct [simp]: "bits.members (bitset_construct n) = {}"
proof -
  have "\<not> bitset_test (bitset_construct n) i = Inr True" if "i < bitset_cap (bitset_construct n)" for i
    using that byte_of_index_lt [OF that] by (simp add: test_in bitset_construct_def)
  then show ?thesis by (auto simp: bits.members_def)
qed

section \<open>Properties\<close>

text \<open>
  Property C30. \<open>popcnt\<close> returns the number of one bits of its argument, for every 64-bit value:
  the masks, the shifts and the final multiplication never lose or double a bit.
\<close>

theorem popcnt_is_hamming_weight: "popcnt v = card {i. i < 64 \<and> bit v i}"
proof -
  have "{i. bit v i} = {i. i < 64 \<and> bit v i}"
    by (auto dest: bit_imp_le_length)
  then show ?thesis by (simp add: popcnt_ones ones_def)
qed

text \<open>
  Property C31. On a bit set built by \<open>construct\<close> and changed by the setters, \<open>count\<close> returns
  the number of one bits in its bytes exactly when the number of bytes is even; when it is odd the last
  2-, 4- or 8-byte load reaches one byte past the array.
\<close>

theorem count_exact_or_overread:
  assumes "length (bs_bits b) = bs_size b"
  shows "bitset_count b =
    (if even (bs_size b)
     then Inr (card {i. i < 8 * bs_size b \<and> bit (bs_bits b ! (i div 8)) (i mod 8)})
     else Inl OutOfBounds)"
  using bitset_count_card [of b] assms by (simp add: bitset_wf_def one_bits_def)

theorem count_exact_or_overread_witness:
  "bitset_count \<lparr>bs_bits = [5, 255], bs_size = 2\<rparr>
     = Inr (card {i. i < 8 * 2 \<and> bit (([5, 255] :: u8 list) ! (i div 8)) (i mod 8)})
   \<and> bitset_count \<lparr>bs_bits = [5, 255, 1], bs_size = 3\<rparr> = Inl OutOfBounds"
  using count_exact_or_overread [of "\<lparr>bs_bits = [5, 255], bs_size = 2\<rparr>"]
    count_exact_or_overread [of "\<lparr>bs_bits = [5, 255, 1], bs_size = 3\<rparr>"] by simp

text \<open>
  Within the array (and the 31 bits of an \<open>int\<close> index) the setters change exactly the
  addressed bit: after \<open>set(i)\<close>, \<open>clear(i)\<close>, \<open>toggle(i)\<close> or \<open>set(i, v)\<close>, \<open>test(i)\<close> is true, false,
  flipped or \<open>v\<close>, and every other bit tests as before.
\<close>

theorem setters_change_one_bit:
  assumes "i < 8 * length (bs_bits b)" "j < 8 * length (bs_bits b)" "i < 2 ^ 31" "j < 2 ^ 31"
  shows "(\<exists>b1 b2 b3 b4. bitset_set b i = Inr b1 \<and> bitset_clear b i = Inr b2 \<and>
      bitset_toggle b i = Inr b3 \<and> bitset_set_to b i v = Inr b4 \<and>
      bitset_test b1 j = (if j = i then Inr True else bitset_test b j) \<and>
      bitset_test b2 j = (if j = i then Inr False else bitset_test b j) \<and>
      bitset_test b3 j = rbind (bitset_test b j) (\<lambda>t. Inr (if j = i then \<not> t else t)) \<and>
      bitset_test b4 j = (if j = i then Inr v else bitset_test b j))"
proof -
  have i: "i < bitset_cap b" and j: "j < bitset_cap b"
    using assms by (simp_all add: bitset_cap_def)
  note t = test_assign [OF i j]
  show ?thesis
    using bitset_writes_in(1-3) [OF i] bitset_writes_in(4) [OF i, of v] i j
    by (auto simp: t) (auto simp: test_in byte_of_index_lt [OF i])
qed

theorem setters_change_one_bit_witness:
  "\<exists>b1 b2 b3 b4. bitset_set (bitset_construct 2) 9 = Inr b1 \<and>
      bitset_clear (bitset_construct 2) 9 = Inr b2 \<and> bitset_toggle (bitset_construct 2) 9 = Inr b3 \<and>
      bitset_set_to (bitset_construct 2) 9 True = Inr b4 \<and> bitset_test b1 9 = Inr True"
  using setters_change_one_bit [of 9 "bitset_construct 2" 9 True]
  by (auto simp: bitset_construct_def)

end
