(* ===== verification/Data_Buffer.thy ===== *)
theory Data_Buffer
  imports Prelude
begin

text \<open>
  src/util/databuffer.h: the growable array \<open>DataBuffer<T>\<close>. \<open>db_buffer\<close> is the allocation (cells
  never written are \<open>None\<close>), \<open>db_capacity\<close> and \<open>db_size\<close> are the fields of the class; nothing ties
  them together but the operations, so the invariant \<open>db_wf\<close> says when they agree. Capacities are
  not wrapped at 64 bits: \<open>new T[n]\<close> throws long before a capacity reaches \<open>2 ^ 63\<close>.
\<close>

section \<open>State and operations\<close>

record 'a data_buffer =
  db_size :: nat
  db_capacity :: nat
  db_buffer :: "'a option list"

definition db_new :: "nat \<Rightarrow> 'a data_buffer" where
  "db_new res = \<lparr>db_size = 0, db_capacity = res, db_buffer = replicate res None\<rparr>"

text \<open>The move constructor: the new object, and what is left of the argument.\<close>

definition db_move :: "'a data_buffer \<Rightarrow> 'a data_buffer \<times> 'a data_buffer" where
  "db_move buf = (buf, buf\<lparr>db_buffer := []\<rparr>)"

text \<open>Move assignment swaps the two objects.\<close>

definition db_swap :: "'a data_buffer \<Rightarrow> 'a data_buffer \<Rightarrow> 'a data_buffer \<times> 'a data_buffer" where
  "db_swap this rhs = (rhs, this)"

definition db_rem :: "'a data_buffer \<Rightarrow> nat" where
  "db_rem b = sub64 (db_capacity b) (db_size b)"

text \<open>\<open>&buf[i]\<close>: the offset, once the assertion of \<open>operator[]\<close> holds.\<close>

definition db_addr :: "'a data_buffer \<Rightarrow> nat \<Rightarrow> nat res" where
  "db_addr b i = (if i < db_capacity b then Inr i else Inl AssertionFailure)"

text \<open>\<open>buf[i]\<close> as a value and as the target of an assignment.\<close>

definition db_at :: "'a data_buffer \<Rightarrow> nat \<Rightarrow> 'a res" where
  "db_at b i = rbind (db_addr b i) (load (db_buffer b))"

definition db_assign :: "'a data_buffer \<Rightarrow> nat \<Rightarrow> 'a \<Rightarrow> 'a data_buffer res" where
  "db_assign b i v =
     rbind (db_addr b i) (\<lambda>i. rbind (store (db_buffer b) i v) (\<lambda>m. Inr (b\<lparr>db_buffer := m\<rparr>)))"

definition db_setData :: "'a data_buffer \<Rightarrow> 'a option list \<Rightarrow> nat \<Rightarrow> 'a data_buffer res" where
  "db_setData b data n =
     (if n \<le> length data
      then Inr (b\<lparr>db_buffer := take n data, db_capacity := n, db_size := 0\<rparr>)
      else Inl OutOfBounds)"

definition db_setSize :: "'a data_buffer \<Rightarrow> nat \<Rightarrow> 'a data_buffer" where
  "db_setSize b s = b\<lparr>db_size := s\<rparr>"

definition db_clear :: "u8 data_buffer \<Rightarrow> u8 data_buffer res" where
  "db_clear b =
     rbind (blit (db_buffer b) 0 (replicate (db_capacity b) (Some 0))) (\<lambda>m.
       Inr (b\<lparr>db_buffer := m, db_size := 0\<rparr>))"

text \<open>\<open>reserve\<close> copies the first \<open>m_size\<close> cells, one at a time, into a fresh allocation.\<close>

definition db_reserve :: "'a data_buffer \<Rightarrow> nat \<Rightarrow> 'a data_buffer res" where
  "db_reserve b n =
     (if n > db_capacity b
      then if db_size b \<le> length (db_buffer b) \<and> db_size b \<le> n
        then Inr (b\<lparr>db_buffer := take (db_size b) (db_buffer b) @ replicate (n - db_size b) None,
                    db_capacity := n\<rparr>)
        else Inl OutOfBounds
      else Inr b)"

text \<open>\<open>do newcapacity *= 2; while (newcapacity < n);\<close>\<close>

partial_function (option) double_until :: "nat \<Rightarrow> nat \<Rightarrow> nat option" where
  "double_until newcapacity n =
     (if 2 * newcapacity < n then double_until (2 * newcapacity) n else Some (2 * newcapacity))"

definition db_grow :: "'a data_buffer \<Rightarrow> nat \<Rightarrow> 'a data_buffer res" where
  "db_grow b n =
     (if n \<le> db_size b then Inr b
      else rbind
        (if n > db_capacity b
         then (case double_until (db_capacity b) n of
             None \<Rightarrow> Inl Diverges
           | Some newcapacity \<Rightarrow> db_reserve b newcapacity)
         else Inr b)
        (\<lambda>b. Inr (b\<lparr>db_size := n\<rparr>)))"

text \<open>\<open>m_buffer[i] = v\<close> inside the class indexes the raw pointer: no assertion.\<close>

definition db_raw_assign :: "'a data_buffer \<Rightarrow> nat \<Rightarrow> 'a \<Rightarrow> 'a data_buffer res" where
  "db_raw_assign b i v = rbind (store (db_buffer b) i v) (\<lambda>m. Inr (b\<lparr>db_buffer := m\<rparr>))"

definition db_add :: "'a data_buffer \<Rightarrow> 'a \<Rightarrow> 'a data_buffer res" where
  "db_add b v =
     rbind (db_grow b (db_size b + 1)) (\<lambda>b. db_raw_assign b (db_size b - 1) v)"

definition db_add_unchecked :: "'a data_buffer \<Rightarrow> 'a \<Rightarrow> 'a data_buffer res" where
  "db_add_unchecked b v =
     rbind (db_raw_assign b (db_size b) v) (\<lambda>b. Inr (b\<lparr>db_size := db_size b + 1\<rparr>))"

section \<open>Well-formedness and contents\<close>

definition db_wf :: "'a data_buffer \<Rightarrow> bool" where
  "db_wf b \<longleftrightarrow> length (db_buffer b) = db_capacity b \<and> db_size b \<le> db_capacity b"

text \<open>The cells in use.\<close>

definition db_cells :: "'a data_buffer \<Rightarrow> 'a option list" where
  "db_cells b = take (db_size b) (db_buffer b)"

text \<open>The buffer holds exactly the initialised elements \<open>xs\<close>.\<close>

definition db_holds :: "'a data_buffer \<Rightarrow> 'a list \<Rightarrow> bool" where
  "db_holds b xs \<longleftrightarrow> db_wf b \<and> 0 < db_capacity b \<and> db_cells b = map Some xs"

lemma db_wf_new [simp]: "db_wf (db_new n)"
  by (simp add: db_wf_def db_new_def)

lemma db_holds_new [simp]: "0 < n \<Longrightarrow> db_holds (db_new n) []"
  by (simp add: db_holds_def db_cells_def db_wf_def db_new_def)

lemma db_holds_size: "db_holds b xs \<Longrightarrow> db_size b = length xs"
  by (auto simp: db_holds_def db_wf_def db_cells_def dest: arg_cong [where f = length])

section \<open>The doubling loop\<close>

lemma double_until_zero: "0 < n \<Longrightarrow> double_until 0 n = None"
proof -
  have "c = 0 \<longrightarrow> 0 < n \<longrightarrow> False" if "double_until c n = Some r" for c n r
  proof (rule double_until.raw_induct [where P = "\<lambda>c n r. c = 0 \<longrightarrow> 0 < n \<longrightarrow> False", OF _ that])
    fix f :: "nat \<Rightarrow> nat \<Rightarrow> nat option" and c n r
    assume IH: "\<And>c n r. f c n = Some r \<Longrightarrow> c = 0 \<longrightarrow> 0 < n \<longrightarrow> False"
      and "(if 2 * c < n then f (2 * c) n else Some (2 * c)) = Some r"
    then show "c = 0 \<longrightarrow> 0 < n \<longrightarrow> False"
      by (auto split: if_splits)
  qed
  then show "0 < n \<Longrightarrow> double_until 0 n = None"
    by fastforce
qed

lemma double_until_pos:
  assumes "0 < c"
  shows "\<exists>k. double_until c n = Some (2 ^ Suc k * c) \<and> n \<le> 2 ^ Suc k * c \<and>
    (k = 0 \<or> 2 ^ k * c < n)"
  using assms
proof (induction "n - 2 * c" arbitrary: c rule: less_induct)
  case less
  show ?case
  proof (cases "2 * c < n")
    case True
    with less obtain k where "double_until (2 * c) n = Some (2 ^ Suc k * (2 * c))"
      "n \<le> 2 ^ Suc k * (2 * c)" "k = 0 \<or> 2 ^ k * (2 * c) < n"
      by (metis (no_types, lifting) diff_less_mono2 mult_2 less_add_same_cancel1 nat_0_less_mult_iff zero_less_numeral)
    with True show ?thesis
      by (intro exI [of _ "Suc k"]) (auto simp: double_until.simps [of c] ac_simps)
  next
    case False
    then show ?thesis
      by (intro exI [of _ 0]) (simp add: double_until.simps [of c])
  qed
qed

lemma double_until_bounds:
  assumes "0 < c" "c < n"
  obtains c' where "double_until c n = Some c'" "n \<le> c'" "c' < 2 * n" "c < c'"
proof -
  obtain k where k: "double_until c n = Some (2 ^ Suc k * c)" "n \<le> 2 ^ Suc k * c"
    "k = 0 \<or> 2 ^ k * c < n"
    using double_until_pos [OF assms(1)] by blast
  then have "2 ^ k * c < n" using assms(2) by auto
  then have "2 ^ Suc k * c < 2 * n" by simp
  moreover have "c < 2 ^ Suc k * c" using k(2) assms(2) by linarith
  ultimately show ?thesis using that k(1,2) by blast
qed

section \<open>Growth\<close>

lemma db_grow_result:
  assumes "db_wf b" "0 < db_capacity b"
  obtains b' where "db_grow b n = Inr b'" "db_wf b'" "db_size b' = max n (db_size b)"
    "db_capacity b \<le> db_capacity b'" "db_capacity b' \<le> max (db_capacity b) (2 * n)"
    "\<And>k. k < db_size b \<Longrightarrow> db_buffer b' ! k = db_buffer b ! k"
proof (cases "n \<le> db_capacity b")
  case True
  then show thesis
    using that [of "if n \<le> db_size b then b else b\<lparr>db_size := n\<rparr>"] assms
    by (auto simp: db_grow_def db_wf_def max_def)
next
  case False
  then obtain c where c: "double_until (db_capacity b) n = Some c" "n \<le> c" "c < 2 * n"
    "db_capacity b < c"
    using double_until_bounds [OF assms(2), of n] by auto
  show thesis
    using that [of "b\<lparr>db_buffer := take (db_size b) (db_buffer b) @ replicate (c - db_size b) None,
        db_capacity := c, db_size := n\<rparr>"] assms c False
    by (auto simp: db_grow_def db_reserve_def db_wf_def nth_append)
qed

lemma db_add_holds:
  assumes "db_holds b xs"
  shows "\<exists>b'. db_add b v = Inr b' \<and> db_holds b' (xs @ [v])"
proof -
  from assms have wf: "db_wf b" "0 < db_capacity b" and cells: "db_cells b = map Some xs"
    by (auto simp: db_holds_def)
  have size: "db_size b = length xs"
    using assms by (rule db_holds_size)
  obtain b1 where b1: "db_grow b (db_size b + 1) = Inr b1" "db_wf b1"
    "db_size b1 = db_size b + 1" "db_capacity b \<le> db_capacity b1"
    "\<And>k. k < db_size b \<Longrightarrow> db_buffer b1 ! k = db_buffer b ! k"
    using db_grow_result [OF wf, of "db_size b + 1"] by (metis max.absorb1 le_add1)
  have "db_buffer b ! k = Some (xs ! k)" if "k < length xs" for k
    using cells size that by (metis db_cells_def nth_map nth_take)
  then have "take (length xs) (db_buffer b1) = map Some xs"
    using b1 size by (intro nth_equalityI) (auto simp: db_wf_def)
  then show ?thesis
    using b1 wf size
    by (auto simp: db_add_def db_raw_assign_def db_holds_def db_wf_def db_cells_def take_Suc_conv_app_nth)
qed


section \<open>The contract of an append-only buffer\<close>

text \<open>What the encoder needs of its output buffer: appending one element never fails and shows up
  at the end of the contents.\<close>

locale append_buffer =
  fixes holds :: "'b \<Rightarrow> 'a list \<Rightarrow> bool"
    and append1 :: "'a \<Rightarrow> 'b \<Rightarrow> 'b res"
  assumes append1: "holds b xs \<Longrightarrow> \<exists>b'. append1 x b = Inr b' \<and> holds b' (xs @ [x])"
begin

lemma append_all:
  "holds b xs \<Longrightarrow> \<exists>b'. rfold append1 ys b = Inr b' \<and> holds b' (xs @ ys)"
proof (induction ys arbitrary: b xs)
  case Nil
  then show ?case by simp
next
  case (Cons y ys)
  obtain b1 where "append1 y b = Inr b1" "holds b1 (xs @ [y])"
    using append1 [OF Cons.prems] by blast
  with Cons.IH [of b1 "xs @ [y]"] show ?case by auto
qed

end

interpretation db: append_buffer db_holds "\<lambda>v b. db_add b v"
  by unfold_locales (rule db_add_holds)

lemma db_holds_nth:
  assumes "db_holds b xs" "k < length xs"
  shows "db_buffer b ! k = Some (xs ! k)"
  using assms db_holds_size [OF assms(1)] by (metis db_cells_def db_holds_def nth_map nth_take)

lemma db_holds_at: "db_holds b xs \<Longrightarrow> k < length xs \<Longrightarrow> db_at b k = Inr (xs ! k)"
  using db_holds_size [of b xs] db_holds_nth [of b xs k]
  by (auto simp: db_at_def db_addr_def db_holds_def db_wf_def load_def)

section \<open>Properties\<close>

text \<open>
  Property C39. \<open>grow(n)\<close> always returns except in one case: asked for more than the current size
  and capacity on a buffer of capacity zero, its doubling loop runs for ever. Otherwise the new capacity is
  at least \<open>n\<close>, less than \<open>2 n\<close> when it had to be increased, and the cells in use keep their contents.
\<close>

theorem grow_returns_unless_empty:
  assumes "db_wf b"
  shows "(db_grow b n = Inl Diverges \<longleftrightarrow> db_capacity b = 0 \<and> 0 < n) \<and>
    (0 < db_capacity b \<longrightarrow>
      (\<exists>b'. db_grow b n = Inr b' \<and> db_wf b' \<and> db_size b' = max n (db_size b) \<and>
         n \<le> db_capacity b' \<and> db_capacity b' \<le> max (db_capacity b) (2 * n) \<and>
         (\<forall>k < db_size b. db_buffer b' ! k = db_buffer b ! k)))"
proof (cases "db_capacity b = 0")
  case True
  then show ?thesis
    using assms by (auto simp: db_grow_def db_wf_def double_until_zero)
next
  case False
  with assms show ?thesis
    by (elim db_grow_result [of b n]) (auto simp: db_wf_def max_def split: if_splits)
qed

theorem grow_returns_unless_empty_witness:
  "db_grow (db_new 0 :: u8 data_buffer) 1 = Inl Diverges \<and>
   (\<exists>b'. db_grow (db_new 3 :: u8 data_buffer) 10 = Inr b' \<and> db_size b' = 10 \<and> db_capacity b' \<le> 20)"
  using grow_returns_unless_empty [of "db_new 0 :: u8 data_buffer" 1]
    grow_returns_unless_empty [of "db_new 3 :: u8 data_buffer" 10]
  by (auto simp: db_new_def db_wf_def)

end
