(* ===== verification/Messages.thy ===== *)
theory Messages
  imports Serializer Data_Buffer
begin

text \<open>
  src/net/inputmessage.{h,cpp} and src/net/outputmessage.{h,cpp}: parsing and building wire
  messages. The pointer \<open>m_data\<close> of an input message is the block of memory it points at (empty for
  \<open>nullptr\<close>); \<open>m_size\<close> is what the caller said its length is, and only \<open>getBuffer\<close> and
  \<open>getString\<close> look at it. \<open>m_pos\<close> is a \<open>uint32_t\<close>.
\<close>

datatype byte_order = LittleEndian | BigEndian

text \<open>The values of a run of initialised cells.\<close>

fun values_of :: "'a option list \<Rightarrow> 'a list res" where
  "values_of [] = Inr []"
| "values_of (None # cs) = Inl Uninitialised"
| "values_of (Some v # cs) = rbind (values_of cs) (\<lambda>vs. Inr (v # vs))"

definition slice :: "'a option list \<Rightarrow> nat \<Rightarrow> nat \<Rightarrow> 'a option list res" where
  "slice m p n = (if p + n \<le> length m then Inr (take n (drop p m)) else Inl OutOfBounds)"

lemma values_of_map_Some [simp]: "values_of (map Some xs) = Inr xs"
  by (induction xs) auto

section \<open>Input messages\<close>

record input_message =
  im_data :: mem
  im_size :: nat
  im_pos :: u32
  im_order :: byte_order

definition InputMessage :: "mem \<Rightarrow> nat \<Rightarrow> byte_order \<Rightarrow> input_message" where
  "InputMessage data n order = \<lparr>im_data = data, im_size = n, im_pos = 0, im_order = order\<rparr>"

definition im_advance :: "input_message \<Rightarrow> nat \<Rightarrow> input_message" where
  "im_advance m n = m\<lparr>im_pos := im_pos m + of_nat n\<rparr>"

text \<open>\<open>getBuffer(size)\<close>: \<open>None\<close> is the null pointer, otherwise a fresh copy of the cells.\<close>

definition getBuffer_copy :: "input_message \<Rightarrow> nat \<Rightarrow> mem option res" where
  "getBuffer_copy m n =
     (if add64 (unat (im_pos m)) n > im_size m then Inr None
      else rbind (slice (im_data m) (unat (im_pos m)) n) (\<lambda>cs. Inr (Some cs)))"

text \<open>\<open>getBuffer(void)\<close>: the memory from the current position on.\<close>

definition getBuffer :: "input_message \<Rightarrow> mem" where
  "getBuffer m = drop (unat (im_pos m)) (im_data m)"

definition getByte :: "input_message \<Rightarrow> (u8 \<times> input_message) res" where
  "getByte m = rbind (load (im_data m) (unat (im_pos m))) (\<lambda>b. Inr (b, im_advance m 1))"

definition getU16 :: "input_message \<Rightarrow> (u16 \<times> input_message) res" where
  "getU16 m =
     rbind (if im_order m = BigEndian then readBE16 (im_data m) (unat (im_pos m))
            else readLE16 (im_data m) (unat (im_pos m)))
       (\<lambda>tmp. Inr (tmp, im_advance m 2))"

definition getU32 :: "input_message \<Rightarrow> (u32 \<times> input_message) res" where
  "getU32 m =
     rbind (if im_order m = BigEndian then readBE32 (im_data m) (unat (im_pos m))
            else readLE32 (im_data m) (unat (im_pos m)))
       (\<lambda>tmp. Inr (tmp, im_advance m 4))"

definition getU64 :: "input_message \<Rightarrow> (u64 \<times> input_message) res" where
  "getU64 m =
     rbind (if im_order m = BigEndian then readBE64 (im_data m) (unat (im_pos m))
            else readLE64 (im_data m) (unat (im_pos m)))
       (\<lambda>tmp. Inr (tmp, im_advance m 8))"

text \<open>The bound check of \<open>getString\<close> adds a \<open>uint32_t\<close> and a \<open>uint16_t\<close>: 32-bit arithmetic.\<close>

definition getString :: "input_message \<Rightarrow> (string \<times> input_message) res" where
  "getString m =
     rbind (getU16 m) (\<lambda>(len, m).
       if len = 0 then Inr ([], m)
       else if unat (im_pos m + ucast len) > im_size m then Inr ([], m)
       else rbind (slice (im_data m) (unat (im_pos m)) (unat len)) (\<lambda>cs.
         rbind (values_of cs) (\<lambda>bs.
           Inr (map char_of_byte bs, im_advance m (unat len)))))"

section \<open>Output messages\<close>

record output_message =
  om_buffer :: "u8 data_buffer"
  om_pos :: nat
  om_order :: byte_order

definition OutputMessage :: "byte_order \<Rightarrow> nat \<Rightarrow> output_message" where
  "OutputMessage order fixedSize =
     \<lparr>om_buffer = db_new (if fixedSize \<noteq> 0 then fixedSize else 64), om_pos = 0, om_order = order\<rparr>"

definition OutputMessage_of_buffer :: "u8 data_buffer \<Rightarrow> output_message" where
  "OutputMessage_of_buffer b =
     (let (new, old) = db_move b in
      \<lparr>om_buffer = new, om_pos = db_size old, om_order = BigEndian\<rparr>)"

definition om_clear :: "output_message \<Rightarrow> output_message res" where
  "om_clear m = rbind (db_clear (om_buffer m)) (\<lambda>b. Inr (m\<lparr>om_buffer := b, om_pos := 0\<rparr>))"

text \<open>
  The shape all \<open>add\<close> functions share: grow the buffer by \<open>extra\<close>, take the address of position
  \<open>m_pos\<close> (an assertion), let \<open>put\<close> write there, and advance by \<open>step\<close>.
\<close>

definition om_put ::
  "output_message \<Rightarrow> nat \<Rightarrow> (mem \<Rightarrow> nat \<Rightarrow> mem res) \<Rightarrow> nat \<Rightarrow> output_message res" where
  "om_put m extra put step =
     rbind (db_grow (om_buffer m) (db_size (om_buffer m) + extra)) (\<lambda>b.
     rbind (db_addr b (om_pos m)) (\<lambda>p.
     rbind (put (db_buffer b) p) (\<lambda>cells.
       Inr (m\<lparr>om_buffer := b\<lparr>db_buffer := cells\<rparr>, om_pos := om_pos m + step\<rparr>))))"

definition addBytes :: "output_message \<Rightarrow> mem \<Rightarrow> nat \<Rightarrow> output_message res" where
  "addBytes m bytes n =
     om_put m n (\<lambda>a p. rbind (slice bytes 0 n) (\<lambda>cs. blit a p cs)) n"

definition addByte :: "output_message \<Rightarrow> u8 \<Rightarrow> output_message res" where
  "addByte m byte = om_put m 1 (\<lambda>a p. store a p byte) 1"

definition addU16 :: "output_message \<Rightarrow> u16 \<Rightarrow> output_message res" where
  "addU16 m val =
     om_put m 1 (\<lambda>a p. if om_order m = BigEndian then writeBE16 a p val else writeLE16 a p val) 2"

definition addU32 :: "output_message \<Rightarrow> u32 \<Rightarrow> output_message res" where
  "addU32 m val =
     om_put m 4 (\<lambda>a p. if om_order m = BigEndian then writeBE32 a p val else writeLE32 a p val) 4"

definition addU64 :: "output_message \<Rightarrow> u64 \<Rightarrow> output_message res" where
  "addU64 m val =
     om_put m 8 (\<lambda>a p. if om_order m = BigEndian then writeBE64 a p val else writeLE64 a p val) 8"

definition addString :: "output_message \<Rightarrow> string \<Rightarrow> output_message res" where
  "addString m str =
     (let len = of_nat (length str) :: u16 in
      rbind (addU16 m len) (\<lambda>m.
        om_put m (unat len)
          (\<lambda>a p. blit a p (map (Some \<circ> byte_of_char) (take (unat len) str))) (unat len)))"

text \<open>What \<open>Connection::write(const OutputMessage &)\<close> hands to the socket: \<open>o.data(0), o.size()\<close>.\<close>

definition om_data :: "output_message \<Rightarrow> nat \<Rightarrow> mem res" where
  "om_data m p = rbind (db_addr (om_buffer m) p) (\<lambda>p. Inr (drop p (db_buffer (om_buffer m))))"

definition om_written :: "output_message \<Rightarrow> mem res" where
  "om_written m = rbind (om_data m 0) (\<lambda>d. slice d 0 (om_pos m))"

section \<open>The overloaded stream operators\<close>

datatype wire_field = Byte u8 | U16 u16 | U32 u32 | U64 u64 | Str string

fun om_shift :: "output_message \<Rightarrow> wire_field \<Rightarrow> output_message res" where
  "om_shift m (Byte b) = addByte m b"
| "om_shift m (U16 u) = addU16 m u"
| "om_shift m (U32 u) = addU32 m u"
| "om_shift m (U64 u) = addU64 m u"
| "om_shift m (Str s) = addString m s"

text \<open>\<open>in >> x\<close> reads a value of the type of \<open>x\<close>; the old value is only a witness of that type.\<close>

fun im_shift :: "input_message \<Rightarrow> wire_field \<Rightarrow> (wire_field \<times> input_message) res" where
  "im_shift m (Byte _) = rbind (getByte m) (\<lambda>(b, m). Inr (Byte b, m))"
| "im_shift m (U16 _) = rbind (getU16 m) (\<lambda>(u, m). Inr (U16 u, m))"
| "im_shift m (U32 _) = rbind (getU32 m) (\<lambda>(u, m). Inr (U32 u, m))"
| "im_shift m (U64 _) = rbind (getU64 m) (\<lambda>(u, m). Inr (U64 u, m))"
| "im_shift m (Str _) = rbind (getString m) (\<lambda>(s, m). Inr (Str s, m))"

fun im_shifts :: "input_message \<Rightarrow> wire_field list \<Rightarrow> (wire_field list \<times> input_message) res" where
  "im_shifts m [] = Inr ([], m)"
| "im_shifts m (f # fs) =
     rbind (im_shift m f) (\<lambda>(g, m). rbind (im_shifts m fs) (\<lambda>(gs, m). Inr (g # gs, m)))"


section \<open>Building: the invariant and what each operation appends\<close>

definition om_holds :: "output_message \<Rightarrow> mem \<Rightarrow> bool" where
  "om_holds m cs \<longleftrightarrow> db_wf (om_buffer m) \<and> 0 < db_capacity (om_buffer m) \<and>
     db_size (om_buffer m) = length cs \<and> om_pos m = length cs \<and> db_cells (om_buffer m) = cs"

text \<open>A write that replaces the \<open>length cs\<close> cells at its position by \<open>cs\<close>.\<close>

definition puts :: "(mem \<Rightarrow> nat \<Rightarrow> mem res) \<Rightarrow> mem \<Rightarrow> bool" where
  "puts put cs \<longleftrightarrow> (\<forall>a p. put a p = blit a p cs)"

lemma om_holds_new: "om_holds (OutputMessage order n) []"
  by (simp add: om_holds_def OutputMessage_def db_new_def db_wf_def db_cells_def)

lemma om_put_holds:
  assumes "om_holds m cs" "puts put ds" "ds \<noteq> []"
  shows "\<exists>m'. om_put m (length ds) put (length ds) = Inr m' \<and> om_holds m' (cs @ ds) \<and>
    om_order m' = om_order m"
proof -
  let ?b = "om_buffer m"
  from assms(1) have wf: "db_wf ?b" "0 < db_capacity ?b" and m: "db_size ?b = length cs"
    "om_pos m = length cs" "db_cells ?b = cs"
    by (auto simp: om_holds_def)
  obtain b where b: "db_grow ?b (db_size ?b + length ds) = Inr b" "db_wf b"
    "db_size b = length cs + length ds" "db_capacity ?b \<le> db_capacity b"
    "\<And>k. k < length cs \<Longrightarrow> db_buffer b ! k = db_buffer ?b ! k"
    using db_grow_result [OF wf, of "length cs + length ds"] m(1)
    by (metis max.absorb1 le_add1)
  have "cs ! k = db_buffer ?b ! k" if "k < length cs" for k
    using m(1,3) that by (metis db_cells_def nth_take)
  then have pre: "take (length cs) (db_buffer b) = cs"
    using b by (intro nth_equalityI) (auto simp: db_wf_def)
  have fits: "length cs + length ds \<le> length (db_buffer b)"
    using b by (simp add: db_wf_def)
  then have "length cs < db_capacity b"
    using assms(3) b(2) by (cases ds) (auto simp: db_wf_def)
  then show ?thesis
    using b m wf assms(2) fits pre
    by (auto simp: om_put_def puts_def db_addr_def om_holds_def db_wf_def db_cells_def)
qed

lemma puts_blit [simp]: "puts (\<lambda>a p. blit a p cs) cs"
  by (simp add: puts_def)

lemma puts_store [simp]: "puts (\<lambda>a p. store a p v) [Some v]"
  by (auto simp: puts_def store_def blit_def upd_conv_take_nth_drop)

lemmas codec_puts = LE16.put_blit BE16.put_blit LE32.put_blit BE32.put_blit LE64.put_blit BE64.put_blit

text \<open>The bytes a value contributes to a message in a given order.\<close>

fun wire_bytes :: "byte_order \<Rightarrow> wire_field \<Rightarrow> u8 list" where
  "wire_bytes order (Byte b) = [b]"
| "wire_bytes order (U16 u) = (if order = BigEndian then be16 u else le16 u)"
| "wire_bytes order (U32 u) = (if order = BigEndian then be32 u else le32 u)"
| "wire_bytes order (U64 u) = (if order = BigEndian then be64 u else le64 u)"
| "wire_bytes order (Str s) =
     (let len = of_nat (length s) :: u16
      in (if order = BigEndian then be16 len else le16 len) @ map byte_of_char (take (unat len) s))"

fun fixed_width :: "wire_field \<Rightarrow> bool" where
  "fixed_width (U16 u) = False"
| "fixed_width (Str s) = False"
| "fixed_width f = True"

lemma addByte_holds:
  "om_holds m cs \<Longrightarrow> \<exists>m'. addByte m b = Inr m' \<and> om_holds m' (cs @ [Some b]) \<and> om_order m' = om_order m"
  using om_put_holds [OF _ puts_store] by (simp add: addByte_def)

lemma addU32_holds:
  assumes "om_holds m cs"
  shows "\<exists>m'. addU32 m u = Inr m' \<and> om_holds m' (cs @ map Some (wire_bytes (om_order m) (U32 u))) \<and>
    om_order m' = om_order m"
proof -
  have "puts (\<lambda>a p. if om_order m = BigEndian then writeBE32 a p u else writeLE32 a p u)
      (map Some (wire_bytes (om_order m) (U32 u)))"
    by (simp add: puts_def codec_puts)
  moreover have len: "length (map Some (wire_bytes (om_order m) (U32 u))) = 4"
    by simp
  then have "map Some (wire_bytes (om_order m) (U32 u)) \<noteq> []"
    by (metis list.size(3) zero_neq_numeral)
  ultimately show ?thesis
    using om_put_holds [OF assms] unfolding addU32_def len [symmetric] by blast
qed

lemma addU64_holds:
  assumes "om_holds m cs"
  shows "\<exists>m'. addU64 m u = Inr m' \<and> om_holds m' (cs @ map Some (wire_bytes (om_order m) (U64 u))) \<and>
    om_order m' = om_order m"
proof -
  have "puts (\<lambda>a p. if om_order m = BigEndian then writeBE64 a p u else writeLE64 a p u)
      (map Some (wire_bytes (om_order m) (U64 u)))"
    by (simp add: puts_def codec_puts)
  moreover have len: "length (map Some (wire_bytes (om_order m) (U64 u))) = 8"
    by simp
  then have "map Some (wire_bytes (om_order m) (U64 u)) \<noteq> []"
    by (metis list.size(3) zero_neq_numeral)
  ultimately show ?thesis
    using om_put_holds [OF assms] unfolding addU64_def len [symmetric] by blast
qed

lemma addBytes_holds:
  assumes "om_holds m cs" "n \<le> length bytes" "0 < n"
  shows "\<exists>m'. addBytes m bytes n = Inr m' \<and> om_holds m' (cs @ take n bytes) \<and>
    om_order m' = om_order m"
proof -
  have "puts (\<lambda>a p. rbind (slice bytes 0 n) (blit a p)) (take n bytes)"
    using assms(2) by (simp add: puts_def slice_def)
  moreover have "length (take n bytes) = n" "take n bytes \<noteq> []"
    using assms(2,3) by auto
  ultimately show ?thesis
    using om_put_holds [OF assms(1)] unfolding addBytes_def by metis
qed

lemma om_shift_holds:
  assumes "om_holds m cs" "fixed_width f"
  shows "\<exists>m'. om_shift m f = Inr m' \<and> om_holds m' (cs @ map Some (wire_bytes (om_order m) f)) \<and>
    om_order m' = om_order m"
  using assms addByte_holds addU32_holds addU64_holds
  by (cases f) (simp_all del: wire_bytes.simps(3,4))

lemma om_written_holds: "om_holds m cs \<Longrightarrow> om_written m = Inr cs"
  by (auto simp: om_written_def om_data_def om_holds_def db_addr_def db_wf_def slice_def db_cells_def)


section \<open>Parsing: what each operation consumes\<close>

fun same_type :: "wire_field \<Rightarrow> wire_field \<Rightarrow> bool" where
  "same_type (Byte _) (Byte _) = True"
| "same_type (U16 _) (U16 _) = True"
| "same_type (U32 _) (U32 _) = True"
| "same_type (U64 _) (U64 _) = True"
| "same_type (Str _) (Str _) = True"
| "same_type _ _ = False"

fun_cases same_typeE: "same_type f g"

lemma im_advance_sel [simp]:
  "im_data (im_advance m n) = im_data m" "im_size (im_advance m n) = im_size m"
  "im_order (im_advance m n) = im_order m"
  by (simp_all add: im_advance_def)

lemma im_advance_pos:
  "unat (im_pos m) + n < 2 ^ 32 \<Longrightarrow> unat (im_pos (im_advance m n)) = unat (im_pos m) + n"
  by (simp add: im_advance_def unat_word_ariths unat_of_nat)

text \<open>A codec reads back the image it finds at its position.\<close>

lemmas codec_gets = LE16.get_at BE16.get_at LE32.get_at BE32.get_at LE64.get_at BE64.get_at

lemma im_shift_at:
  assumes "im_data m = map Some (pre @ wire_bytes (im_order m) f @ post)"
    and "unat (im_pos m) = length pre" "fixed_width f" "same_type f g"
  shows "im_shift m g = Inr (f, im_advance m (length (wire_bytes (im_order m) f)))"
proof -
  have at: "take (length (wire_bytes (im_order m) f)) (drop (unat (im_pos m)) (im_data m))
      = map Some (wire_bytes (im_order m) f)"
    by (simp add: assms(1,2))
  show ?thesis
  proof (cases f)
    case (Byte b)
    then have "load (im_data m) (unat (im_pos m)) = Inr b"
      by (simp add: load_def assms(1,2) nth_append)
    then show ?thesis
      using assms(4) by (cases g) (simp_all add: Byte getByte_def)
  next
    case (U32 u)
    then show ?thesis
      using assms(4) at codec_gets(3,4) [of "unat (im_pos m)" "im_data m" u]
      by (cases g) (auto simp: getU32_def split: if_splits)
  next
    case (U64 u)
    then show ?thesis
      using assms(4) at codec_gets(5,6) [of "unat (im_pos m)" "im_data m" u]
      by (cases g) (auto simp: getU64_def split: if_splits)
  qed (use assms(3) in simp_all)
qed

abbreviation wire :: "byte_order \<Rightarrow> wire_field list \<Rightarrow> u8 list" where
  "wire order fs \<equiv> concat (map (wire_bytes order) fs)"

lemma im_shifts_at:
  assumes "im_data m = map Some (pre @ wire (im_order m) fs @ post)"
    and "unat (im_pos m) = length pre" "length (im_data m) < 2 ^ 32"
    and "list_all fixed_width fs" "list_all2 same_type fs gs"
  shows "\<exists>m'. im_shifts m gs = Inr (fs, m') \<and> unat (im_pos m') = length (pre @ wire (im_order m) fs)"
  using assms
proof (induction fs arbitrary: m pre gs)
  case Nil
  then show ?case by simp
next
  case (Cons f fs)
  then obtain g gs' where gs: "gs = g # gs'" "same_type f g" "list_all2 same_type fs gs'"
    by (auto simp: list_all2_Cons1)
  let ?w = "wire_bytes (im_order m) f" and ?m = "im_advance m (length (wire_bytes (im_order m) f))"
  have "im_shift m g = Inr (f, ?m)"
    using Cons.prems gs by (intro im_shift_at [where post = "wire (im_order m) fs @ post"]) auto
  moreover have "unat (im_pos ?m) = length (pre @ ?w)"
    using Cons.prems by (simp add: im_advance_pos)
  then have "\<exists>m'. im_shifts ?m gs' = Inr (fs, m') \<and>
      unat (im_pos m') = length ((pre @ ?w) @ wire (im_order m) fs)"
    using Cons.IH [of ?m "pre @ ?w" gs'] Cons.prems gs by auto
  ultimately show ?case
    by (auto simp: gs(1))
qed

lemma om_shifts_hold:
  assumes "om_holds m cs" "list_all fixed_width fs"
  shows "\<exists>m'. rfold (\<lambda>f m. om_shift m f) fs m = Inr m' \<and>
    om_holds m' (cs @ map Some (wire (om_order m) fs)) \<and> om_order m' = om_order m"
  using assms
proof (induction fs arbitrary: m cs)
  case Nil
  then show ?case by simp
next
  case (Cons f fs)
  then obtain m1 where "om_shift m f = Inr m1"
    "om_holds m1 (cs @ map Some (wire_bytes (om_order m) f))" "om_order m1 = om_order m"
    using om_shift_holds by fastforce
  with Cons.IH [of m1 "cs @ map Some (wire_bytes (om_order m) f)"] Cons.prems show ?case by auto
qed

section \<open>Properties\<close>

text \<open>
  Property C33. A message built with \<open><<\<close> from bytes, 32-bit and 64-bit integers never faults, whatever
  the initial capacity and byte order, and reading what \<open>write\<close> would send back with \<open>>>\<close> at the
  same types and order yields the same values.
\<close>

theorem message_roundtrip:
  assumes "list_all fixed_width fs" "list_all2 same_type fs gs"
    and "length (wire order fs) < 2 ^ 32"
  shows "\<exists>m d m'. rfold (\<lambda>f m. om_shift m f) fs (OutputMessage order n) = Inr m \<and>
    om_written m = Inr d \<and> length d = length (wire order fs) \<and>
    im_shifts (InputMessage d (length d) order) gs = Inr (fs, m')"
proof -
  obtain m where m: "rfold (\<lambda>f m. om_shift m f) fs (OutputMessage order n) = Inr m"
    "om_holds m (map Some (wire order fs))"
    using om_shifts_hold [OF om_holds_new assms(1), of order n] by (auto simp: OutputMessage_def)
  let ?d = "map Some (wire order fs)" and ?m = "InputMessage (map Some (wire order fs)) (length (wire order fs)) order"
  obtain m' where "im_shifts ?m gs = Inr (fs, m')"
    using im_shifts_at [of ?m "[]" fs "[]" gs] assms by (auto simp: InputMessage_def)
  with m om_written_holds [OF m(2)] show ?thesis by auto
qed

theorem message_roundtrip_witness:
  "\<exists>m d m'. rfold (\<lambda>f m. om_shift m f) [U32 13, Byte 6, U32 70000] (OutputMessage BigEndian 2) = Inr m \<and>
    om_written m = Inr d \<and> length d = 9 \<and>
    im_shifts (InputMessage d (length d) BigEndian) [U32 0, Byte 0, U32 0]
      = Inr ([U32 13, Byte 6, U32 70000], m')"
  using message_roundtrip [of "[U32 13, Byte 6, U32 70000]" "[U32 0, Byte 0, U32 0]" BigEndian 2]
  by simp

text \<open>
  \<open>addU16\<close> grows the buffer by one byte although it writes two, so the recorded size lags
  behind the write position: when the 16-bit value fills the buffer, the reallocation of the next
  \<open>addU32\<close> does not copy its second byte, and the message is sent with an indeterminate byte there. (When exactly one byte precedes the value the doubled capacity is too small
  as well, and \<open>addU32\<close> writes past the end of the block.)
\<close>

theorem addU16_byte_lost_on_growth:
  assumes "om_holds m cs" "db_capacity (om_buffer m) = length cs + 2" "length cs \<noteq> 1"
  shows "\<exists>m1 m2 d. addU16 m v = Inr m1 \<and> addU32 m1 w = Inr m2 \<and> om_written m2 = Inr d \<and>
    d ! length cs \<noteq> None \<and> d ! (length cs + 1) = None"
proof -
  let ?n = "length cs" and ?b = "om_buffer m"
  from assms have m: "length (db_buffer ?b) = ?n + 2" "db_size ?b = ?n" "om_pos m = ?n"
      "db_capacity ?b = ?n + 2"
    by (auto simp: om_holds_def db_wf_def)
  define im where "im = (if om_order m = BigEndian then be16 v else le16 v)"
  have im: "length im = 2" by (simp add: im_def)
  define b1 where "b1 = ?b\<lparr>db_size := ?n + 1, db_buffer := take ?n (db_buffer ?b) @ map Some im\<rparr>"
  have 1: "addU16 m v = Inr (m\<lparr>om_buffer := b1, om_pos := ?n + 2\<rparr>)"
    using m by (simp add: addU16_def om_put_def db_grow_def db_addr_def codec_puts blit_def b1_def im_def)
  obtain c where c: "double_until (?n + 2) (?n + 5) = Some c" "?n + 5 \<le> c"
    "c = 2 * (?n + 2) \<or> c = 4 * (?n + 2)"
  proof (cases "2 * (?n + 2) < ?n + 5")
    case True
    have "double_until (?n + 2) (?n + 5) = Some (4 * (?n + 2))"
      using True by (subst double_until.simps, subst double_until.simps) simp
    moreover have "?n + 5 \<le> 4 * (?n + 2)" by simp
    ultimately show thesis using that by blast
  next
    case False
    have "double_until (?n + 2) (?n + 5) = Some (2 * (?n + 2))"
      using False by (subst double_until.simps) simp
    moreover have "?n + 5 \<le> 2 * (?n + 2)" using False by linarith
    ultimately show thesis using that by blast
  qed
  have "?n = 0 \<or> 2 \<le> ?n" using assms(3) by linarith
  then have "?n + 6 \<le> c" using c(2,3) by (elim disjE) simp_all
  define im4 where "im4 = (if om_order m = BigEndian then be32 w else le32 w)"
  have im4: "length im4 = 4" by (simp add: im4_def)
  define cells where "cells = take (?n + 1) (db_buffer b1) @ replicate (c - (?n + 1)) None"
  have b1: "length (db_buffer b1) = ?n + 2" "db_size b1 = ?n + 1" "db_capacity b1 = ?n + 2"
    using m im by (auto simp: b1_def)
  have at: "db_buffer b1 ! ?n = Some (im ! 0)"
    using m im by (simp add: b1_def nth_append)
  have cells: "length cells = c" "cells ! (?n + 1) = None" "cells ! ?n = Some (im ! 0)"
    using \<open>?n + 6 \<le> c\<close> b1 at by (simp_all add: cells_def nth_append)
  define b2 where "b2 = b1\<lparr>db_buffer := take (?n + 2) cells @ map Some im4 @ drop (?n + 6) cells,
      db_capacity := c, db_size := ?n + 5\<rparr>"
  have grow: "db_grow b1 (?n + 5) = Inr (b1\<lparr>db_buffer := cells, db_capacity := c, db_size := ?n + 5\<rparr>)"
    using b1 c(1) \<open>?n + 6 \<le> c\<close> by (simp add: db_grow_def db_reserve_def cells_def)
  have put: "blit cells (?n + 2) (map Some im4) = Inr (take (?n + 2) cells @ map Some im4 @ drop (?n + 6) cells)"
    using cells(1) im4 \<open>?n + 6 \<le> c\<close> by (simp add: blit_def add.commute)
  have 2: "addU32 (m\<lparr>om_buffer := b1, om_pos := ?n + 2\<rparr>) w = Inr (m\<lparr>om_buffer := b2, om_pos := ?n + 6\<rparr>)"
  proof -
    have "addU32 (m\<lparr>om_buffer := b1, om_pos := ?n + 2\<rparr>) w =
        om_put (m\<lparr>om_buffer := b1, om_pos := ?n + 2\<rparr>) 4 (\<lambda>a p. blit a p (map Some im4)) 4"
      by (simp add: addU32_def codec_puts im4_def)
    moreover have "db_size b1 + 4 = ?n + 5" "?n + 2 < c" using b1(2) \<open>?n + 6 \<le> c\<close> by simp_all
    ultimately show ?thesis
      using grow put by (simp add: om_put_def db_addr_def b2_def)
  qed
  have "om_written (m\<lparr>om_buffer := b2, om_pos := ?n + 6\<rparr>) = Inr (take (?n + 6) (db_buffer b2))"
    using cells im4 \<open>?n + 6 \<le> c\<close>
    by (simp add: om_written_def om_data_def db_addr_def slice_def b2_def) 
  moreover have "take (?n + 6) (db_buffer b2) ! ?n = cells ! ?n"
    "take (?n + 6) (db_buffer b2) ! (?n + 1) = cells ! (?n + 1)"
    using cells(1) \<open>?n + 6 \<le> c\<close> by (simp_all add: b2_def nth_append)
  ultimately show ?thesis
    using cells(2,3)
    by (intro exI [of _ "m\<lparr>om_buffer := b1, om_pos := ?n + 2\<rparr>"] exI [of _ "m\<lparr>om_buffer := b2, om_pos := ?n + 6\<rparr>"]
        exI [of _ "take (?n + 6) (db_buffer b2)"] conjI 1 2) simp_all
qed

theorem addU16_byte_lost_on_growth_witness:
  "\<exists>m1 m2 d. addU16 (OutputMessage BigEndian 2) 515 = Inr m1 \<and> addU32 m1 7 = Inr m2 \<and>
    om_written m2 = Inr d \<and> d ! 0 \<noteq> None \<and> d ! 1 = None"
  using addU16_byte_lost_on_growth [OF om_holds_new, of BigEndian 2 515 7]
  by (auto simp: OutputMessage_def db_new_def)

text \<open>
  \<open>getString\<close> never leaves the bytes its message declares: when the two length bytes are
  inside an initialised block of the declared size, it returns, and a string it returns is shorter than
  that block; a length that does not fit yields the empty string.
\<close>

theorem getString_bounded:
  assumes "im_data m = map Some bs" "im_size m = length bs" "length bs + 65538 < 2 ^ 32"
    and "unat (im_pos m) + 2 \<le> length bs"
  shows "\<exists>s m'. getString m = Inr (s, m') \<and> unat (im_pos m) + 2 + length s \<le> length bs \<and>
    unat (im_pos m') = unat (im_pos m) + 2 + length s"
proof -
  let ?p = "unat (im_pos m)"
  obtain b c where bc: "take 2 (drop ?p bs) = [b, c]"
    using assms(4) length_cells(1) [of "take 2 (drop ?p bs)"] by auto
  define len where "len = (if im_order m = BigEndian then
    (ucast c OR push_bit 8 (ucast b) :: u16) else push_bit 8 (ucast c) OR ucast b)"
  have bits: "bs ! ?p = b" "bs ! (?p + 1) = c"
    using bc assms(4) by (auto simp: take_Suc_conv_app_nth numeral_2_eq_2 hd_drop_conv_nth
        intro: nth_via_drop)
  have u16: "getU16 m = Inr (len, im_advance m 2)"
    using assms bits by (simp add: getU16_def readBE16_def readLE16_def len_def)
  have pos: "unat (im_pos (im_advance m 2)) = ?p + 2"
    using assms by (simp add: im_advance_pos)
  have "unat len < 65536" using unsigned_less [of len] by simp
  then have sum: "unat (im_pos (im_advance m 2) + ucast len) = ?p + 2 + unat len"
    using assms(3,4) by (simp add: unat_word_ariths pos unsigned_ucast_eq take_bit_nat_eq_self)
  show ?thesis
  proof (cases "len = 0 \<or> ?p + 2 + unat len > length bs")
    case True
    then show ?thesis
      using assms sum pos by (auto simp: getString_def u16)
  next
    case False
    then show ?thesis
      using assms sum pos
      by (auto simp: getString_def u16 slice_def im_advance_pos take_map drop_map)
  qed
qed

theorem getString_bounded_witness:
  "\<exists>s m'. getString (InputMessage (map Some [0, 2, 104, 105]) 4 BigEndian) = Inr (s, m') \<and> length s \<le> 2"
  using getString_bounded [of "InputMessage (map Some [0, 2, 104, 105]) 4 BigEndian" "[0, 2, 104, 105]"]
  by (auto simp: InputMessage_def)

end
