(* ===== verification/Std_Text.thy ===== *)
theory Std_Text
  imports Prelude
begin

text \<open>
  The character classes, number printing and number parsing of the C++ standard library that the
  program uses (\<open>isspace\<close>, \<open>isalnum\<close>, \<open>tolower\<close>, \<open>std::to_string\<close>, hexadecimal output, \<open>istream >>\<close> into
  64-bit integers), in the ``C'' locale. A \<open>char\<close> above 127 belongs to no class.
\<close>

section \<open>Character classes\<close>

abbreviation code :: "char \<Rightarrow> nat" where
  "code c \<equiv> of_char c"

definition is_digit :: "char \<Rightarrow> bool" where
  "is_digit c \<longleftrightarrow> 48 \<le> code c \<and> code c \<le> 57"

definition is_upper :: "char \<Rightarrow> bool" where
  "is_upper c \<longleftrightarrow> 65 \<le> code c \<and> code c \<le> 90"

definition is_lower :: "char \<Rightarrow> bool" where
  "is_lower c \<longleftrightarrow> 97 \<le> code c \<and> code c \<le> 122"

definition is_alnum :: "char \<Rightarrow> bool" where
  "is_alnum c \<longleftrightarrow> is_digit c \<or> is_upper c \<or> is_lower c"

definition is_space :: "char \<Rightarrow> bool" where
  "is_space c \<longleftrightarrow> code c = 32 \<or> 9 \<le> code c \<and> code c \<le> 13"

definition to_lower :: "char \<Rightarrow> char" where
  "to_lower c = (if is_upper c then char_of (code c + 32) else c)"

lemma code_char_of [simp]: "n < 256 \<Longrightarrow> code (char_of n) = n"
  by simp

section \<open>Decimal numbers\<close>

definition digit_char :: "nat \<Rightarrow> char" where
  "digit_char d = char_of (48 + d)"

definition digit_value :: "char \<Rightarrow> nat" where
  "digit_value c = code c - 48"

fun to_string :: "nat \<Rightarrow> string" where
  "to_string n = (if n < 10 then [digit_char n] else to_string (n div 10) @ [digit_char (n mod 10)])"

declare to_string.simps [simp del]

definition to_string_int :: "int \<Rightarrow> string" where
  "to_string_int i = (if i < 0 then CHR ''-'' # to_string (nat (- i)) else to_string (nat i))"

definition of_digits :: "string \<Rightarrow> nat" where
  "of_digits = foldl (\<lambda>acc c. 10 * acc + digit_value c) 0"

lemma is_digit_digit_char [simp]: "d < 10 \<Longrightarrow> is_digit (digit_char d)"
  by (simp add: is_digit_def digit_char_def)

lemma digit_value_digit_char [simp]: "d < 10 \<Longrightarrow> digit_value (digit_char d) = d"
  by (simp add: digit_value_def digit_char_def)

lemma to_string_digits: "list_all is_digit (to_string n)"
  by (induction n rule: to_string.induct) (subst to_string.simps, simp)

lemma to_string_Nil [simp]: "to_string n \<noteq> []"
  by (subst to_string.simps) simp

lemma of_digits_to_string [simp]: "of_digits (to_string n) = n"
proof (induction n rule: to_string.induct)
  case (1 n)
  then show ?case
    by (subst to_string.simps) (auto simp: of_digits_def)
qed

lemma to_string_inj: "to_string m = to_string n \<longleftrightarrow> m = n"
  by (metis of_digits_to_string)

lemma hd_to_string [simp]: "is_digit (hd (to_string n))"
  using to_string_digits [of n] by (cases "to_string n") auto

lemma digit_in_to_string: "c \<in> set (to_string n) \<Longrightarrow> is_digit c"
  using to_string_digits [of n] by (auto simp: list_all_iff)

lemma length_to_string: "0 < k \<Longrightarrow> n < 10 ^ k \<Longrightarrow> length (to_string n) \<le> k"
proof (induction n arbitrary: k rule: to_string.induct)
  case (1 n)
  show ?case
  proof (cases "n < 10")
    case True
    with 1 show ?thesis by (subst to_string.simps) simp
  next
    case False
    then obtain j where j: "k = Suc j" "0 < j"
      using "1.prems" by (cases k; cases "k - 1") auto
    with "1.prems" have "n div 10 < 10 ^ j"
      by (simp add: less_mult_imp_div_less mult.commute)
    with 1 False j show ?thesis by (subst to_string.simps) auto
  qed
qed

section \<open>Hexadecimal bytes\<close>

definition hex_digit :: "nat \<Rightarrow> char" where
  "hex_digit d = (if d < 10 then char_of (48 + d) else char_of (55 + d))"

definition hex_value :: "char \<Rightarrow> nat" where
  "hex_value c = (if code c < 65 then code c - 48 else code c - 55)"

lemma hex_value_hex_digit [simp]: "d < 16 \<Longrightarrow> hex_value (hex_digit d) = d"
  by (simp add: hex_value_def hex_digit_def)

section \<open>Stream extraction of 64-bit integers\<close>

text \<open>
  \<open>is >> value\<close>. White space is skipped; a stream that is then at its end leaves the variable as it
  was (\<open>None\<close> for a variable never assigned). Otherwise an optional sign and the longest run of digits
  are read: no digit stores 0, a value out of range stores the nearest bound, and a minus sign in
  front of an unsigned number negates it modulo \<open>2 ^ 64\<close>.
\<close>

definition split_sign :: "string \<Rightarrow> bool \<times> string" where
  "split_sign s =
     (case s of [] \<Rightarrow> (False, [])
      | c # cs \<Rightarrow> if c = CHR ''-'' then (True, cs) else if c = CHR ''+'' then (False, cs) else (False, s))"

definition extract_u64 :: "string \<Rightarrow> u64 option \<Rightarrow> u64 option" where
  "extract_u64 s old =
     (let s = dropWhile is_space s in
      if s = [] then old
      else let (neg, ds) = split_sign s; n = of_digits (takeWhile is_digit ds) in
        Some (if n \<ge> 2 ^ 64 then - 1 else if neg then - of_nat n else of_nat n))"

definition extract_i64 :: "string \<Rightarrow> int option \<Rightarrow> int option" where
  "extract_i64 s old =
     (let s = dropWhile is_space s in
      if s = [] then old
      else let (neg, ds) = split_sign s; n = int (of_digits (takeWhile is_digit ds)) in
        Some (if neg then max (- (2 ^ 63)) (- n) else min (2 ^ 63 - 1) n))"

lemma digit_not_space: "is_digit c \<Longrightarrow> \<not> is_space c"
  by (auto simp: is_digit_def is_space_def)

lemma digit_not_sign: "is_digit c \<Longrightarrow> c \<noteq> CHR ''-'' \<and> c \<noteq> CHR ''+''"
  by (auto simp: is_digit_def)

lemma takeWhile_digits [simp]: "takeWhile is_digit (to_string n) = to_string n"
  by (simp add: digit_in_to_string)

lemma to_string_Cons:
  obtains c cs where "to_string n = c # cs" "is_digit c"
  using hd_to_string [of n] to_string_Nil [of n] by (cases "to_string n") auto

lemma extract_to_string [simp]:
  assumes "n < 2 ^ 64"
  shows "extract_u64 (to_string n) old = Some (of_nat n)"
proof -
  obtain c cs where c: "to_string n = c # cs" "is_digit c" by (rule to_string_Cons)
  then have "dropWhile is_space (to_string n) = to_string n" "split_sign (to_string n) = (False, to_string n)"
    using digit_not_space digit_not_sign by (simp_all add: split_sign_def)
  with assms show ?thesis by (simp add: extract_u64_def)
qed

lemma extract_minus_to_string:
  assumes "n < 2 ^ 64"
  shows "extract_u64 (CHR ''-'' # to_string n) old = Some (- of_nat n)"
proof -
  have "dropWhile is_space (CHR ''-'' # to_string n) = CHR ''-'' # to_string n"
    by (simp add: is_space_def)
  with assms show ?thesis by (simp add: extract_u64_def split_sign_def)
qed

lemma extract_to_string_int:
  assumes "- (2 ^ 63) \<le> i" "i < 2 ^ 63"
  shows "extract_u64 (to_string_int i) old = Some (of_int i)"
proof (cases "i < 0")
  case True
  then have "nat (- i) < 2 ^ 64" using assms by simp
  then have "extract_u64 (to_string_int i) old = Some (- of_nat (nat (- i)))"
    using True by (simp only: to_string_int_def if_True extract_minus_to_string)
  also have "of_nat (nat (- i)) = (of_int (- i) :: u64)"
    using True by (intro of_nat_nat) simp
  finally show ?thesis by simp
next
  case False
  then have "nat i < 2 ^ 64" using assms by simp
  then have "extract_u64 (to_string_int i) old = Some (of_nat (nat i))"
    using False by (simp only: to_string_int_def if_False extract_to_string)
  also have "of_nat (nat i) = (of_int i :: u64)"
    using False by (intro of_nat_nat) simp
  finally show ?thesis .
qed

end
