(* ===== verification/Auxiliar.thy ===== *)
theory Auxiliar
  imports Std_Text Prelude "HOL-Library.Sublist"
begin

text \<open>
  src/util/auxiliar.{h,cpp}: splitting a tracker URL, percent-encoding, IPv4 addresses in dotted and in
  packed form, prefix and suffix tests, the current directory. \<open>validatePath\<close> is in \<open>File_Scan\<close>, \<open>nodeExists\<close>
  is a call of the operating system, and \<open>bytesToHumanReadable\<close> formats a floating point number: not modelled.
\<close>

section \<open>URLs\<close>

text \<open>\<open>std::search\<close>: what precedes the first occurrence, and the rest from the occurrence on.\<close>

fun search :: "string \<Rightarrow> string \<Rightarrow> (string \<times> string) option" where
  "search pat [] = (if pat = [] then Some ([], []) else None)"
| "search pat (c # s) =
     (if take (length pat) (c # s) = pat then Some ([], c # s)
      else map_option (\<lambda>(a, b). (c # a, b)) (search pat s))"

definition parseUrl :: "string \<Rightarrow> string \<times> string \<times> string" where
  "parseUrl str =
     (case search ''://'' str of
        None \<Rightarrow> ('''', '''', '''')
      | Some (proto, rest) \<Rightarrow>
          (let protocol = map to_lower proto;
               afterProtocol = drop 3 rest;
               stop = (if CHR '':'' \<in> set afterProtocol then CHR '':'' else CHR ''/'');
               host = map to_lower (takeWhile (\<lambda>c. c \<noteq> stop) afterProtocol);
               portIter = dropWhile (\<lambda>c. c \<noteq> CHR '':'') (dropWhile (\<lambda>c. c \<noteq> stop) afterProtocol)
           in if portIter = [] then (protocol, host, protocol)
              else (protocol, host, takeWhile (\<lambda>c. c \<noteq> CHR ''/'') (tl portIter))))"

section \<open>Percent-encoding\<close>

definition url_char :: "char \<Rightarrow> bool" where
  "url_char c \<longleftrightarrow> is_alnum c \<or> c = CHR ''-'' \<or> c = CHR ''_'' \<or> c = CHR ''.'' \<or> c = CHR ''~''"

definition url_escape :: "char \<Rightarrow> string" where
  "url_escape c =
     (if url_char c then [c]
      else [CHR ''%'', hex_digit (of_char c div 16), hex_digit (of_char c mod 16)])"

definition urlencode :: "string \<Rightarrow> string" where
  "urlencode value = concat (map url_escape value)"

text \<open>What a server makes of an encoded string.\<close>

fun urldecode :: "string \<Rightarrow> string" where
  "urldecode [] = []"
| "urldecode (c # s) =
     (if c = CHR ''%''
      then (case s of a # b # t \<Rightarrow> char_of (16 * hex_value a + hex_value b :: nat) # urldecode t | _ \<Rightarrow> [])
      else c # urldecode s)"

section \<open>IPv4 addresses\<close>

definition ip2str :: "u32 \<Rightarrow> string" where
  "ip2str ip =
     to_string (unat (ip AND 0xFF)) @ ''.'' @
     to_string (unat (drop_bit 8 ip AND 0xFF)) @ ''.'' @
     to_string (unat (drop_bit 16 ip AND 0xFF)) @ ''.'' @
     to_string (unat (drop_bit 24 ip))"

text \<open>\<open>str2ip\<close> reads the first four characters themselves (not the numbers they spell), from a C string
  that ends with a NUL.\<close>

definition str2ip :: "string \<Rightarrow> u32 res" where
  "str2ip ip =
     (let c = map (Some \<circ> byte_of_char) ip @ [Some 0] in
      rbind (load c 0) (\<lambda>c0. rbind (load c 1) (\<lambda>c1. rbind (load c 2) (\<lambda>c2. rbind (load c 3) (\<lambda>c3.
        Inr (push_bit 24 (ucast c0) OR push_bit 16 (ucast c1) OR push_bit 8 (ucast c2) OR ucast c3))))))"

section \<open>Bits, prefixes and suffixes\<close>

definition test_bit :: "u32 \<Rightarrow> u32 \<Rightarrow> bool" where
  "test_bit bits b \<longleftrightarrow> bits AND b = b"

definition starts_with :: "string \<Rightarrow> string \<Rightarrow> bool" where
  "starts_with s start =
     (if length s < length start then False else take (length start) s = start)"

definition ends_with :: "string \<Rightarrow> string \<Rightarrow> bool" where
  "ends_with s e = (if length s < length e then False else drop (length s - length e) s = e)"

lemma starts_with_prefix [simp]: "starts_with s p \<longleftrightarrow> prefix p s"
  by (auto simp: starts_with_def prefix_def) (metis append_take_drop_id)

lemma ends_with_suffix [simp]: "ends_with s p \<longleftrightarrow> suffix p s"
  by (auto simp: ends_with_def suffix_def) (metis append_take_drop_id)

section \<open>The current directory\<close>

text \<open>\<open>os size\<close> is the answer of the system's \<open>getcwd\<close> on a buffer of that size. The buffers on the heap are
  arrays that are deleted as single characters, which C++ leaves undefined: \<open>delete_char\<close> is what it does.\<close>

datatype cwd_answer = Cwd string | ERANGE | OtherError

fun getcwd_chunks :: "(nat \<Rightarrow> cwd_answer) \<Rightarrow> unit res \<Rightarrow> nat list \<Rightarrow> string res" where
  "getcwd_chunks os delete_char [] = Inl SystemError"
| "getcwd_chunks os delete_char (chunks # cs) =
     (let r = os (255 * chunks) in
      rbind delete_char (\<lambda>_.
        case r of
          Cwd path \<Rightarrow> Inr path
        | ERANGE \<Rightarrow> getcwd_chunks os delete_char cs
        | OtherError \<Rightarrow> Inl SystemError))"

definition getcwd :: "(nat \<Rightarrow> cwd_answer) \<Rightarrow> unit res \<Rightarrow> string res" where
  "getcwd os delete_char =
     (case os 255 of
        Cwd path \<Rightarrow> Inr path
      | ERANGE \<Rightarrow> getcwd_chunks os delete_char [2..<10240]
      | OtherError \<Rightarrow> Inl SystemError)"

section \<open>Lemmas\<close>

lemma getcwd_chunks_fit:
  assumes "\<And>n. os n = (if length path < n then Cwd path else ERANGE)"
  shows "getcwd_chunks os (Inr ()) cs = (if \<exists>c\<in>set cs. length path < 255 * c then Inr path else Inl SystemError)"
  by (induction cs) (simp_all add: assms Let_def)

text \<open>On a system that answers as POSIX says, every path of less than 2610945 characters is found, however
  long it is, and a longer one is an exception.\<close>

lemma getcwd_finds_path:
  assumes "\<And>n. os n = (if length path < n then Cwd path else ERANGE)"
  shows "getcwd os (Inr ()) = (if length path < 2610945 then Inr path else Inl SystemError)"
proof -
  have "(\<exists>c\<in>set [2..<10240]. length path < 255 * c) \<longleftrightarrow> length path < 2610945"
    unfolding set_upt Bex_def atLeastLessThan_iff by (auto intro!: exI [of _ 10239])
  then show ?thesis unfolding getcwd_def getcwd_chunks_fit [OF assms] by (simp add: assms del: upt_rec_numeral)
qed

text \<open>If deleting the array aborts, so does every path that the first buffer cannot hold.\<close>

lemma getcwd_undefined_delete: "os 255 = ERANGE \<Longrightarrow> getcwd os (Inl e) = Inl e"
proof -
  have "[2..<10240] = 2 # [Suc 2..<10240]" by (rule upt_conv_Cons) simp
  moreover assume "os 255 = ERANGE"
  ultimately show ?thesis unfolding getcwd_def by (simp add: Let_def del: upt_rec_numeral)
qed

lemma search_first:
  "search pat s = Some (a, b) \<Longrightarrow> s = a @ b \<and> prefix pat b"
proof (induction s arbitrary: a b)
  case Nil
  then show ?case by (auto split: if_splits)
next
  case (Cons c s)
  show ?case
  proof (cases "take (length pat) (c # s) = pat")
    case True
    then show ?thesis
      using Cons.prems by (auto intro: take_is_prefix)
        (metis append_Cons append_take_drop_id prefixI)
  next
    case False
    then show ?thesis using Cons by auto
  qed
qed

lemma search_sep:
  assumes "CHR '':'' \<notin> set p"
  shows "search ''://'' (p @ ''://'' @ r) = Some (p, ''://'' @ r)"
  using assms by (induction p) auto

lemma url_escape_decode: "urldecode (url_escape c @ t) = c # urldecode t"
proof (cases "url_char c")
  case True
  then have "c \<noteq> CHR ''%''"
    by (auto simp: url_char_def is_alnum_def is_digit_def is_upper_def is_lower_def)
  with True show ?thesis by (simp add: url_escape_def)
next
  case False
  have "(of_char c :: nat) < 256" by (rule nat_of_char_less_256)
  then have "of_char c div 16 < (16 :: nat)" by (simp add: less_mult_imp_div_less)
  then show ?thesis using False by (simp add: url_escape_def)
qed

lemma append_sep_inj:
  assumes "CHR ''.'' \<notin> set a" "CHR ''.'' \<notin> set a'" "a @ CHR ''.'' # b = a' @ CHR ''.'' # b'"
  shows "a = a' \<and> b = b'"
  using assms by (metis dropWhile_stop list.inject takeWhile_stop)

lemma no_dot_to_string [simp]: "CHR ''.'' \<notin> set (to_string n)"
  using digit_in_to_string by (fastforce simp: is_digit_def)

lemma url_escape_chars: "d \<in> set (url_escape c) \<Longrightarrow> url_char d \<or> d = CHR ''%''"
proof -
  have hex: "url_char (hex_digit d)" if "d < 16" for d
    using that by (auto simp: hex_digit_def url_char_def is_alnum_def is_digit_def is_upper_def)
  have "(of_char c :: nat) < 256" by (rule nat_of_char_less_256)
  then have "of_char c div 16 < (16 :: nat)" by (simp add: less_mult_imp_div_less)
  then show "d \<in> set (url_escape c) \<Longrightarrow> url_char d \<or> d = CHR ''%''"
    by (auto simp: url_escape_def hex split: if_splits)
qed

lemma drop_24_less: "unat (drop_bit 24 (ip :: u32)) < 256"
proof -
  have "unat ip < 2 ^ 32" using unsigned_less [of ip] by simp
  then have "unat ip div 2 ^ 24 < 256" by (simp add: less_mult_imp_div_less)
  then show ?thesis by (simp only: unsigned_drop_bit_eq) (simp add: drop_bit_eq_div take_bit_eq_mod)
qed

text \<open>A word is put together from its four bytes.\<close>

lemma split_four:
  fixes ip :: u32
  shows "ip = (ip AND 0xFF) OR push_bit 8 (drop_bit 8 ip AND 0xFF)
    OR push_bit 16 (drop_bit 16 ip AND 0xFF) OR push_bit 24 (drop_bit 24 ip)"
proof (rule bit_word_eqI)
  have mask: "(0xFF :: u32) = mask 8" by (simp add: mask_eq_exp_minus_1)
  show "bit ip n = bit ((ip AND 0xFF) OR push_bit 8 (drop_bit 8 ip AND 0xFF)
    OR push_bit 16 (drop_bit 16 ip AND 0xFF) OR push_bit 24 (drop_bit 24 ip)) n"
    if "n < LENGTH(32)" for n
    using that unfolding mask
    by (cases "n < 8"; cases "n < 16"; cases "n < 24") (simp_all add: bit_simps less_diff_conv2)
qed

section \<open>Properties\<close>

text \<open>
  A URL of the form \<open>protocol://host:port/request\<close> is split into its three parts, and one
  without any later colon uses the protocol name as service name; letters of protocol and host are folded
  to lower case. Without \<open>://\<close> the three parts are empty.
\<close>

theorem parseUrl_parts:
  assumes "CHR '':'' \<notin> set proto" "CHR '':'' \<notin> set host" "CHR ''/'' \<notin> set host"
    and "CHR ''/'' \<notin> set port" "CHR '':'' \<notin> set request"
  shows "parseUrl (proto @ ''://'' @ host @ '':'' @ port @ CHR ''/'' # anything)
      = (map to_lower proto, map to_lower host, port) \<and>
    parseUrl (proto @ ''://'' @ host @ CHR ''/'' # request)
      = (map to_lower proto, map to_lower host, map to_lower proto)"
proof
  show "parseUrl (proto @ ''://'' @ host @ '':'' @ port @ CHR ''/'' # anything)
      = (map to_lower proto, map to_lower host, port)"
    using assms by (simp add: parseUrl_def search_sep [simplified] takeWhile_stop dropWhile_stop)
  have "dropWhile (\<lambda>c. c \<noteq> CHR '':'') (CHR ''/'' # request) = []"
    using assms(5) by (auto simp: dropWhile_eq_Nil_conv)
  then show "parseUrl (proto @ ''://'' @ host @ CHR ''/'' # request)
      = (map to_lower proto, map to_lower host, map to_lower proto)"
    using assms by (simp add: parseUrl_def Let_def search_sep [simplified] takeWhile_stop dropWhile_stop)
qed

theorem parseUrl_parts_witness:
  "parseUrl ''UDP://Tracker.org:6969/announce'' = (''udp'', ''tracker.org'', ''6969'') \<and>
   parseUrl ''http://t.org/announce'' = (''http'', ''t.org'', ''http'')"
  using parseUrl_parts [of "''UDP''" "''Tracker.org''" "''6969''" "[]" "''announce''"]
    parseUrl_parts [of "''http''" "''t.org''" "''80''" "''announce''" "[]"]
  by (simp add: to_lower_def is_upper_def char_of_def bit_0)

text \<open>
  Percent-encoding loses nothing and produces only characters allowed in a request: decoding
  the result gives back the value, every character of it is unreserved or a percent sign, and an
  unreserved value is left as it is.
\<close>

theorem urlencode_roundtrip:
  "urldecode (urlencode str) = str \<and>
   filter (\<lambda>c. \<not> url_char c \<and> c \<noteq> CHR ''%'') (urlencode str) = [] \<and>
   (urlencode str = str \<longleftrightarrow> filter url_char str = str)"
proof (intro conjI)
  show "urldecode (urlencode str) = str"
    by (induction str) (auto simp: urlencode_def url_escape_decode)
  show "filter (\<lambda>c. \<not> url_char c \<and> c \<noteq> CHR ''%'') (urlencode str) = []"
    using url_escape_chars by (fastforce simp: urlencode_def filter_empty_conv)
  have "length (urlencode str) = length str + 2 * length (filter (\<lambda>c. \<not> url_char c) str)"
    by (induction str) (auto simp: urlencode_def url_escape_def)
  moreover have "\<forall>c \<in> set str. url_char c \<Longrightarrow> urlencode str = str"
    by (induction str) (auto simp: urlencode_def url_escape_def)
  ultimately show "urlencode str = str \<longleftrightarrow> filter url_char str = str"
    by (auto simp: filter_id_conv filter_empty_conv)
qed

text \<open>
  \<open>ip2str\<close> stays inside its 17-byte buffer, the terminating NUL included, and distinct
  addresses have distinct texts.
\<close>

theorem ip2str_fits_and_injective:
  "length (ip2str ip) + 1 \<le> 17 \<and> (ip2str ip = ip2str ip' \<longleftrightarrow> ip = ip')"
proof
  have "unat (drop_bit n ip AND 0xFF) < 10 ^ 3" for n
    using word_and_le1 [of "drop_bit n ip" "0xFF"] by (simp add: word_le_nat_alt)
  moreover have "unat (drop_bit 24 ip) < 10 ^ 3"
    using drop_24_less [of ip] by simp
  ultimately have "length (to_string (unat (drop_bit n ip AND 0xFF))) \<le> 3"
    "length (to_string (unat (drop_bit 24 ip))) \<le> 3" for n
    by (auto intro: length_to_string)
  from this(1) [of 0] this(1) [of 8] this(1) [of 16] this(2) show "length (ip2str ip) + 1 \<le> 17"
    by (simp add: ip2str_def)
next
  have "ip = ip'" if "ip2str ip = ip2str ip'"
  proof -
    have "unat (ip AND 0xFF) = unat (ip' AND 0xFF) \<and>
      unat (drop_bit 8 ip AND 0xFF) = unat (drop_bit 8 ip' AND 0xFF) \<and>
      unat (drop_bit 16 ip AND 0xFF) = unat (drop_bit 16 ip' AND 0xFF) \<and>
      unat (drop_bit 24 ip) = unat (drop_bit 24 ip')"
      using that unfolding ip2str_def
      by (auto simp: to_string_inj dest!: append_sep_inj [OF no_dot_to_string no_dot_to_string])
    then show ?thesis
      using split_four [of ip] split_four [of ip'] by (metis word_unat_eq_iff)
  qed
  then show "ip2str ip = ip2str ip' \<longleftrightarrow> ip = ip'" by blast
qed

end
