(* ===== verification/Dictionary.thy ===== *)
theory Dictionary
  imports Prelude
begin

text \<open>
  The maps of the program: \<open>std::map<std::string, boost::any>\<close> (kept in the order of its keys) and
  \<open>std::unordered_map\<close>. A map is the list of its entries in iteration order; what its clients rely on
  is the contract \<open>finite_map\<close>.
\<close>

section \<open>Operations\<close>

definition map_find :: "'k \<Rightarrow> ('k \<times> 'v) list \<Rightarrow> 'v option" where
  "map_find k d = map_of d k"

definition map_count :: "'k \<Rightarrow> ('k \<times> 'v) list \<Rightarrow> bool" where
  "map_count k d \<longleftrightarrow> map_of d k \<noteq> None"

text \<open>\<open>d[k] = v\<close> on a \<open>std::map\<close>.\<close>

fun map_put :: "'k::linorder \<Rightarrow> 'v \<Rightarrow> ('k \<times> 'v) list \<Rightarrow> ('k \<times> 'v) list" where
  "map_put k v [] = [(k, v)]"
| "map_put k v ((k', v') # d) =
     (if k < k' then (k, v) # (k', v') # d
      else if k = k' then (k, v) # d
      else (k', v') # map_put k v d)"

definition map_erase :: "'k \<Rightarrow> ('k \<times> 'v) list \<Rightarrow> ('k \<times> 'v) list" where
  "map_erase k d = filter (\<lambda>(k', v). k' \<noteq> k) d"

definition map_ordered :: "('k::linorder \<times> 'v) list \<Rightarrow> bool" where
  "map_ordered d \<longleftrightarrow> sorted_wrt (<) (map fst d)"

text \<open>\<open>d[k] = v\<close> on a \<open>std::unordered_map\<close>: an existing entry is overwritten where it is, a new one
  goes to some place of the iteration order (here the end; no theorem depends on which).\<close>

fun umap_put :: "'k \<Rightarrow> 'v \<Rightarrow> ('k \<times> 'v) list \<Rightarrow> ('k \<times> 'v) list" where
  "umap_put k v [] = [(k, v)]"
| "umap_put k v ((k', v') # d) =
     (if k = k' then (k, v) # d else (k', v') # umap_put k v d)"

definition umap_wf :: "('k \<times> 'v) list \<Rightarrow> bool" where
  "umap_wf d \<longleftrightarrow> distinct (map fst d)"

section \<open>The contract\<close>

locale finite_map =
  fixes wf :: "'m \<Rightarrow> bool"
    and find :: "'k \<Rightarrow> 'm \<Rightarrow> 'v option"
    and put :: "'k \<Rightarrow> 'v \<Rightarrow> 'm \<Rightarrow> 'm"
    and erase :: "'k \<Rightarrow> 'm \<Rightarrow> 'm"
    and empty_map :: 'm
  assumes wf_empty: "wf empty_map"
    and find_empty: "find k empty_map = None"
    and wf_put: "wf m \<Longrightarrow> wf (put k v m)"
    and find_put: "wf m \<Longrightarrow> find k (put k' v m) = (if k = k' then Some v else find k m)"
    and wf_erase: "wf m \<Longrightarrow> wf (erase k m)"
    and find_erase: "wf m \<Longrightarrow> find k (erase k' m) = (if k = k' then None else find k m)"
begin

definition keys :: "'m \<Rightarrow> 'k set" where
  "keys m = {k. find k m \<noteq> None}"

lemma keys_empty [simp]: "keys empty_map = {}"
  by (simp add: keys_def find_empty)

lemma keys_put: "wf m \<Longrightarrow> keys (put k v m) = insert k (keys m)"
  by (auto simp: keys_def find_put)

lemma keys_erase: "wf m \<Longrightarrow> keys (erase k m) = keys m - {k}"
  by (auto simp: keys_def find_erase)

lemma erase_put: "wf m \<Longrightarrow> find k' m = None \<Longrightarrow> find k (erase k' (put k' v m)) = find k m"
  by (simp add: find_erase find_put wf_put)

lemma put_all:
  "wf m \<Longrightarrow> wf (fold (\<lambda>(k, v). put k v) kvs m) \<and>
    find k (fold (\<lambda>(k, v). put k v) kvs m) = (case map_of (rev kvs) k of None \<Rightarrow> find k m | Some v \<Rightarrow> Some v)"
  by (induction kvs arbitrary: m) (auto simp: wf_put find_put map_add_def split: option.splits)

end

section \<open>The two providers\<close>

lemma map_of_map_put:
  "map_ordered d \<Longrightarrow> map_of (map_put k' v d) k = (if k = k' then Some v else map_of d k)"
  by (induction k' v d rule: map_put.induct) (auto simp: map_ordered_def)

lemma fst_map_put: "fst ` set (map_put k v d) = insert k (fst ` set d)"
  by (induction k v d rule: map_put.induct) auto

lemma map_ordered_put: "map_ordered d \<Longrightarrow> map_ordered (map_put k v d)"
proof (induction k v d rule: map_put.induct)
  case (2 k v k' v' d)
  have "k' < x" if "k' < k" "x \<in> fst ` set (map_put k v d)" for x
    using that 2(2) by (auto simp: fst_map_put map_ordered_def)
  then show ?case
    using 2 by (auto simp: map_ordered_def)
qed (simp add: map_ordered_def)

lemma map_of_map_erase: "map_of (map_erase k' d) k = (if k = k' then None else map_of d k)"
  by (induction d) (auto simp: map_erase_def)

lemma map_ordered_erase: "map_ordered d \<Longrightarrow> map_ordered (map_erase k d)"
  by (induction d) (auto simp: map_ordered_def map_erase_def)

interpretation dict: finite_map map_ordered map_find map_put map_erase "[]"
  by unfold_locales
    (auto simp: map_find_def map_of_map_put map_of_map_erase map_ordered_put map_ordered_erase,
      simp add: map_ordered_def)

lemma map_of_umap_put: "map_of (umap_put k' v d) k = (if k = k' then Some v else map_of d k)"
  by (induction k' v d rule: umap_put.induct) auto

lemma fst_umap_put: "fst ` set (umap_put k v d) = insert k (fst ` set d)"
  by (induction k v d rule: umap_put.induct) auto

lemma umap_wf_put: "umap_wf d \<Longrightarrow> umap_wf (umap_put k v d)"
  by (induction k v d rule: umap_put.induct) (auto simp: umap_wf_def fst_umap_put)

lemma umap_wf_erase: "umap_wf d \<Longrightarrow> umap_wf (map_erase k d)"
  by (induction d) (auto simp: umap_wf_def map_erase_def)

interpretation umap: finite_map umap_wf map_find umap_put map_erase "[]"
  by unfold_locales
    (auto simp: map_find_def map_of_umap_put map_of_map_erase umap_wf_put umap_wf_erase,
      simp add: umap_wf_def)

lemma map_count_find: "map_count k d \<longleftrightarrow> map_find k d \<noteq> None"
  by (simp add: map_count_def map_find_def)

text \<open>Appending the greatest key keeps the list: an ordered map is rebuilt by inserting its entries.\<close>

lemma map_put_last: "map_ordered (d @ [(k, v)]) \<Longrightarrow> map_put k v d = d @ [(k, v)]"
  by (induction d) (auto simp: map_ordered_def sorted_wrt_append)

end
