(* ===== verification/Bencode.thy ===== *)
theory Bencode
  imports Data_Buffer Std_Text Dictionary Messages
begin

text \<open>
  src/bencode/{bencode.h,decoder.cpp,encoder.cpp}. A \<open>boost::any\<close> is a value of the datatype \<open>any\<close>, whose
  constructors are the dynamic types the encoder knows; \<open>AOther\<close> stands for the rest and \<open>AEmpty\<close> for an
  empty \<open>any\<close>. Dictionaries are ordered entry lists (\<open>std::map\<close>). The two members of the class, the
  buffer and the position, are the record \<open>bencode\<close>; the decoder never changes its buffer, so its
  functions take the buffer and pass the position along.
\<close>

section \<open>Values\<close>

datatype any =
    AEmpty
  | AInt64 "64 word"
  | AUint64 "64 word"
  | AInt32 "32 word"
  | AUint32 "32 word"
  | AString string
  | ACString string
  | ADict "(string \<times> any) list"
  | AVec "any list"
  | AOther

type_synonym dictionary = "(string \<times> any) list"

text \<open>\<open>Bencode::cast<T>\<close>: the value if the dynamic type is exactly \<open>T\<close>, a default one otherwise.\<close>

definition cast_string :: "any \<Rightarrow> string" where
  "cast_string a = (case a of AString s \<Rightarrow> s | _ \<Rightarrow> [])"

definition cast_uint64 :: "any \<Rightarrow> u64" where
  "cast_uint64 a = (case a of AUint64 u \<Rightarrow> u | _ \<Rightarrow> 0)"

definition cast_int64 :: "any \<Rightarrow> u64" where
  "cast_int64 a = (case a of AInt64 u \<Rightarrow> u | _ \<Rightarrow> 0)"

definition cast_dictionary :: "any \<Rightarrow> dictionary" where
  "cast_dictionary a = (case a of ADict d \<Rightarrow> d | _ \<Rightarrow> [])"

definition cast_vector :: "any \<Rightarrow> any list" where
  "cast_vector a = (case a of AVec vs \<Rightarrow> vs | _ \<Rightarrow> [])"

record bencode =
  bc_buffer :: "char data_buffer"
  bc_pos :: nat

definition Bencode :: "bencode" where
  "Bencode = \<lparr>bc_buffer = db_new 64, bc_pos = 0\<rparr>"

section \<open>The decoder (decoder.cpp)\<close>

definition unpackByte :: "char data_buffer \<Rightarrow> nat \<Rightarrow> (char option \<times> nat) res" where
  "unpackByte b pos =
     (if pos + 1 > db_capacity b then Inr (None, pos)
      else rbind (db_at b pos) (\<lambda>c. Inr (Some c, pos + 1)))"

text \<open>\<open>for (pos = m_pos; pos < m_buffer.cap() && m_buffer[pos] != byte; ++pos);\<close>\<close>

function find_byte :: "char data_buffer \<Rightarrow> char \<Rightarrow> nat \<Rightarrow> nat res" where
  "find_byte b byte pos =
     (if pos < db_capacity b
      then rbind (db_at b pos) (\<lambda>c. if c \<noteq> byte then find_byte b byte (pos + 1) else Inr pos)
      else Inr pos)"
  by auto
termination by (relation "measure (\<lambda>(b, _, pos). db_capacity b - pos)") auto

declare find_byte.simps [simp del]

text \<open>
  \<open>readIntUntil<T>\<close>: \<open>scan\<close> is the stream extraction at type \<open>T\<close> and \<open>old\<close> the contents of the
  referenced variable (\<open>None\<close> if it was never assigned). The result says whether it returned \<open>true\<close>, and
  gives the variable and the position.
\<close>

definition readIntUntil ::
  "(string \<Rightarrow> 'v option \<Rightarrow> 'v option) \<Rightarrow> char data_buffer \<Rightarrow> char \<Rightarrow> 'v option \<Rightarrow> nat \<Rightarrow>
    (bool \<times> 'v option \<times> nat) res" where
  "readIntUntil scan b byte old m_pos =
     rbind (find_byte b byte m_pos) (\<lambda>pos.
     rbind (db_at b pos) (\<lambda>c.
       if c \<noteq> byte then Inr (False, old, m_pos)
       else let n = pos - m_pos in
         if n > db_rem b then Inr (False, old, m_pos)
         else rbind (db_addr b m_pos) (\<lambda>p.
           rbind (slice (db_buffer b) p n) (\<lambda>cs.
           rbind (values_of cs) (\<lambda>s. Inr (True, scan s old, pos + 1))))))"

text \<open>Returning an integer variable that was never assigned is a fault.\<close>

definition use_value :: "'v option \<Rightarrow> 'v res" where
  "use_value v = (case v of None \<Rightarrow> Inl Uninitialised | Some x \<Rightarrow> Inr x)"

definition readInt :: "char data_buffer \<Rightarrow> nat \<Rightarrow> (int \<times> nat) res" where
  "readInt b pos =
     rbind (readIntUntil extract_i64 b CHR ''e'' None pos) (\<lambda>(ok, i, pos).
       if ok then rbind (use_value i) (\<lambda>i. Inr (i, pos)) else Inr (2 ^ 63 - 1, pos))"

definition readUint :: "char data_buffer \<Rightarrow> nat \<Rightarrow> (u64 \<times> nat) res" where
  "readUint b pos =
     rbind (readIntUntil extract_u64 b CHR ''e'' None pos) (\<lambda>(ok, u, pos).
       if ok then rbind (use_value u) (\<lambda>u. Inr (u, pos)) else Inr (- 1, pos))"

definition readString :: "char data_buffer \<Rightarrow> nat \<Rightarrow> (string \<times> nat) res" where
  "readString b pos =
     rbind (readIntUntil extract_u64 b CHR '':'' None pos) (\<lambda>(ok, len, pos).
       if \<not> ok then Inr ([], pos)
       else rbind (use_value len) (\<lambda>len.
         if add64 (unat len) pos > db_capacity b then Inr ([], pos)
         else rbind (db_addr b pos) (\<lambda>p.
           rbind (slice (db_buffer b) p (unat len)) (\<lambda>cs.
           rbind (values_of cs) (\<lambda>s. Inr (s, pos + unat len))))))"

text \<open>
  The two mutually recursive readers, one step of their \<open>for (;;)\<close> loops at a time, with the container
  read so far as accumulator. The first argument is fuel; \<open>Diverges\<close> means that it ran out, which
  \<open>decoder_fuel\<close> below excludes for more fuel than bytes are left.
\<close>

fun readVector :: "nat \<Rightarrow> char data_buffer \<Rightarrow> any list \<Rightarrow> nat \<Rightarrow> (any list \<times> nat) res"
  and readDictionary :: "nat \<Rightarrow> char data_buffer \<Rightarrow> dictionary \<Rightarrow> nat \<Rightarrow> (dictionary \<times> nat) res" where
  "readVector 0 b ret pos = Inl Diverges"
| "readVector (Suc n) b ret pos =
     rbind (unpackByte b pos) (\<lambda>(byte, pos).
       case byte of None \<Rightarrow> Inr (ret, pos)
       | Some byte \<Rightarrow>
           if byte = CHR ''i'' then
             rbind (readUint b pos) (\<lambda>(u, pos). readVector n b (ret @ [AUint64 u]) pos)
           else if byte = CHR ''l'' then
             rbind (readVector n b [] pos) (\<lambda>(v, pos). readVector n b (ret @ [AVec v]) pos)
           else if byte = CHR ''d'' then
             rbind (readDictionary n b [] pos) (\<lambda>(d, pos). readVector n b (ret @ [ADict d]) pos)
           else if byte = CHR ''e'' then Inr (ret, pos)
           else
             rbind (readString b (pos - 1)) (\<lambda>(s, pos). readVector n b (ret @ [AString s]) pos))"
| "readDictionary 0 b ret pos = Inl Diverges"
| "readDictionary (Suc n) b ret pos =
     rbind (readString b pos) (\<lambda>(key, pos).
       if key = [] then Inr ([], pos)
       else rbind (unpackByte b pos) (\<lambda>(byte, pos).
         case byte of None \<Rightarrow> Inr ([], pos)
         | Some byte \<Rightarrow>
             rbind
               (if byte = CHR ''i'' then rbind (readUint b pos) (\<lambda>(u, pos). Inr (AUint64 u, pos))
                else if byte = CHR ''l'' then rbind (readVector n b [] pos) (\<lambda>(v, pos). Inr (AVec v, pos))
                else if byte = CHR ''d'' then rbind (readDictionary n b [] pos) (\<lambda>(d, pos). Inr (ADict d, pos))
                else rbind (readString b (pos - 1)) (\<lambda>(s, pos). Inr (AString s, pos)))
               (\<lambda>(v, pos).
                 let ret = map_put key v ret in
                 rbind (unpackByte b pos) (\<lambda>(byte, pos).
                   case byte of None \<Rightarrow> Inr ([], pos)
                   | Some byte \<Rightarrow>
                       if byte = CHR ''e'' then Inr (ret, pos)
                       else readDictionary n b ret (pos - 1)))))"

definition decode :: "bencode \<Rightarrow> char option list \<Rightarrow> nat \<Rightarrow> (dictionary \<times> bencode) res" where
  "decode bc data n =
     rbind (load data 0) (\<lambda>c.
       if c \<noteq> CHR ''d'' then Inr ([], bc)
       else rbind (db_setData (bc_buffer bc) (drop 1 data) (n - 1)) (\<lambda>b.
         rbind (readDictionary (db_capacity b + 1) b [] (bc_pos bc)) (\<lambda>(d, pos).
           Inr (d, \<lparr>bc_buffer = b, bc_pos = pos\<rparr>))))"

text \<open>\<open>decode(fileName)\<close>: \<open>None\<close> is a file that cannot be opened.\<close>

definition decode_file :: "bencode \<Rightarrow> string option \<Rightarrow> (dictionary \<times> bencode) res" where
  "decode_file bc file =
     (case file of None \<Rightarrow> Inr ([], bc)
      | Some bytes \<Rightarrow> decode bc (map Some bytes) (length bytes))"

definition buffer :: "bencode \<Rightarrow> nat \<Rightarrow> (char option list \<times> nat) res" where
  "buffer bc pos =
     (let bufferSize = sub64 (db_size (bc_buffer bc)) pos in
      rbind (db_addr (bc_buffer bc) pos) (\<lambda>p. Inr (drop p (db_buffer (bc_buffer bc)), bufferSize)))"

section \<open>The encoder (encoder.cpp)\<close>

definition bc_add :: "char \<Rightarrow> bencode \<Rightarrow> bencode res" where
  "bc_add c b = rbind (db_add (bc_buffer b) c) (\<lambda>m. Inr (b\<lparr>bc_buffer := m\<rparr>))"

text \<open>\<open>m_buffer.add(c); ++m_pos;\<close>\<close>

definition bc_put :: "char \<Rightarrow> bencode \<Rightarrow> bencode res" where
  "bc_put c b = rbind (bc_add c b) (\<lambda>b. Inr (b\<lparr>bc_pos := bc_pos b + 1\<rparr>))"

definition internalWriteString :: "string \<Rightarrow> bencode \<Rightarrow> bencode res" where
  "internalWriteString str b =
     rbind (rfold bc_add str b) (\<lambda>b. Inr (b\<lparr>bc_pos := bc_pos b + length str\<rparr>))"

definition writeString :: "string \<Rightarrow> bencode \<Rightarrow> bencode res" where
  "writeString str b =
     rbind (internalWriteString (to_string (length str)) b) (\<lambda>b.
     rbind (bc_put CHR '':'' b) (internalWriteString str))"

definition writeInt :: "64 word \<Rightarrow> bencode \<Rightarrow> bencode res" where
  "writeInt i b =
     rbind (bc_put CHR ''i'' b) (\<lambda>b.
     rbind (internalWriteString (to_string_int (sint i)) b) (bc_put CHR ''e''))"

definition writeUint :: "64 word \<Rightarrow> bencode \<Rightarrow> bencode res" where
  "writeUint i b =
     rbind (bc_put CHR ''i'' b) (\<lambda>b.
     rbind (internalWriteString (to_string (unat i)) b) (bc_put CHR ''e''))"

fun writeType :: "any \<Rightarrow> bencode \<Rightarrow> bencode res" where
  "writeType (AInt64 i) b = writeInt i b"
| "writeType (AUint64 i) b = writeUint i b"
| "writeType (AInt32 i) b = writeInt (scast i) b"
| "writeType (AUint32 i) b = writeUint (ucast i) b"
| "writeType (AString s) b = writeString s b"
| "writeType (ACString s) b = writeString s b"
| "writeType (ADict d) b =
     rbind (bc_put CHR ''d'' b) (\<lambda>b.
     rbind (rfold (\<lambda>p b. rbind (writeString (fst p) b) (\<lambda>b. writeType (snd p) b)) d b) (\<lambda>b.
       bc_put CHR ''e'' b))"
| "writeType (AVec vs) b =
     rbind (bc_put CHR ''l'' b) (\<lambda>b.
     rbind (rfold (\<lambda>v b. writeType v b) vs b) (\<lambda>b. bc_put CHR ''e'' b))"
| "writeType AEmpty b = Inr b"
| "writeType AOther b = Inr b"

definition writeVector :: "any list \<Rightarrow> bencode \<Rightarrow> bencode res" where
  "writeVector vs b =
     rbind (bc_put CHR ''l'' b) (\<lambda>b.
     rbind (rfold writeType vs b) (bc_put CHR ''e''))"

definition writeDictionary :: "dictionary \<Rightarrow> bencode \<Rightarrow> bencode res" where
  "writeDictionary d b =
     rbind (bc_put CHR ''d'' b) (\<lambda>b.
     rbind (rfold (\<lambda>p b. rbind (writeString (fst p) b) (writeType (snd p))) d b) (bc_put CHR ''e''))"

definition encode :: "dictionary \<Rightarrow> bencode \<Rightarrow> bencode res" where
  "encode d b = writeDictionary d (b\<lparr>bc_buffer := db_setSize (bc_buffer b) (bc_pos b)\<rparr>)"

lemma writeType_containers:
  "writeType (ADict d) b = writeDictionary d b" "writeType (AVec vs) b = writeVector vs b"
  by (simp_all add: writeDictionary_def writeVector_def)


section \<open>The encoding as a function\<close>

definition benc_string :: "string \<Rightarrow> string" where
  "benc_string s = to_string (length s) @ CHR '':'' # s"

definition benc_nat :: "nat \<Rightarrow> string" where
  "benc_nat n = CHR ''i'' # to_string n @ ''e''"

definition benc_int :: "int \<Rightarrow> string" where
  "benc_int i = CHR ''i'' # to_string_int i @ ''e''"

fun benc :: "any \<Rightarrow> string" where
  "benc (AInt64 i) = benc_int (sint i)"
| "benc (AUint64 i) = benc_nat (unat i)"
| "benc (AInt32 i) = benc_int (sint i)"
| "benc (AUint32 i) = benc_nat (unat i)"
| "benc (AString s) = benc_string s"
| "benc (ACString s) = benc_string s"
| "benc (ADict d) = CHR ''d'' # concat (map (\<lambda>p. benc_string (fst p) @ benc (snd p)) d) @ ''e''"
| "benc (AVec vs) = CHR ''l'' # concat (map benc vs) @ ''e''"
| "benc AEmpty = []"
| "benc AOther = []"

abbreviation benc_items :: "any list \<Rightarrow> string" where
  "benc_items vs \<equiv> concat (map benc vs)"

abbreviation benc_entries :: "dictionary \<Rightarrow> string" where
  "benc_entries d \<equiv> concat (map (\<lambda>p. benc_string (fst p) @ benc (snd p)) d)"

text \<open>The object's buffer is used up to its position, and holds \<open>s\<close> there.\<close>

definition bc_holds :: "bencode \<Rightarrow> string \<Rightarrow> bool" where
  "bc_holds b s \<longleftrightarrow> db_holds (bc_buffer b) s \<and> bc_pos b = length s"

lemma bc_put_holds: "bc_holds b s \<Longrightarrow> \<exists>b'. bc_put c b = Inr b' \<and> bc_holds b' (s @ [c])"
  using db.append1 [of "bc_buffer b" s c] by (auto simp: bc_holds_def bc_put_def bc_add_def)

interpretation bc: append_buffer bc_holds bc_put
  by unfold_locales (rule bc_put_holds)

text \<open>What the writers have in common: started on a buffer that holds \<open>s\<close> they leave \<open>s @ t\<close>.\<close>

definition appends :: "(bencode \<Rightarrow> bencode res) \<Rightarrow> string \<Rightarrow> bool" where
  "appends f t \<longleftrightarrow> (\<forall>b s. bc_holds b s \<longrightarrow> (\<exists>b'. f b = Inr b' \<and> bc_holds b' (s @ t)))"

named_theorems appends_intros "what each writer appends"

lemma appends_put [appends_intros]: "appends (bc_put c) [c]"
  using bc_put_holds by (auto simp: appends_def)

lemma appends_bind [appends_intros]:
  "appends f s \<Longrightarrow> appends g t \<Longrightarrow> appends (\<lambda>b. rbind (f b) g) (s @ t)"
  unfolding appends_def by (metis append_assoc rbind.simps(2))

lemma appends_Inr [appends_intros]: "appends Inr []"
  by (simp add: appends_def)

lemma appends_rfold [appends_intros]:
  "(\<And>x. x \<in> set xs \<Longrightarrow> appends (f x) (g x)) \<Longrightarrow> appends (rfold f xs) (concat (map g xs))"
proof (induction xs)
  case Nil
  then show ?case by (simp add: appends_def)
next
  case (Cons x xs)
  then have "appends (\<lambda>b. rbind (f x b) (rfold f xs)) (g x @ concat (map g xs))"
    by (intro appends_bind) auto
  moreover have "rfold f (x # xs) = (\<lambda>b. rbind (f x b) (rfold f xs))" by auto
  ultimately show ?case by simp
qed

lemma appends_internalWriteString [appends_intros]: "appends (internalWriteString t) t"
proof -
  have "\<exists>b'. rfold bc_add t b = Inr b' \<and> db_holds (bc_buffer b') (s @ t) \<and> bc_pos b' = bc_pos b"
    if "db_holds (bc_buffer b) s" for b s
    using that
  proof (induction t arbitrary: b s)
    case (Cons c t)
    obtain m where m: "db_add (bc_buffer b) c = Inr m" "db_holds m (s @ [c])"
      using db.append1 [OF Cons.prems] by blast
    then show ?case
      using Cons.IH [of "b\<lparr>bc_buffer := m\<rparr>" "s @ [c]"] by (auto simp: bc_add_def)
  qed simp
  then show ?thesis
    unfolding appends_def internalWriteString_def bc_holds_def by fastforce
qed

lemma appends_writeString [appends_intros]: "appends (writeString s) (benc_string s)"
  using appends_bind [OF appends_internalWriteString appends_bind [OF appends_put appends_internalWriteString]]
  unfolding writeString_def benc_string_def by simp

lemma appends_writeInt [appends_intros]: "appends (writeInt i) (benc_int (sint i))"
  using appends_bind [OF appends_put appends_bind [OF appends_internalWriteString appends_put]]
  unfolding writeInt_def benc_int_def by simp

lemma appends_writeUint [appends_intros]: "appends (writeUint i) (benc_nat (unat i))"
  using appends_bind [OF appends_put appends_bind [OF appends_internalWriteString appends_put]]
  unfolding writeUint_def benc_nat_def by simp

lemma sint_scast_32: "sint (scast (i :: 32 word) :: 64 word) = sint i"
  by (rule sint_up_scast) (simp add: is_up)

lemma unat_ucast_32: "unat (ucast (i :: 32 word) :: 64 word) = unat i"
proof -
  have "unat i < 2 ^ LENGTH(32)" by (rule unsigned_less)
  then have "unat i < 2 ^ 64" by simp
  then show ?thesis by (simp add: unsigned_ucast_eq take_bit_nat_eq_self)
qed

lemma appends_writeType [appends_intros]: "appends (writeType v) (benc v)"
proof (induction v rule: benc.induct)
  case (7 d)
  have "appends (\<lambda>b. rbind (writeString (fst p) b) (writeType (snd p))) (benc_string (fst p) @ benc (snd p))"
    if "p \<in> set d" for p
    using 7 [OF that] by (intro appends_intros)
  then have entries: "appends (rfold (\<lambda>p b. rbind (writeString (fst p) b) (writeType (snd p))) d) (benc_entries d)"
    by (rule appends_rfold)
  have "appends (\<lambda>b. rbind (bc_put CHR ''d'' b) (\<lambda>b.
      rbind (rfold (\<lambda>p b. rbind (writeString (fst p) b) (writeType (snd p))) d b) (bc_put CHR ''e'')))
      ([CHR ''d''] @ benc_entries d @ [CHR ''e''])"
    by (intro appends_bind appends_put entries)
  then show ?case by simp
next
  case (8 vs)
  then have "appends (\<lambda>b. rbind (bc_put CHR ''l'' b) (\<lambda>b. rbind (rfold writeType vs b) (bc_put CHR ''e'')))
      ([CHR ''l''] @ benc_items vs @ [CHR ''e''])"
    by (intro appends_bind appends_put appends_rfold)
  then show ?case by simp
qed (use appends_writeInt appends_writeUint appends_writeString appends_Inr in
    \<open>force simp: sint_scast_32 unat_ucast_32 appends_def\<close>)+


lemma encode_appends:
  assumes "db_wf (bc_buffer b)" "0 < db_capacity (bc_buffer b)"
    and "take (bc_pos b) (db_buffer (bc_buffer b)) = map Some t" "length t = bc_pos b"
  shows "\<exists>b'. encode d b = Inr b' \<and> bc_holds b' (t @ benc (ADict d))"
proof -
  have "length t = min (length (db_buffer (bc_buffer b))) (bc_pos b)"
    using assms(3) by (metis length_map length_take)
  with assms have "bc_pos b \<le> db_capacity (bc_buffer b)" by (metis db_wf_def min.cobounded1)
  with assms have "bc_holds (b\<lparr>bc_buffer := db_setSize (bc_buffer b) (bc_pos b)\<rparr>) t"
    by (auto simp: bc_holds_def db_holds_def db_wf_def db_cells_def db_setSize_def)
  then show ?thesis
    using appends_writeType [of "ADict d"]
    unfolding encode_def writeType_containers(1) [symmetric] appends_def by blast
qed

text \<open>What \<open>buffer\<close> then points at is the encoding.\<close>

lemma buffer_of_encoding:
  assumes "bc_holds b (t @ e)" "e \<noteq> []" "length (t @ e) < 2 ^ 64"
  shows "\<exists>cells. buffer b (length t) = Inr (cells, length e) \<and> slice cells 0 (length e) = Inr (map Some e)"
proof -
  let ?m = "bc_buffer b"
  from assms(1) have wf: "db_wf ?m" and cells: "take (db_size ?m) (db_buffer ?m) = map Some (t @ e)"
    by (auto simp: bc_holds_def db_holds_def db_cells_def)
  have len: "db_size ?m = length t + length e"
    using db_holds_size assms(1) by (fastforce simp: bc_holds_def)
  have "length t < db_capacity ?m"
    using wf len assms(2) by (cases e) (auto simp: db_wf_def)
  moreover have "sub64 (db_size ?m) (length t) = length e"
    using len assms(3) by (simp add: sub64_small)
  moreover have "take (length e) (drop (length t) (db_buffer ?m)) = map Some e"
    using arg_cong [OF cells, of "drop (length t)"] len by (simp add: drop_take)
  ultimately show ?thesis
    using wf len by (auto simp: buffer_def db_addr_def slice_def db_wf_def)
qed

section \<open>The decoder on its input\<close>

text \<open>The buffer after \<open>setData\<close>.\<close>

definition input :: "char data_buffer \<Rightarrow> string \<Rightarrow> bool" where
  "input b cs \<longleftrightarrow> db_buffer b = map Some cs \<and> db_capacity b = length cs \<and> db_size b = 0"

lemma input_sel [simp]:
  assumes "input b cs"
  shows "db_buffer b = map Some cs" "db_capacity b = length cs"
  using assms by (simp_all add: input_def)

lemma input_rem: "input b cs \<Longrightarrow> length cs < 2 ^ 64 \<Longrightarrow> db_rem b = length cs"
  by (simp add: input_def db_rem_def sub64_small del: input_sel)

lemma input_at [simp]: "input b cs \<Longrightarrow> pos < length cs \<Longrightarrow> db_at b pos = Inr (cs ! pos)"
  by (simp add: db_at_def db_addr_def)

lemma input_at_end [simp]: "input b cs \<Longrightarrow> length cs \<le> pos \<Longrightarrow> db_at b pos = Inl AssertionFailure"
  by (simp add: db_at_def db_addr_def)

lemma unpackByte_at [simp]:
  "input b cs \<Longrightarrow> pos < length cs \<Longrightarrow> unpackByte b pos = Inr (Some (cs ! pos), pos + 1)"
  "input b cs \<Longrightarrow> length cs \<le> pos \<Longrightarrow> unpackByte b pos = Inr (None, pos)"
  by (simp_all add: unpackByte_def)

lemma find_byte_at:
  "input b cs \<Longrightarrow> pos \<le> length cs \<Longrightarrow>
    find_byte b c pos = Inr (pos + length (takeWhile (\<lambda>x. x \<noteq> c) (drop pos cs)))"
proof (induction b c pos rule: find_byte.induct)
  case (1 b c pos)
  show ?case
  proof (cases "pos < length cs")
    case True
    then have "drop pos cs = cs ! pos # drop (pos + 1) cs"
      by (simp add: Cons_nth_drop_Suc)
    with 1 True show ?thesis by (subst find_byte.simps) auto
  next
    case False
    with 1 show ?thesis by (subst find_byte.simps) simp
  qed
qed

lemma readIntUntil_found:
  assumes "input b (pre @ s @ c # post)" "c \<notin> set s" "length (pre @ s @ c # post) < 2 ^ 64"
  shows "readIntUntil scan b c old (length pre) = Inr (True, scan s old, length pre + length s + 1)"
proof -
  have "find_byte b c (length pre) = Inr (length pre + length s)"
    using find_byte_at [OF assms(1), of "length pre" c] assms(2)
    by (simp add: takeWhile_stop)
  then show ?thesis
    using assms input_rem [OF assms(1)]
    by (simp add: readIntUntil_def nth_append db_addr_def slice_def take_map drop_map)
qed

lemma readIntUntil_missing:
  assumes "input b cs" "pos \<le> length cs" "c \<notin> set (drop pos cs)"
  shows "readIntUntil scan b c old pos = Inl AssertionFailure"
proof -
  have "takeWhile (\<lambda>x. x \<noteq> c) (drop pos cs) = drop pos cs"
    using assms(3) by (auto simp: takeWhile_eq_all_conv)
  then have "find_byte b c pos = Inr (length cs)"
    using find_byte_at [OF assms(1,2), of c] assms(2) by (simp only: length_drop) simp
  then show ?thesis
    using assms(1) by (simp add: readIntUntil_def)
qed

text \<open>It either aborts, or consumes at least the delimiter and reports success.\<close>

lemma readIntUntil_cases:
  assumes "input b cs" "pos \<le> length cs" "length cs < 2 ^ 64"
  obtains "readIntUntil scan b c old pos = Inl AssertionFailure"
  | v pos' where "readIntUntil scan b c old pos = Inr (True, v, pos')" "pos < pos'" "pos' \<le> length cs"
proof (cases "c \<in> set (drop pos cs)")
  case False
  with assms readIntUntil_missing that(1) show thesis by blast
next
  case True
  then obtain s post where sp: "drop pos cs = s @ c # post" "c \<notin> set s"
    by (metis split_list_first)
  obtain pre where pre: "pre = take pos cs" by blast
  have cs: "cs = pre @ s @ c # post" "length pre = pos"
    using sp(1) assms(2) append_take_drop_id [of pos cs] by (auto simp: pre)
  have "readIntUntil scan b c old (length pre) = Inr (True, scan s old, length pre + length s + 1)"
    using assms(1) sp(2) assms(3) unfolding cs(1) by (rule readIntUntil_found)
  moreover have "length cs = length pre + length s + 1 + length post"
    unfolding cs(1) by simp
  ultimately show thesis using that(2) cs(2) by simp
qed

lemma readUint_cases:
  assumes "input b cs" "pos \<le> length cs" "length cs < 2 ^ 64"
  obtains e where "readUint b pos = Inl e" "e \<in> {AssertionFailure, Uninitialised}"
  | u pos' where "readUint b pos = Inr (u, pos')" "pos < pos'" "pos' \<le> length cs"
proof (rule readIntUntil_cases [OF assms, of extract_u64 "CHR ''e''" None])
  assume "readIntUntil extract_u64 b CHR ''e'' None pos = Inl AssertionFailure"
  then show thesis using that(1) by (simp add: readUint_def)
next
  fix v pos'
  assume "readIntUntil extract_u64 b CHR ''e'' None pos = Inr (True, v, pos')" "pos < pos'"
    "pos' \<le> length cs"
  then show thesis using that by (cases v) (simp_all add: readUint_def use_value_def)
qed

lemma readString_cases:
  assumes "input b cs" "pos \<le> length cs" "length cs < 2 ^ 64"
  obtains e where "readString b pos = Inl e" "e \<in> {AssertionFailure, Uninitialised, OutOfBounds}"
  | s pos' where "readString b pos = Inr (s, pos')" "pos < pos'" "pos' \<le> length cs"
proof (rule readIntUntil_cases [OF assms, of extract_u64 "CHR '':''" None])
  assume "readIntUntil extract_u64 b CHR '':'' None pos = Inl AssertionFailure"
  then show thesis using that(1) by (simp add: readString_def)
next
  fix v pos'
  assume 1: "readIntUntil extract_u64 b CHR '':'' None pos = Inr (True, v, pos')" "pos < pos'"
    "pos' \<le> length cs"
  show thesis
  proof (cases v)
    case None
    with 1 show thesis using that(1) by (simp add: readString_def use_value_def)
  next
    case (Some len)
    consider "add64 (unat len) pos' > length cs" | "add64 (unat len) pos' \<le> length cs" "length cs \<le> pos'"
      | "add64 (unat len) pos' \<le> length cs" "pos' < length cs" "length cs < pos' + unat len"
      | "add64 (unat len) pos' \<le> length cs" "pos' < length cs" "pos' + unat len \<le> length cs"
      by linarith
    then show thesis
      using 1 assms Some that
      by cases (auto simp: readString_def use_value_def db_addr_def slice_def take_map drop_map)
  qed
qed


section \<open>Termination and faults of the decoder\<close>

abbreviation decoder_faults :: "fault set" where
  "decoder_faults \<equiv> {AssertionFailure, Uninitialised, OutOfBounds}"

text \<open>A reader started at \<open>pos\<close> either faults in one of the expected ways, or stays inside the buffer
  and consumes something.\<close>

definition advances :: "nat \<Rightarrow> nat \<Rightarrow> ('v \<times> nat) res \<Rightarrow> bool" where
  "advances pos n r \<longleftrightarrow>
     (case r of Inl e \<Rightarrow> e \<in> decoder_faults | Inr (_, pos') \<Rightarrow> pos < pos' \<and> pos' \<le> n)"

lemma advances_readUint: "input b cs \<Longrightarrow> pos \<le> length cs \<Longrightarrow> length cs < 2 ^ 64 \<Longrightarrow>
    advances pos (length cs) (readUint b pos)"
  by (erule (2) readUint_cases [of b cs pos]) (auto simp: advances_def)

lemma advances_readString: "input b cs \<Longrightarrow> pos \<le> length cs \<Longrightarrow> length cs < 2 ^ 64 \<Longrightarrow>
    advances pos (length cs) (readString b pos)"
  by (erule (2) readString_cases [of b cs pos]) (auto simp: advances_def)

lemma advances_bind:
  assumes "advances p n r" "\<And>v p'. r = Inr (v, p') \<Longrightarrow> p < p' \<Longrightarrow> p' \<le> n \<Longrightarrow> advances q n (f (v, p'))"
  shows "advances q n (rbind r f)"
  using assms by (cases r) (auto simp: advances_def)

lemma advances_mono: "advances p n r \<Longrightarrow> q \<le> p \<Longrightarrow> advances q n r"
  by (auto simp: advances_def split: sum.splits)

lemma advances_Inr [simp]: "advances q n (Inr (v, p)) \<longleftrightarrow> q < p \<and> p \<le> n"
  by (simp add: advances_def)

text \<open>The two halves of the body of \<open>readDictionary\<close>: the switch, and what follows it.\<close>

definition dict_item ::
  "(nat \<Rightarrow> (any list \<times> nat) res) \<Rightarrow> (nat \<Rightarrow> (dictionary \<times> nat) res) \<Rightarrow> char data_buffer \<Rightarrow> char \<Rightarrow> nat \<Rightarrow>
    (any \<times> nat) res" where
  "dict_item V D b byte p =
     (if byte = CHR ''i'' then rbind (readUint b p) (\<lambda>(u, p). Inr (AUint64 u, p))
      else if byte = CHR ''l'' then rbind (V p) (\<lambda>(v, p). Inr (AVec v, p))
      else if byte = CHR ''d'' then rbind (D p) (\<lambda>(d, p). Inr (ADict d, p))
      else rbind (readString b (p - 1)) (\<lambda>(s, p). Inr (AString s, p)))"

definition dict_next ::
  "(dictionary \<Rightarrow> nat \<Rightarrow> (dictionary \<times> nat) res) \<Rightarrow> char data_buffer \<Rightarrow> dictionary \<Rightarrow> nat \<Rightarrow>
    (dictionary \<times> nat) res" where
  "dict_next D b ret p = rbind (unpackByte b p) (\<lambda>(byte, p).
     case byte of None \<Rightarrow> Inr ([], p)
     | Some byte \<Rightarrow> if byte = CHR ''e'' then Inr (ret, p) else D ret (p - 1))"

lemma readDictionary_unfold:
  "readDictionary (Suc n) b ret pos =
     rbind (readString b pos) (\<lambda>(key, p).
       if key = [] then Inr ([], p)
       else rbind (unpackByte b p) (\<lambda>(byte, p).
         case byte of None \<Rightarrow> Inr ([], p)
         | Some byte \<Rightarrow> rbind (dict_item (readVector n b []) (readDictionary n b []) b byte p)
             (\<lambda>(v, p). dict_next (readDictionary n b) b (map_put key v ret) p)))"
  unfolding readDictionary.simps dict_item_def dict_next_def Let_def ..

lemma advances_dict_item:
  assumes "input b cs" "length cs < 2 ^ 64" "p < length cs"
    and "advances p (length cs) (V (p + 1))" "advances p (length cs) (D (p + 1))"
  shows "advances p (length cs) (dict_item V D b byte (p + 1))"
  using assms advances_readUint [OF assms(1) _ assms(2), of "p + 1"]
    advances_readString [OF assms(1) _ assms(2), of p]
  by (auto simp: dict_item_def elim!: advances_bind)

lemma advances_dict_next:
  assumes "input b cs" "pos < p" "p \<le> length cs" "p < length cs \<Longrightarrow> advances pos (length cs) (D ret p)"
  shows "advances pos (length cs) (dict_next D b ret p)"
  using assms by (cases "p < length cs") (auto simp: dict_next_def)

lemma readVector_step:
  assumes "input b cs" "length cs < 2 ^ 64" "pos < length cs"
    and V: "\<And>p ws. pos < p \<Longrightarrow> p \<le> length cs \<Longrightarrow> advances pos (length cs) (readVector fuel b ws p)"
    and D: "advances pos (length cs) (readDictionary fuel b [] (pos + 1))"
  shows "advances pos (length cs) (readVector (Suc fuel) b vs pos)"
proof -
  let ?n = "length cs"
  have U: "advances p ?n (readUint b p)" "advances p ?n (readString b p)" if "p \<le> ?n" for p
    using advances_readUint advances_readString assms(1,2) that by blast+
  have "advances pos ?n (rbind (readUint b (pos + 1)) (\<lambda>(u, p). readVector fuel b (f u) p))"
    "advances pos ?n (rbind (readString b pos) (\<lambda>(s, p). readVector fuel b (g s) p))"
    "advances pos ?n (rbind (readVector fuel b [] (pos + 1)) (\<lambda>(v, p). readVector fuel b (h v) p))"
    "advances pos ?n (rbind (readDictionary fuel b [] (pos + 1)) (\<lambda>(e, p). readVector fuel b (k e) p))"
    for f g h k
    using assms(3) by (auto intro!: V advances_bind [OF U(1)] advances_bind [OF U(2)] advances_bind [OF V]
        advances_bind [OF D, simplified])
  with assms(1,3) show ?thesis by simp
qed

lemma readDictionary_step:
  assumes "input b cs" "length cs < 2 ^ 64" "pos \<le> length cs"
    and V: "\<And>p. pos < p \<Longrightarrow> p < length cs \<Longrightarrow> advances p (length cs) (readVector fuel b [] (p + 1))"
    and D: "\<And>p e. pos < p \<Longrightarrow> p \<le> length cs \<Longrightarrow> advances p (length cs) (readDictionary fuel b e p)"
  shows "advances pos (length cs) (readDictionary (Suc fuel) b d pos)"
  unfolding readDictionary_unfold
proof (rule advances_bind [OF advances_readString [OF assms(1,3,2)]], unfold prod.case)
  fix key :: string and p
  assume p: "pos < p" "p \<le> length cs"
  let ?V = "readVector fuel b []" and ?D = "readDictionary fuel b"
  show "advances pos (length cs) (if key = [] then Inr ([], p)
    else rbind (unpackByte b p) (\<lambda>(byte, p). case byte of None \<Rightarrow> Inr ([], p)
      | Some byte \<Rightarrow> rbind (dict_item ?V (?D []) b byte p) (\<lambda>(v, p). dict_next ?D b (map_put key v d) p)))"
  proof (cases "key = [] \<or> p = length cs")
    case True
    then show ?thesis using p assms(1) by auto
  next
    case False
    then have "p < length cs" using p by simp
    have D': "advances p (length cs) (readDictionary fuel b [] (p + 1))"
      using D [of "p + 1" "[]"] p \<open>p < length cs\<close> by (auto intro: advances_mono)
    have next_ok: "advances pos (length cs) (dict_next ?D b ret q)" if "p < q" "q \<le> length cs" for q ret
      using that p D [of q ret] assms(1) by (intro advances_dict_next [where cs = cs]) (auto intro: advances_mono)
    have item: "advances p (length cs) (dict_item ?V (?D []) b (cs ! p) (p + 1))"
      using assms(1,2) \<open>p < length cs\<close> V [OF p(1) \<open>p < length cs\<close>] D' by (rule advances_dict_item)
    have "advances pos (length cs) (rbind (dict_item ?V (?D []) b (cs ! p) (p + 1))
        (\<lambda>(v, p). dict_next ?D b (map_put key v d) p))"
      by (rule advances_bind [OF item]) (simp only: prod.case next_ok)
    then show ?thesis
      using False p assms(1) by simp
  qed
qed

lemma readers_advance:
  assumes "input b cs" "length cs < 2 ^ 64"
  shows "pos \<le> length cs \<Longrightarrow> length cs - pos < fuel \<Longrightarrow>
      (0 < pos \<longrightarrow> advances (pos - 1) (length cs) (readVector fuel b vs pos)) \<and>
      advances pos (length cs) (readDictionary fuel b d pos)"
proof (induction fuel arbitrary: pos vs d)
  case 0
  then show ?case by simp
next
  case (Suc fuel)
  let ?n = "length cs"
  have IH: "advances (p - 1) ?n (readVector fuel b ws p)" "advances p ?n (readDictionary fuel b e p)"
    if "pos < p" "p \<le> ?n" for p ws e
    using Suc.IH [of p ws e] Suc.prems that by auto
  have V: "advances pos ?n (readVector fuel b ws p)" and D: "advances pos ?n (readDictionary fuel b e p)"
    if "pos < p" "p \<le> ?n" for p ws e
    using advances_mono [OF IH(1) [OF that]] advances_mono [OF IH(2) [OF that]] that by auto
  have "advances p ?n (readVector fuel b [] (p + 1))" if "pos < p" "p < ?n" for p
    using IH(1) [of "p + 1"] that by simp
  then have dict: "advances pos ?n (readDictionary (Suc fuel) b d pos)"
    using Suc.prems IH(2) by (intro readDictionary_step [OF assms])
  have vec: "advances pos ?n (readVector (Suc fuel) b vs pos)" if "pos < ?n"
    using that V D by (intro readVector_step [OF assms]) auto
  show ?case
    using vec dict Suc.prems assms(1) by (cases "pos = ?n") (auto intro: advances_mono)
qed


section \<open>Decoding what was encoded\<close>

text \<open>The wire format does not keep the dynamic type: every integer comes back as the 64-bit unsigned
  word with the same bits, every string as a \<open>std::string\<close>.\<close>

fun norm :: "any \<Rightarrow> any" where
  "norm (AInt64 i) = AUint64 i"
| "norm (AUint64 i) = AUint64 i"
| "norm (AInt32 i) = AUint64 (scast i)"
| "norm (AUint32 i) = AUint64 (ucast i)"
| "norm (AString s) = AString s"
| "norm (ACString s) = AString s"
| "norm (ADict d) = ADict (map (\<lambda>p. (fst p, norm (snd p))) d)"
| "norm (AVec vs) = AVec (map norm vs)"
| "norm AEmpty = AEmpty"
| "norm AOther = AOther"

abbreviation norm_entries :: "dictionary \<Rightarrow> dictionary" where
  "norm_entries d \<equiv> map (\<lambda>p. (fst p, norm (snd p))) d"

text \<open>Dictionaries that are not empty, with keys in order and not empty, and only types the encoder
  writes: what the format of this decoder can express.\<close>

fun encodable :: "any \<Rightarrow> bool" where
  "encodable (ADict d) \<longleftrightarrow>
     d \<noteq> [] \<and> map_ordered d \<and> list_all (\<lambda>p. fst p \<noteq> [] \<and> encodable (snd p)) d"
| "encodable (AVec vs) \<longleftrightarrow> list_all encodable vs"
| "encodable AEmpty \<longleftrightarrow> False"
| "encodable AOther \<longleftrightarrow> False"
| "encodable _ \<longleftrightarrow> True"

lemma readUint_at:
  assumes "input b (pre @ t @ CHR ''e'' # post)" "CHR ''e'' \<notin> set t" "db_capacity b < 2 ^ 64"
    and "extract_u64 t None = Some u"
  shows "readUint b (length pre) = Inr (u, length pre + length t + 1)"
  using readIntUntil_found [OF assms(1,2), of extract_u64 None] assms(3,4) input_sel(2) [OF assms(1)]
  by (simp add: readUint_def use_value_def)

lemma no_letter_to_string [simp]:
  "\<not> is_digit c \<Longrightarrow> c \<notin> set (to_string n)"
  "\<not> is_digit c \<Longrightarrow> c \<noteq> CHR ''-'' \<Longrightarrow> c \<notin> set (to_string_int i)"
  using digit_in_to_string by (auto simp: to_string_int_def)

lemma readUint_nat:
  assumes "input b (pre @ to_string (unat u) @ CHR ''e'' # post)" "db_capacity b < 2 ^ 64"
  shows "readUint b (length pre) = Inr (u, length pre + length (to_string (unat u)) + 1)"
proof -
  have "unat u < 2 ^ LENGTH(64)" by (rule unsigned_less)
  then have "extract_u64 (to_string (unat u)) None = Some u" by simp
  then show ?thesis
    using assms by (intro readUint_at) (auto simp: is_digit_def)
qed

lemma readUint_int:
  assumes "input b (pre @ to_string_int (sint i) @ CHR ''e'' # post)" "db_capacity b < 2 ^ 64"
  shows "readUint b (length pre) = Inr (i, length pre + length (to_string_int (sint i)) + 1)"
proof -
  have "- (2 ^ 63) \<le> sint i" "sint i < 2 ^ 63"
    using sint_greater_eq [of i] sint_less [of i] by simp_all
  then have "extract_u64 (to_string_int (sint i)) None = Some i"
    by (simp add: extract_to_string_int)
  then show ?thesis
    using assms by (intro readUint_at) (auto simp: is_digit_def)
qed

lemma readString_at:
  assumes "input b (pre @ benc_string s @ post)" "s \<noteq> [] \<or> post \<noteq> []" "db_capacity b < 2 ^ 64"
  shows "readString b (length pre) = Inr (s, length pre + length (benc_string s))"
proof -
  let ?t = "to_string (length s)"
  have cs: "input b (pre @ ?t @ CHR '':'' # s @ post)"
    using assms(1) by (simp add: benc_string_def)
  have total: "length pre + length ?t + 1 + length s + length post = db_capacity b"
    using input_sel(2) [OF cs] by simp
  then have len: "length s < 2 ^ 64" "length (pre @ ?t @ CHR '':'' # s @ post) < 2 ^ 64"
    using assms(3) by simp_all
  have "CHR '':'' \<notin> set ?t" by (simp add: is_digit_def)
  then have "readIntUntil extract_u64 b CHR '':'' None (length pre)
      = Inr (True, Some (of_nat (length s)), length pre + length ?t + 1)"
    using readIntUntil_found [OF cs, of extract_u64 None] len by simp
  moreover have "unat (of_nat (length s) :: u64) = length s"
    using len(1) by (simp add: unat_of_nat)
  moreover have "add64 (length s) (length pre + length ?t + 1) = length s + (length pre + length ?t + 1)"
    using total assms(3) by (intro add64_small) simp
  moreover have "length pre + length ?t + 1 < db_capacity b"
    using total assms(2) by (cases s; cases post) auto
  moreover have "slice (db_buffer b) (length pre + length ?t + 1) (length s) = Inr (map Some s)"
    using total by (simp add: slice_def input_sel(1) [OF cs])
  ultimately show ?thesis
    using total by (simp add: readString_def use_value_def db_addr_def benc_string_def)
qed

text \<open>Reading one item, at the place the two loops have in common.\<close>

definition reads_back :: "char data_buffer \<Rightarrow> any \<Rightarrow> bool" where
  "reads_back b v \<longleftrightarrow> (\<forall>pre post fuel. input b (pre @ benc v @ post) \<longrightarrow> post \<noteq> [] \<longrightarrow> length (benc v) \<le> fuel \<longrightarrow>
     dict_item (readVector fuel b []) (readDictionary fuel b []) b (hd (benc v)) (length pre + 1)
       = Inr (norm v, length pre + length (benc v)))"

lemma reads_backD:
  "reads_back b v \<Longrightarrow> input b (pre @ benc v @ post) \<Longrightarrow> post \<noteq> [] \<Longrightarrow> length (benc v) \<le> fuel \<Longrightarrow>
     dict_item (readVector fuel b []) (readDictionary fuel b []) b (hd (benc v)) (length pre + 1)
       = Inr (norm v, length pre + length (benc v))"
  unfolding reads_back_def by blast

lemma readVector_item:
  assumes "input b cs" "pos < length cs" "cs ! pos \<noteq> CHR ''e''"
  shows "readVector (Suc n) b ret pos =
    rbind (dict_item (readVector n b []) (readDictionary n b []) b (cs ! pos) (pos + 1))
      (\<lambda>(v, p). readVector n b (ret @ [v]) p)"
  using assms by (simp add: rbind_assoc case_prod_beta' dict_item_def)

lemma digit_char_not_e: "is_digit c \<Longrightarrow> c \<noteq> CHR ''e''"
  by (auto simp: is_digit_def)

lemma benc_first:
  assumes "encodable v"
  obtains c t where "benc v = c # t" "c \<noteq> CHR ''e''"
proof (cases v)
  case (AString s)
  then show thesis using that to_string_Cons [of "length s"]
    by (metis append_Cons benc.simps(5) benc_string_def digit_char_not_e)
next
  case (ACString s)
  then show thesis using that to_string_Cons [of "length s"]
    by (metis append_Cons benc.simps(6) benc_string_def digit_char_not_e)
qed (use assms that in \<open>auto simp: benc_int_def benc_nat_def\<close>)


lemma reads_items:
  assumes "db_capacity b < 2 ^ 64"
  shows "\<forall>v \<in> set vs. reads_back b v \<Longrightarrow> list_all encodable vs \<Longrightarrow>
    input b (pre @ benc_items vs @ CHR ''e'' # post) \<Longrightarrow> length (benc_items vs) < fuel \<Longrightarrow>
    readVector fuel b acc (length pre) = Inr (acc @ map norm vs, length pre + length (benc_items vs) + 1)"
proof (induction vs arbitrary: pre fuel acc)
  case Nil
  then obtain n where "fuel = Suc n" by (cases fuel) auto
  with Nil show ?case by (simp add: nth_append)
next
  case (Cons v vs)
  then obtain n where n: "fuel = Suc n" by (cases fuel) auto
  obtain c t where ct: "benc v = c # t" "c \<noteq> CHR ''e''"
    using Cons.prems benc_first [of v] by auto
  have in_v: "input b (pre @ benc v @ benc_items vs @ CHR ''e'' # post)"
    using Cons.prems by simp
  then have "dict_item (readVector n b []) (readDictionary n b []) b (hd (benc v)) (length pre + 1)
      = Inr (norm v, length pre + length (benc v))"
    using Cons.prems n by (intro reads_backD) auto
  moreover have "(pre @ benc v @ benc_items vs @ CHR ''e'' # post) ! length pre = c"
    using ct by (simp add: nth_append)
  ultimately have "readVector (Suc n) b acc (length pre)
      = readVector n b (acc @ [norm v]) (length (pre @ benc v))"
    using readVector_item [OF in_v, of "length pre" n acc] ct by simp
  also have "\<dots> = Inr ((acc @ [norm v]) @ map norm vs, length (pre @ benc v) + length (benc_items vs) + 1)"
    using Cons.prems n ct by (intro Cons.IH) auto
  finally show ?case
    by (simp add: n)
qed

lemma reads_entries:
  assumes "db_capacity b < 2 ^ 64"
  shows "\<forall>p \<in> set d. reads_back b (snd p) \<Longrightarrow> list_all (\<lambda>p. fst p \<noteq> [] \<and> encodable (snd p)) d \<Longrightarrow>
    d \<noteq> [] \<Longrightarrow> map_ordered (acc @ norm_entries d) \<Longrightarrow>
    input b (pre @ benc_entries d @ CHR ''e'' # post) \<Longrightarrow> length (benc_entries d) < fuel \<Longrightarrow>
    readDictionary fuel b acc (length pre) =
      Inr (acc @ norm_entries d, length pre + length (benc_entries d) + 1)"
proof (induction d arbitrary: pre fuel acc)
  case Nil
  then show ?case by simp
next
  case (Cons p d)
  obtain k v where p: "p = (k, v)" by (cases p)
  obtain n where n: "fuel = Suc n" using Cons.prems by (cases fuel) auto
  let ?cs = "pre @ benc_entries (p # d) @ CHR ''e'' # post"
  let ?pre' = "pre @ benc_string k" and ?pre'' = "pre @ benc_string k @ benc v"
  obtain c t where ct: "benc v = c # t" "c \<noteq> CHR ''e''"
    using Cons.prems benc_first [of v] p by auto
  have key: "readString b (length pre) = Inr (k, length ?pre')"
    using Cons.prems p assms readString_at [of b pre k "benc v @ benc_entries d @ CHR ''e'' # post"] by simp
  have byte: "unpackByte b (length ?pre') = Inr (Some c, length ?pre' + 1)"
    using unpackByte_at(1) [OF Cons.prems(5), of "length ?pre'"] p ct by (simp add: nth_append)
  have item: "dict_item (readVector n b []) (readDictionary n b []) b c (length ?pre' + 1)
      = Inr (norm v, length ?pre'')"
    using reads_backD [of b v ?pre' "benc_entries d @ CHR ''e'' # post" n] Cons.prems p n ct
    by simp
  have ret: "map_put k (norm v) acc = acc @ [(k, norm v)]"
    using Cons.prems(4) p by (intro map_put_last) (auto simp: map_ordered_def sorted_wrt_append)
  have step: "readDictionary fuel b acc (length pre)
      = dict_next (readDictionary n b) b (acc @ [(k, norm v)]) (length ?pre'')"
    using key byte item ret Cons.prems(2) p by (simp add: n readDictionary_unfold del: readDictionary.simps)
  show ?case
  proof (cases d)
    case Nil
    then show ?thesis
      using Cons.prems(5) p unpackByte_at(1) [OF Cons.prems(5), of "length ?pre''"]
      by (simp add: step dict_next_def nth_append)
  next
    case (Cons q ds)
    obtain c' t where t: "to_string (length (fst q)) = c' # t" "is_digit c'"
      by (rule to_string_Cons)
    then obtain t' where q: "benc_entries d = c' # t'" "is_digit c'"
      by (simp add: Cons benc_string_def)
    have "unpackByte b (length ?pre'') = Inr (Some c', length ?pre'' + 1)"
      using unpackByte_at(1) [OF Cons.prems(5), of "length ?pre''"] p q by (simp add: nth_append)
    then have "readDictionary fuel b acc (length pre)
        = readDictionary n b (acc @ [(k, norm v)]) (length ?pre'')"
      using q digit_char_not_e by (auto simp: step dict_next_def)
    also have "\<dots> = Inr ((acc @ [(k, norm v)]) @ norm_entries d, length ?pre'' + length (benc_entries d) + 1)"
      using Cons.prems p n \<open>d = q # ds\<close> by (intro Cons.IH) (auto simp: benc_string_def)
    finally show ?thesis by (simp add: p)
  qed
qed


lemma hd_to_string_switch:
  "hd (to_string n @ t) \<noteq> CHR ''i'' \<and> hd (to_string n @ t) \<noteq> CHR ''l'' \<and> hd (to_string n @ t) \<noteq> CHR ''d''"
  by (rule to_string_Cons [of n]) (auto simp: is_digit_def)

lemma reads_back_string:
  assumes "db_capacity b < 2 ^ 64" "benc v = benc_string s" "norm v = AString s"
  shows "reads_back b v"
  unfolding reads_back_def
proof (intro allI impI)
  fix pre post :: string and fuel :: nat
  assume "input b (pre @ benc v @ post)" "post \<noteq> []"
  then have "readString b (length pre) = Inr (s, length pre + length (benc_string s))"
    using readString_at assms by simp
  then show "dict_item (readVector fuel b []) (readDictionary fuel b []) b (hd (benc v)) (length pre + 1)
      = Inr (norm v, length pre + length (benc v))"
    using hd_to_string_switch [of "length s" "CHR '':'' # s"] assms(2,3)
    by (simp add: dict_item_def benc_string_def)
qed

lemma reads_back_integer:
  assumes "db_capacity b < 2 ^ 64" "norm v = AUint64 u"
    and "benc v = benc_nat (unat u) \<or> benc v = benc_int (sint u)"
  shows "reads_back b v"
  unfolding reads_back_def
proof (intro allI impI)
  fix pre post :: string and fuel :: nat
  assume "input b (pre @ benc v @ post)"
  then have "readUint b (length (pre @ ''i'')) = Inr (u, length pre + length (benc v))"
    using assms readUint_nat [of b "pre @ ''i''" u post] readUint_int [of b "pre @ ''i''" u post]
    by (auto simp: benc_nat_def benc_int_def)
  then show "dict_item (readVector fuel b []) (readDictionary fuel b []) b (hd (benc v)) (length pre + 1)
      = Inr (norm v, length pre + length (benc v))"
    using assms(2,3) by (auto simp: dict_item_def benc_nat_def benc_int_def)
qed

lemma reads_back_all:
  assumes "db_capacity b < 2 ^ 64"
  shows "encodable v \<Longrightarrow> reads_back b v"
proof (induction v rule: encodable.induct)
  case (1 d)
  show ?case
    unfolding reads_back_def
  proof (intro allI impI)
    fix pre post :: string and fuel :: nat
    assume *: "input b (pre @ benc (ADict d) @ post)" "length (benc (ADict d)) \<le> fuel"
    have "readDictionary fuel b [] (length (pre @ ''d''))
        = Inr ([] @ norm_entries d, length (pre @ ''d'') + length (benc_entries d) + 1)"
      using * 1 by (intro reads_entries [OF assms, where post = post])
        (auto simp: list_all_iff map_ordered_def comp_def)
    then show "dict_item (readVector fuel b []) (readDictionary fuel b []) b (hd (benc (ADict d))) (length pre + 1)
        = Inr (norm (ADict d), length pre + length (benc (ADict d)))"
      by (simp add: dict_item_def)
  qed
next
  case (2 vs)
  show ?case
    unfolding reads_back_def
  proof (intro allI impI)
    fix pre post :: string and fuel :: nat
    assume *: "input b (pre @ benc (AVec vs) @ post)" "length (benc (AVec vs)) \<le> fuel"
    have "readVector fuel b [] (length (pre @ ''l''))
        = Inr ([] @ map norm vs, length (pre @ ''l'') + length (benc_items vs) + 1)"
      using * 2 by (intro reads_items [OF assms, where post = post]) (auto simp: list_all_iff)
    then show "dict_item (readVector fuel b []) (readDictionary fuel b []) b (hd (benc (AVec vs))) (length pre + 1)
        = Inr (norm (AVec vs), length pre + length (benc (AVec vs)))"
      by (simp add: dict_item_def)
  qed
qed (auto intro: reads_back_string [OF assms] reads_back_integer [OF assms] simp: sint_scast_32 unat_ucast_32)


text \<open>On an object whose position is still 0.\<close>

lemma decode_benc:
  assumes "encodable (ADict d)" "length (benc (ADict d) @ rest) < 2 ^ 64" "bc_pos bc0 = 0"
  shows "\<exists>bc. decode bc0 (map Some (benc (ADict d) @ rest)) (length (benc (ADict d) @ rest))
      = Inr (norm_entries d, bc) \<and> bc_pos bc + 1 = length (benc (ADict d))"
proof -
  let ?cs = "benc_entries d @ CHR ''e'' # rest"
  define b where "b = \<lparr>db_size = 0, db_capacity = length ?cs, db_buffer = map Some ?cs\<rparr>"
  have in_b: "input b ([] @ ?cs)" by (simp add: b_def input_def)
  have setData: "db_setData (bc_buffer bc0) (drop 1 (map Some (benc (ADict d) @ rest)))
      (length (benc (ADict d) @ rest) - 1) = Inr b"
    by (cases "bc_buffer bc0") (simp add: db_setData_def b_def)
  have cap: "db_capacity b < 2 ^ 64" using assms(2) by (simp add: b_def)
  have "\<forall>p \<in> set d. reads_back b (snd p)"
    using assms(1) reads_back_all [OF cap] by (auto simp: list_all_iff)
  then have "readDictionary (db_capacity b + 1) b [] (length ([] :: string)) =
      Inr ([] @ norm_entries d, length ([] :: string) + length (benc_entries d) + 1)"
    using assms(1) in_b
    by (intro reads_entries [OF cap, where post = rest]) (auto simp: map_ordered_def comp_def b_def)
  then show ?thesis
    using setData assms(3) by (simp add: decode_def load_def)
qed

section \<open>Properties\<close>

text \<open>
  Property C13. Encoding refines the format: on a buffer in use up to \<open>m_pos\<close>, \<open>writeType\<close> never faults,
  whatever the value, the growth of the buffer included, and appends exactly the bencoding of the value
  to what was there, keeping \<open>m_pos\<close> at the end. \<open>encode\<close> does the same after a decoded text.
\<close>

theorem encoder_refines_format:
  "(bc_holds b s \<longrightarrow> (\<exists>b'. writeType v b = Inr b' \<and> bc_holds b' (s @ benc v))) \<and>
   (db_wf (bc_buffer b) \<and> 0 < db_capacity (bc_buffer b) \<and> take (bc_pos b) (db_buffer (bc_buffer b)) = map Some t \<and>
      length t = bc_pos b \<longrightarrow>
    (\<exists>b'. encode d b = Inr b' \<and> bc_holds b' (t @ benc (ADict d))))"
proof (intro conjI impI)
  assume "bc_holds b s"
  then show "\<exists>b'. writeType v b = Inr b' \<and> bc_holds b' (s @ benc v)"
    using appends_writeType by (auto simp: appends_def)
next
  assume "db_wf (bc_buffer b) \<and> 0 < db_capacity (bc_buffer b) \<and>
    take (bc_pos b) (db_buffer (bc_buffer b)) = map Some t \<and> length t = bc_pos b"
  then show "\<exists>b'. encode d b = Inr b' \<and> bc_holds b' (t @ benc (ADict d))"
    by (intro encode_appends) auto
qed

theorem encoder_refines_format_witness:
  "\<exists>b'. encode [(''a'', AVec [AInt64 (- 5), AString ''xy''])] Bencode = Inr b' \<and>
    bc_holds b' ''d1:ali-5e2:xyee''"
proof -
  have "benc (ADict [(''a'', AVec [AInt64 (- 5), AString ''xy''])]) = ''d1:ali-5e2:xyee''"
    by code_simp
  then show ?thesis
    using encoder_refines_format [of Bencode "[]" AEmpty "[]" "[(''a'', AVec [AInt64 (- 5), AString ''xy''])]"]
    by (simp del: benc.simps add: Bencode_def db_wf_def db_new_def)
qed



text \<open>
  Property C28. The decoder terminates on every input: with one more unit of fuel than bytes, it
  returns, without leaving its buffer, or ends in one of three ways: the assertion of
  \<open>DataBuffer::operator[]\<close>, the use of an integer that was never assigned, a copy from outside the buffer.
\<close>

theorem decoder_terminates:
  assumes "length bytes < 2 ^ 64"
  shows "case decode Bencode (map Some bytes) (length bytes) of
      Inl e \<Rightarrow> e \<in> decoder_faults
    | Inr (d, bc) \<Rightarrow> bc_pos bc < length bytes"
proof (cases bytes)
  case Nil
  then show ?thesis by (simp add: decode_def)
next
  case (Cons c cs)
  define b where "b = \<lparr>db_size = 0, db_capacity = length cs, db_buffer = map Some cs\<rparr>"
  have in_b: "input b cs" by (simp add: b_def input_def)
  have "advances 0 (length cs) (readDictionary (db_capacity b + 1) b [] 0)"
    using readers_advance [OF in_b, of 0 "length cs + 1" "[]" "[]"] assms Cons by (simp add: b_def)
  moreover have "db_setData (db_new 64) (drop 1 (map Some bytes)) (length bytes - 1) = Inr b"
    by (simp add: db_setData_def db_new_def b_def Cons)
  ultimately show ?thesis
    by (auto simp: decode_def Cons load_def Bencode_def advances_def split: sum.splits
        simp del: readDictionary.simps)
qed

theorem decoder_terminates_witness:
  "case decode Bencode (map Some ''d3:abci7'') (length ''d3:abci7'') of
      Inl e \<Rightarrow> e \<in> decoder_faults
    | Inr (d, bc) \<Rightarrow> bc_pos bc < length ''d3:abci7''"
  by (rule decoder_terminates) simp

text \<open>
  \<open>readIntUntil\<close> never reports failure: when the delimiter is missing, the sanity check after
  its loop indexes the buffer at its capacity, which aborts the program; otherwise the number in front of
  the first delimiter is extracted and the position moves behind it.
\<close>

theorem readIntUntil_found_or_abort:
  assumes "input b cs" "pos \<le> length cs" "length cs < 2 ^ 64"
  shows "readIntUntil scan b c old pos =
    (if c \<in> set (drop pos cs)
     then let s = takeWhile (\<lambda>x. x \<noteq> c) (drop pos cs) in Inr (True, scan s old, pos + length s + 1)
     else Inl AssertionFailure)"
proof (cases "c \<in> set (drop pos cs)")
  case False
  with readIntUntil_missing [OF assms(1,2)] show ?thesis by simp
next
  case True
  then obtain s post where sp: "drop pos cs = s @ c # post" "c \<notin> set s"
    by (metis split_list_first)
  obtain pre where pre: "pre = take pos cs" by blast
  have cs: "cs = pre @ s @ c # post" "length pre = pos"
    using sp(1) assms(2) append_take_drop_id [of pos cs] by (auto simp: pre)
  have "readIntUntil scan b c old (length pre) = Inr (True, scan s old, length pre + length s + 1)"
    using assms(1) sp(2) assms(3) unfolding cs(1) by (rule readIntUntil_found)
  then show ?thesis
    using sp cs(2) by (simp add: takeWhile_stop)
qed

theorem readIntUntil_found_or_abort_witness:
  "readIntUntil extract_u64 \<lparr>db_size = 0, db_capacity = 3, db_buffer = map Some ''42e''\<rparr> CHR ''e'' None 0
     = Inr (True, Some 42, 3) \<and>
   readIntUntil extract_u64 \<lparr>db_size = 0, db_capacity = 3, db_buffer = map Some ''42e''\<rparr> CHR '':'' None 0
     = Inl AssertionFailure"
proof -
  have "to_string 42 = ''42''" by code_simp
  then have "extract_u64 ''42'' None = Some 42" using extract_to_string [of 42 None] by simp
  then show ?thesis
    using readIntUntil_found_or_abort [of "\<lparr>db_size = 0, db_capacity = 3, db_buffer = map Some ''42e''\<rparr>"
        "''42e''" 0 extract_u64 "CHR ''e''" None]
      readIntUntil_found_or_abort [of "\<lparr>db_size = 0, db_capacity = 3, db_buffer = map Some ''42e''\<rparr>"
        "''42e''" 0 extract_u64 "CHR '':''" None]
    by (simp add: input_def)
qed

text \<open>
  The bound check of \<open>readString\<close> wraps: a length so large that its sum with the position
  exceeds 64 bits passes it, and the following \<open>memcpy\<close> reads outside the buffer.
\<close>

theorem readString_length_wraps:
  assumes "input b (pre @ to_string n @ CHR '':'' # post)" "post \<noteq> []"
    and "db_capacity b < 2 ^ 64" "n < 2 ^ 64" "2 ^ 64 \<le> n + length (pre @ to_string n) + 1"
  shows "readString b (length pre) = Inl OutOfBounds"
proof -
  let ?p = "length pre + length (to_string n) + 1"
  have cap: "db_capacity b = ?p + length post"
    using input_sel(2) [OF assms(1)] by simp
  have "CHR '':'' \<notin> set (to_string n)" by (simp add: is_digit_def)
  then have "readIntUntil extract_u64 b CHR '':'' None (length pre) = Inr (True, Some (of_nat n), ?p)"
    using readIntUntil_found [OF assms(1), of extract_u64 None] assms(3,4) cap by simp
  moreover have "add64 n ?p = n + ?p - 2 ^ 64"
    using assms(4,5) cap assms(3) unfolding add64_def
    by (subst le_mod_geq) auto
  moreover have "unat (of_nat n :: u64) = n" using assms(4) by (simp add: unat_of_nat)
  moreover have "?p < db_capacity b" using cap assms(2) by (cases post) auto
  ultimately show ?thesis
    using assms(3,4,5) cap
    by (simp add: readString_def use_value_def db_addr_def slice_def input_sel(1) [OF assms(1)])
qed

theorem readString_length_wraps_witness:
  "readString \<lparr>db_size = 0, db_capacity = length (to_string (2 ^ 64 - 1) @ '':x''),
      db_buffer = map Some (to_string (2 ^ 64 - 1) @ '':x'')\<rparr> 0 = Inl OutOfBounds"
proof -
  let ?t = "to_string (2 ^ 64 - 1)"
  let ?b = "\<lparr>db_size = 0, db_capacity = length (?t @ '':x''), db_buffer = map Some (?t @ '':x'')\<rparr>"
  have "input ?b ([] @ ?t @ CHR '':'' # ''x'')" by (simp add: input_def)
  moreover have "0 < length ?t" "length ?t \<le> 20"
    by (simp, rule length_to_string) simp_all
  ultimately have "readString ?b (length ([] :: string)) = Inl OutOfBounds"
    by (intro readString_length_wraps [where post = "''x''" and n = "2 ^ 64 - 1"]) simp_all
  then show ?thesis by simp
qed

end
