(* ===== verification/Meta.thy ===== *)
theory Meta
  imports Bencode Serializer
begin

text \<open>
  src/ctorrent/torrentmeta.{h,cpp}: what a .torrent file says. The SHA-1 function of boost is the
  parameter \<open>sha1\<close>, from bytes to the five words of the digest.
\<close>

section \<open>State\<close>

record file_info =
  fi_path :: string
  fi_index :: nat
  fi_begin :: nat
  fi_length :: nat

record torrent_meta =
  tm_dirName :: string
  tm_name :: string
  tm_comment :: string
  tm_createdBy :: string
  tm_mainTracker :: string
  tm_checkSum :: "u32 list"
  tm_pieceLength :: nat
  tm_totalSize :: nat
  tm_files :: "file_info list"
  tm_trackers :: "any list"
  tm_sha1sums :: "u32 list list"

definition TorrentMeta :: torrent_meta where
  "TorrentMeta = \<lparr>tm_dirName = [], tm_name = [], tm_comment = [], tm_createdBy = [],
     tm_mainTracker = [], tm_checkSum = [], tm_pieceLength = 0, tm_totalSize = 0, tm_files = [],
     tm_trackers = [], tm_sha1sums = []\<rparr>"

section \<open>Operations\<close>

text \<open>\<open>d[k]\<close> on a dictionary that is not looked at again: a missing key gives an empty \<open>any\<close>.\<close>

definition dict_at :: "dictionary \<Rightarrow> string \<Rightarrow> any" where
  "dict_at d k = (case map_find k d of None \<Rightarrow> AEmpty | Some v \<Rightarrow> v)"

definition join_path :: "any list \<Rightarrow> string" where
  "join_path pathList =
     foldl (\<lambda>path a. (if path \<noteq> [] then path @ ''/'' else path) @ cast_string a) [] pathList"

text \<open>\<open>parseFile\<close> always returns true; its result is the new state of the object, \<open>index\<close> and \<open>begin\<close>.\<close>

definition parseFile ::
  "torrent_meta \<Rightarrow> any list \<Rightarrow> nat \<Rightarrow> nat \<Rightarrow> nat \<Rightarrow> torrent_meta \<times> nat \<times> nat" where
  "parseFile m pathList index begin len =
     (let file = \<lparr>fi_path = join_path pathList, fi_index = index, fi_begin = begin, fi_length = len\<rparr> in
      (m\<lparr>tm_files := tm_files m @ [file], tm_totalSize := add64 (tm_totalSize m) len\<rparr>,
       index + 1, add64 begin len))"

text \<open>The loops over the entries of \<open>info["files"]\<close>, which may be a dictionary or a list.\<close>

fun parse_files :: "torrent_meta \<Rightarrow> any list \<Rightarrow> nat \<Rightarrow> nat \<Rightarrow> torrent_meta" where
  "parse_files m [] index begin = m"
| "parse_files m (f # fs) index begin =
     (let v = cast_dictionary f;
          pathList = cast_vector (dict_at v ''path'');
          (m, index, begin) = parseFile m pathList index begin (unat (cast_uint64 (dict_at v ''length'')))
      in parse_files m fs index begin)"

text \<open>
  The piece hashes: 20 bytes at a time from the C string of \<open>info["pieces"]\<close>, which ends with a NUL,
  each hash as five big-endian words.
\<close>

definition parse_sum :: "mem \<Rightarrow> nat \<Rightarrow> u32 list res" where
  "parse_sum c i =
     rbind (readBE32 c i) (\<lambda>w0. rbind (readBE32 c (i + 4)) (\<lambda>w1. rbind (readBE32 c (i + 8)) (\<lambda>w2.
     rbind (readBE32 c (i + 12)) (\<lambda>w3. rbind (readBE32 c (i + 16)) (\<lambda>w4.
       Inr [w0, w1, w2, w3, w4])))))"

function parse_sums :: "string \<Rightarrow> nat \<Rightarrow> u32 list list \<Rightarrow> u32 list list res" where
  "parse_sums pieces i sums =
     (if i < length pieces
      then rbind (parse_sum (map (Some \<circ> byte_of_char) pieces @ [Some 0]) i) (\<lambda>s.
        parse_sums pieces (i + 20) (sums @ [s]))
      else Inr sums)"
  by auto
termination by (relation "measure (\<lambda>(pieces, i, _). length pieces - i)") auto

declare parse_sums.simps [simp del]

text \<open>\<open>internalParse\<close>, with the state it leaves behind when it returns false as well: first the
  strings of the outer dictionary, then the info dictionary, its files last.\<close>

definition read_strings :: "torrent_meta \<Rightarrow> dictionary \<Rightarrow> torrent_meta" where
  "read_strings m d =
     (let m = m\<lparr>tm_mainTracker := cast_string (dict_at d ''announce'')\<rparr>;
          m = (if map_count ''comment'' d then m\<lparr>tm_comment := cast_string (dict_at d ''comment'')\<rparr> else m);
          m = (if map_count ''created by'' d then m\<lparr>tm_createdBy := cast_string (dict_at d ''created by'')\<rparr> else m)
      in if map_count ''announce-list'' d then m\<lparr>tm_trackers := cast_vector (dict_at d ''announce-list'')\<rparr> else m)"

definition read_files :: "torrent_meta \<Rightarrow> dictionary \<Rightarrow> bool \<times> torrent_meta" where
  "read_files m info =
     (if map_count ''files'' info then
        let m = m\<lparr>tm_dirName := cast_string (dict_at info ''name'')\<rparr> in
        (case dict_at info ''files'' of
           ADict fs \<Rightarrow> (True, parse_files m (map snd fs) 0 0)
         | AVec fs \<Rightarrow> (True, parse_files m fs 0 0)
         | _ \<Rightarrow> (False, m))
      else
        let len = unat (cast_uint64 (dict_at info ''length'')) in
        if len = 0 then (False, m)
        else
          let f = \<lparr>fi_path = tm_name m, fi_index = 0, fi_begin = 0, fi_length = len\<rparr> in
          (True, m\<lparr>tm_totalSize := len, tm_files := tm_files m @ [f]\<rparr>))"

definition internalParse ::
  "(u8 list \<Rightarrow> u32 list) \<Rightarrow> torrent_meta \<Rightarrow> dictionary \<Rightarrow> bencode \<Rightarrow> (bool \<times> torrent_meta) res" where
  "internalParse sha1 m d bc =
     (if \<not> map_count ''announce'' d then Inr (False, m)
      else
       let m = read_strings m d;
           info = cast_dictionary (dict_at d ''info'')
       in if info = [] then Inr (False, m)
       else
         let pos = bc_pos bc in
         rbind (encode info bc) (\<lambda>bc.
         if \<not> map_count ''pieces'' info \<or> \<not> map_count ''piece length'' info then Inr (False, m)
         else
           rbind (buffer bc pos) (\<lambda>(buf, bufferSize).
           rbind (slice buf 0 bufferSize) (\<lambda>cells.
           rbind (values_of cells) (\<lambda>cs.
           let m = m\<lparr>tm_checkSum := sha1 (map byte_of_char cs),
                     tm_name := cast_string (dict_at info ''name''),
                     tm_pieceLength := unat (cast_uint64 (dict_at info ''piece length''))\<rparr> in
           rbind (parse_sums (cast_string (dict_at info ''pieces'')) 0 (tm_sha1sums m)) (\<lambda>sums.
             Inr (read_files (m\<lparr>tm_sha1sums := sums\<rparr>) info)))))))"

definition parse_data ::
  "(u8 list \<Rightarrow> u32 list) \<Rightarrow> torrent_meta \<Rightarrow> char option list \<Rightarrow> nat \<Rightarrow> (bool \<times> torrent_meta) res" where
  "parse_data sha1 m data n =
     rbind (decode Bencode data n) (\<lambda>(d, bc).
       if d = [] then Inr (False, m) else internalParse sha1 m d bc)"

definition parse_file ::
  "(u8 list \<Rightarrow> u32 list) \<Rightarrow> torrent_meta \<Rightarrow> string option \<Rightarrow> (bool \<times> torrent_meta) res" where
  "parse_file sha1 m file =
     rbind (decode_file Bencode file) (\<lambda>(d, bc).
       if d = [] then Inr (False, m) else internalParse sha1 m d bc)"

section \<open>The layout of the files\<close>

text \<open>Files follow one another without gaps, numbered in order, and add up to the total size.\<close>

fun laid_out :: "nat \<Rightarrow> nat \<Rightarrow> file_info list \<Rightarrow> bool" where
  "laid_out index begin [] = True"
| "laid_out index begin (f # fs) =
     (fi_index f = index \<and> fi_begin f = begin \<and> laid_out (index + 1) (begin + fi_length f) fs)"

definition meta_layout :: "torrent_meta \<Rightarrow> bool" where
  "meta_layout m \<longleftrightarrow> laid_out 0 0 (tm_files m) \<and> tm_totalSize m = sum_list (map fi_length (tm_files m))"

lemma laid_out_append:
  "laid_out i b (fs @ gs) \<longleftrightarrow>
     laid_out i b fs \<and> laid_out (i + length fs) (b + sum_list (map fi_length fs)) gs"
  by (induction fs arbitrary: i b) (auto simp: ac_simps)

text \<open>The total of the lengths a list of file entries declares.\<close>

definition declared :: "any list \<Rightarrow> nat" where
  "declared fs = sum_list (map (\<lambda>f. unat (cast_uint64 (dict_at (cast_dictionary f) ''length''))) fs)"

lemma parse_files_layout:
  "meta_layout m \<Longrightarrow> tm_totalSize m + declared fs < 2 ^ 64 \<Longrightarrow>
    meta_layout (parse_files m fs (length (tm_files m)) (tm_totalSize m)) \<and>
    length (tm_files (parse_files m fs (length (tm_files m)) (tm_totalSize m))) = length (tm_files m) + length fs \<and>
    tm_totalSize (parse_files m fs (length (tm_files m)) (tm_totalSize m)) = tm_totalSize m + declared fs"
proof (induction fs arbitrary: m)
  case Nil
  then show ?case by (simp add: declared_def)
next
  case (Cons f fs)
  let ?n = "unat (cast_uint64 (dict_at (cast_dictionary f) ''length''))"
  let ?p = "cast_vector (dict_at (cast_dictionary f) ''path'')"
  define m' where "m' = fst (parseFile m ?p (length (tm_files m)) (tm_totalSize m) ?n)"
  have m': "parseFile m ?p (length (tm_files m)) (tm_totalSize m) ?n
      = (m', length (tm_files m'), tm_totalSize m')" "meta_layout m'"
      "tm_totalSize m' = tm_totalSize m + ?n" "length (tm_files m') = length (tm_files m) + 1"
    using Cons.prems
    by (auto simp: m'_def parseFile_def Let_def meta_layout_def laid_out_append no_wrap declared_def)
  have "declared (f # fs) = ?n + declared fs" by (simp add: declared_def)
  then show ?case
    using Cons.IH [of m'] Cons.prems m' by (simp add: Let_def)
qed

text \<open>The other fields are not touched.\<close>

lemma parse_files_keeps:
  "tm_checkSum (parse_files m fs i b) = tm_checkSum m \<and> tm_pieceLength (parse_files m fs i b) = tm_pieceLength m \<and>
   tm_sha1sums (parse_files m fs i b) = tm_sha1sums m \<and> tm_mainTracker (parse_files m fs i b) = tm_mainTracker m"
  by (induction fs arbitrary: m i b) (auto simp: parseFile_def Let_def)


section \<open>The outcome of a successful parse\<close>

text \<open>Every way to succeed goes through the hash of the info dictionary and the piece hashes.\<close>

definition info_of :: "dictionary \<Rightarrow> dictionary" where
  "info_of d = cast_dictionary (dict_at d ''info'')"

definition entries_of :: "dictionary \<Rightarrow> any list" where
  "entries_of info =
     (if map_count ''files'' info
      then (case dict_at info ''files'' of ADict fs \<Rightarrow> map snd fs | AVec fs \<Rightarrow> fs | _ \<Rightarrow> [])
      else [ADict [(''length'', dict_at info ''length'')]])"

lemma read_strings_keeps:
  "tm_files (read_strings m d) = tm_files m" "tm_totalSize (read_strings m d) = tm_totalSize m"
  "tm_sha1sums (read_strings m d) = tm_sha1sums m"
  by (simp_all add: read_strings_def Let_def)

lemma read_files_success:
  assumes "read_files m info = (True, m')" "tm_files m = []" "tm_totalSize m = 0"
  shows "tm_checkSum m' = tm_checkSum m \<and> tm_pieceLength m' = tm_pieceLength m \<and> tm_sha1sums m' = tm_sha1sums m \<and>
    (declared (entries_of info) < 2 ^ 64 \<longrightarrow>
       meta_layout m' \<and> tm_totalSize m' = declared (entries_of info) \<and>
       length (tm_files m') = length (entries_of info))"
proof (cases "map_count ''files'' info")
  case True
  let ?m = "m\<lparr>tm_dirName := cast_string (dict_at info ''name'')\<rparr>"
  from True assms(1) obtain fs where fs: "entries_of info = fs" "m' = parse_files ?m fs 0 0"
    by (auto simp: read_files_def entries_of_def Let_def split: any.splits)
  have "meta_layout ?m" using assms by (simp add: meta_layout_def)
  then show ?thesis
    using parse_files_layout [of ?m fs] parse_files_keeps [of ?m fs 0 0] assms fs by simp
next
  case False
  then show ?thesis
    using assms
    by (auto simp: read_files_def entries_of_def Let_def meta_layout_def declared_def cast_dictionary_def dict_at_def
        map_find_def split: if_splits)
qed

lemma internalParse_success:
  assumes "internalParse sha1 m d bc = Inr (True, m')" "tm_files m = []" "tm_totalSize m = 0" "tm_sha1sums m = []"
  obtains bc' buf n cells cs sums where
    "encode (info_of d) bc = Inr bc'" "buffer bc' (bc_pos bc) = Inr (buf, n)" "slice buf 0 n = Inr cells"
    "values_of cells = Inr cs" "tm_checkSum m' = sha1 (map byte_of_char cs)"
    "parse_sums (cast_string (dict_at (info_of d) ''pieces'')) 0 [] = Inr sums" "tm_sha1sums m' = sums"
    "tm_pieceLength m' = unat (cast_uint64 (dict_at (info_of d) ''piece length''))"
    "declared (entries_of (info_of d)) < 2 ^ 64 \<longrightarrow>
       meta_layout m' \<and> tm_totalSize m' = declared (entries_of (info_of d)) \<and>
       length (tm_files m') = length (entries_of (info_of d))"
proof -
  from assms(1) obtain bc' buf n cells cs sums where *:
    "encode (info_of d) bc = Inr bc'" "buffer bc' (bc_pos bc) = Inr (buf, n)" "slice buf 0 n = Inr cells"
    "values_of cells = Inr cs"
    "parse_sums (cast_string (dict_at (info_of d) ''pieces'')) 0 [] = Inr sums"
    "read_files ((read_strings m d)\<lparr>tm_checkSum := sha1 (map byte_of_char cs),
       tm_name := cast_string (dict_at (info_of d) ''name''),
       tm_pieceLength := unat (cast_uint64 (dict_at (info_of d) ''piece length'')),
       tm_sha1sums := sums\<rparr>) (info_of d) = (True, m')"
    by (auto simp: internalParse_def info_of_def Let_def rbind_Inr_iff read_strings_keeps assms(4) split: if_splits)
  show thesis
    using that [OF *(1-4) _ *(5)] read_files_success [OF *(6)] assms(2,3)
    by (simp add: read_strings_keeps)
qed

lemma decoded_state:
  assumes "decode Bencode (map Some bytes) (length bytes) = Inr (d, bc)" "d \<noteq> []" "length bytes < 2 ^ 64"
  obtains t where "db_wf (bc_buffer bc)" "0 < db_capacity (bc_buffer bc)" "length t = bc_pos bc"
    "take (bc_pos bc) (db_buffer (bc_buffer bc)) = map Some t" "bc_pos bc < length bytes"
proof (cases bytes)
  case Nil
  then show thesis using assms by (simp add: decode_def)
next
  case (Cons c cs)
  define b where "b = \<lparr>db_size = 0, db_capacity = length cs, db_buffer = map Some cs\<rparr>"
  have in_b: "input b cs" by (simp add: b_def input_def)
  have "db_setData (db_new 64) (drop 1 (map Some bytes)) (length bytes - 1) = Inr b"
    by (simp add: db_setData_def db_new_def b_def Cons)
  with assms(1,2) Cons obtain pos where
    r: "readDictionary (db_capacity b + 1) b [] 0 = Inr (d, pos)" "bc = \<lparr>bc_buffer = b, bc_pos = pos\<rparr>"
    by (auto simp: decode_def load_def Bencode_def rbind_Inr_iff split: if_splits simp del: readDictionary.simps)
  have "advances 0 (length cs) (readDictionary (db_capacity b + 1) b [] 0)"
    using readers_advance [OF in_b, of 0 "length cs + 1" "[]" "[]"] assms Cons by (simp add: b_def)
  then have "0 < pos" "pos \<le> length cs" using r(1) by simp_all
  then have "cs \<noteq> []" by auto
  then show thesis
    using that [of "take pos cs"] r(2) Cons \<open>pos \<le> length cs\<close> by (simp add: b_def db_wf_def take_map)
qed

section \<open>Piece hashes\<close>

lemma be32_surj: "length bs = 4 \<Longrightarrow> \<exists>v. bs = be32 v"
proof -
  assume "length bs = 4"
  then obtain a b c d where bs: "bs = [a, b, c, d]"
    by (auto simp: length_cells)
  let ?v = "push_bit 24 (ucast a) OR push_bit 16 (ucast b) OR push_bit 8 (ucast c) OR ucast d :: u32"
  have "bs = be32 ?v"
    unfolding bs be32_def
    by (intro arg_cong2 [where f = Cons] refl bit_word_eqI)
      (auto simp: bit_simps less_diff_conv2 dest: bit_imp_le_length)
  then show ?thesis by blast
qed

text \<open>The 32-bit big-endian number at a place of a string.\<close>

definition word_at :: "u8 list \<Rightarrow> nat \<Rightarrow> u32" where
  "word_at bs p = word_of_nat (be_value (take 4 (drop p bs)))"

lemma readBE32_word_at:
  assumes "p + 4 \<le> length bs"
  shows "readBE32 (map Some bs) p = Inr (word_at bs p)"
proof -
  obtain v where v: "take 4 (drop p bs) = be32 v"
    using be32_surj [of "take 4 (drop p bs)"] assms by auto
  then have "readBE32 (map Some bs) p = Inr v"
    by (intro BE32.get_at) (simp add: take_map drop_map)
  then show ?thesis by (simp add: word_at_def v be_value_images)
qed

lemma readBE32_out: "length m < p + 4 \<Longrightarrow> readBE32 m p = Inl OutOfBounds"
  by (rule BE32.get_out)

definition hash_at :: "u8 list \<Rightarrow> nat \<Rightarrow> u32 list" where
  "hash_at bs p = map (\<lambda>j. word_at bs (p + 4 * j)) [0..<5]"

lemma parse_sum_at:
  "parse_sum (map Some bs) p = (if p + 20 \<le> length bs then Inr (hash_at bs p) else Inl OutOfBounds)"
proof (cases "p + 20 \<le> length bs")
  case True
  then show ?thesis
    by (simp add: parse_sum_def readBE32_word_at hash_at_def upt_rec)
next
  case False
  then have "readBE32 (map Some bs) (p + 16) = Inl OutOfBounds"
    by (intro readBE32_out) simp
  moreover have "readBE32 (map Some bs) q = Inr (word_at bs q) \<or> readBE32 (map Some bs) q = Inl OutOfBounds" for q
    using readBE32_word_at [of q bs] readBE32_out [of "map Some bs" q] by (cases "q + 4 \<le> length bs") auto
  note this [of p] this [of "p + 4"] this [of "p + 8"] this [of "p + 12"]
  ultimately show ?thesis
    using False by (auto simp: parse_sum_def)
qed

text \<open>The bytes of the string with its terminator.\<close>

definition c_bytes :: "string \<Rightarrow> u8 list" where
  "c_bytes s = map byte_of_char s @ [0]"

lemma parse_sums_from:
  "20 * k \<le> length pieces + 1 \<Longrightarrow> i = 20 * k \<Longrightarrow> parse_sums pieces i sums =
    (if length pieces mod 20 = 0 \<or> length pieces mod 20 = 19
     then Inr (sums @ map (\<lambda>k. hash_at (c_bytes pieces) (20 * k)) [k..<(length pieces + 1) div 20])
     else Inl OutOfBounds)"
proof (induction pieces i sums arbitrary: k rule: parse_sums.induct)
  case (1 pieces i sums)
  let ?n = "length pieces"
  have cells: "map (Some \<circ> byte_of_char) pieces @ [Some 0] = map Some (c_bytes pieces)"
    by (simp add: c_bytes_def)
  have len: "length (c_bytes pieces) = ?n + 1" by (simp add: c_bytes_def)
  consider "?n \<le> i" | "i < ?n" "i + 20 \<le> ?n + 1" | "i < ?n" "?n + 1 < i + 20" by linarith
  then show ?case
  proof cases
    case 1
    then have "?n = 20 * k \<or> ?n + 1 = 20 * k" using "1.prems" by linarith
    then have "(?n mod 20 = 0 \<or> ?n mod 20 = 19) \<and> (?n + 1) div 20 = k"
    proof
      assume "?n + 1 = 20 * k"
      moreover from this obtain j where "k = Suc j" by (cases k) auto
      ultimately have "?n = 20 * j + 19" "k = Suc j" by simp_all
      then show ?thesis by simp
    qed simp
    with 1 show ?thesis by (simp add: parse_sums.simps)
  next
    case 2
    then have sum: "parse_sum (map (Some \<circ> byte_of_char) pieces @ [Some 0]) i = Inr (hash_at (c_bytes pieces) i)"
      unfolding cells parse_sum_at len by simp
    have "20 * Suc k div 20 \<le> (?n + 1) div 20" using 2(2) "1.prems"(2) by (intro div_le_mono) simp
    then have "k < (?n + 1) div 20" by simp
    then have upt: "[k..<(?n + 1) div 20] = k # [Suc k..<(?n + 1) div 20]" by (rule upt_conv_Cons)
    have "parse_sums pieces i sums = parse_sums pieces (i + 20) (sums @ [hash_at (c_bytes pieces) i])"
      using 2(1) sum by (subst parse_sums.simps) (simp only: if_True rbind.simps)
    also have "\<dots> = (if ?n mod 20 = 0 \<or> ?n mod 20 = 19
       then Inr ((sums @ [hash_at (c_bytes pieces) i]) @
         map (\<lambda>k. hash_at (c_bytes pieces) (20 * k)) [Suc k..<(?n + 1) div 20])
       else Inl OutOfBounds)"
      using 2(2) "1.prems"(2) by (intro "1.IH" [OF 2(1) sum]) simp_all
    finally show ?thesis
      using "1.prems"(2) by (simp only: upt list.map append_assoc append_Cons append_Nil)
  next
    case 3
    then have "20 * k \<le> ?n" using "1.prems"(2) by simp
    then obtain r where "?n = 20 * k + r" by (auto simp: le_iff_add)
    moreover from this have "0 < r" "r < 19"
      using 3 "1.prems"(2) by simp_all
    ultimately have "\<not> (?n mod 20 = 0 \<or> ?n mod 20 = 19)" by simp
    moreover have "parse_sum (map (Some \<circ> byte_of_char) pieces @ [Some 0]) i = Inl OutOfBounds"
      using 3 unfolding cells parse_sum_at len by simp
    ultimately show ?thesis using 3(1) by (subst parse_sums.simps) simp
  qed
qed

section \<open>Complete torrents are accepted\<close>

text \<open>A dictionary with the required entries, whose integers are 64-bit unsigned already.\<close>

definition complete_torrent :: "dictionary \<Rightarrow> bool" where
  "complete_torrent d \<longleftrightarrow> encodable (ADict d) \<and> norm_entries d = d \<and>
     map_count ''announce'' d \<and> info_of d \<noteq> [] \<and>
     map_count ''pieces'' (info_of d) \<and> map_count ''piece length'' (info_of d) \<and>
     length (cast_string (dict_at (info_of d) ''pieces'')) mod 20 = 0 \<and>
     (if map_count ''files'' (info_of d)
      then \<exists>fs. dict_at (info_of d) ''files'' = AVec fs
      else cast_uint64 (dict_at (info_of d) ''length'') \<noteq> 0)"

lemma parse_complete:
  assumes "complete_torrent d" "length (benc (ADict d)) + length (benc (ADict (info_of d))) < 2 ^ 64"
  shows "\<exists>m bc. decode Bencode (map Some (benc (ADict d))) (length (benc (ADict d))) = Inr (d, bc) \<and>
    parse_data sha1 TorrentMeta (map Some (benc (ADict d))) (length (benc (ADict d))) = Inr (True, m)"
proof -
  obtain bytes where bytes: "bytes = benc (ADict d)" by simp
  obtain e where e: "e = benc (ADict (info_of d))" "e \<noteq> []" by simp
  note d = assms(1) [unfolded complete_torrent_def]
  obtain bc where bc: "decode Bencode (map Some bytes) (length bytes) = Inr (d, bc)"
    using decode_benc [of d "[]" Bencode] d assms(2) by (auto simp: Bencode_def bytes)
  have "d \<noteq> []" using d by simp
  obtain t where t: "db_wf (bc_buffer bc)" "0 < db_capacity (bc_buffer bc)" "length t = bc_pos bc"
    "take (bc_pos bc) (db_buffer (bc_buffer bc)) = map Some t" "bc_pos bc < length bytes"
    using decoded_state [OF bc \<open>d \<noteq> []\<close>] assms(2) by (auto simp: bytes)
  obtain bc' where bc': "encode (info_of d) bc = Inr bc'" "bc_holds bc' (t @ e)"
    using encode_appends [OF t(1,2,4,3)] unfolding e(1) by blast
  obtain buf where buf: "buffer bc' (length t) = Inr (buf, length e)" "slice buf 0 (length e) = Inr (map Some e)"
    using buffer_of_encoding [OF bc'(2) e(2)] assms(2) t(3,5) unfolding e(1) bytes by auto
  obtain sums where sums: "parse_sums (cast_string (dict_at (info_of d) ''pieces'')) 0 [] = Inr sums"
    using d parse_sums_from [of 0 "cast_string (dict_at (info_of d) ''pieces'')" 0 "[]"] by auto
  have files: "fst (read_files m (info_of d))" for m
    using d by (auto simp: read_files_def Let_def unat_eq_zero split: if_splits)
  have "\<exists>m. internalParse sha1 TorrentMeta d bc = Inr (True, m)"
    using d bc' buf sums t(3) files
    by (auto simp: internalParse_def Let_def TorrentMeta_def read_strings_keeps prod_eq_iff
        simp flip: info_of_def)
  then show ?thesis
    using bc \<open>d \<noteq> []\<close> unfolding bytes [symmetric] by (auto simp: parse_data_def)
qed

text \<open>A small torrent, for the witnesses.\<close>

definition small_torrent :: dictionary where
  "small_torrent =
     [(''announce'', AString ''http://t/''),
      (''info'', ADict [(''files'', AVec [ADict [(''length'', AUint64 5), (''path'', AVec [AString ''a''])],
                                          ADict [(''length'', AUint64 3), (''path'', AVec [AString ''b'', AString ''c''])]]),
                        (''piece length'', AUint64 8), (''pieces'', AString (replicate 20 CHR ''h''))])]"

lemma small_torrent_complete: "complete_torrent small_torrent"
  by (simp add: complete_torrent_def small_torrent_def map_ordered_def map_count_def info_of_def dict_at_def
      map_find_def cast_dictionary_def cast_string_def)

lemma small_torrent_size: "length (benc (ADict small_torrent)) + length (benc (ADict (info_of small_torrent))) < 2 ^ 64"
proof -
  have "length (benc (ADict small_torrent)) < 200" "length (benc (ADict (info_of small_torrent))) < 200"
    by code_simp+
  moreover have "200 + 200 < (2 :: nat) ^ 64" by simp
  ultimately show ?thesis by linarith
qed

section \<open>Properties\<close>

text \<open>
  Property C23. After a successful parse the files of the torrent lie one behind the other without gaps,
  in the order and with the numbers of the list in the info dictionary, and the total size is the sum of
  their lengths (as long as that sum fits 64 bits).
\<close>

theorem parse_lays_out_files:
  assumes "parse_data sha1 TorrentMeta data n = Inr (True, m)" "decode Bencode data n = Inr (d, bc)"
    and "declared (entries_of (info_of d)) < 2 ^ 64"
  shows "laid_out 0 0 (tm_files m) \<and> length (tm_files m) = length (entries_of (info_of d)) \<and>
    tm_totalSize m = sum_list (map fi_length (tm_files m)) \<and>
    tm_totalSize m = declared (entries_of (info_of d)) \<and>
    tm_pieceLength m = unat (cast_uint64 (dict_at (info_of d) ''piece length''))"
proof -
  have "internalParse sha1 TorrentMeta d bc = Inr (True, m)"
    using assms(1,2) by (auto simp: parse_data_def split: if_splits)
  then show ?thesis
    using assms(3) by (elim internalParse_success) (auto simp: TorrentMeta_def meta_layout_def)
qed

theorem parse_lays_out_files_witness:
  "\<exists>m. parse_data (\<lambda>_. [1, 2, 3, 4, 5]) TorrentMeta (map Some (benc (ADict small_torrent)))
      (length (benc (ADict small_torrent))) = Inr (True, m) \<and>
    laid_out 0 0 (tm_files m) \<and> length (tm_files m) = 2 \<and> tm_totalSize m = 8"
proof -
  obtain m bc where *: "decode Bencode (map Some (benc (ADict small_torrent))) (length (benc (ADict small_torrent)))
      = Inr (small_torrent, bc)"
    "parse_data (\<lambda>_. [1, 2, 3, 4, 5]) TorrentMeta (map Some (benc (ADict small_torrent)))
      (length (benc (ADict small_torrent))) = Inr (True, m)"
    using parse_complete [OF small_torrent_complete small_torrent_size] by blast
  have "entries_of (info_of small_torrent) =
      [ADict [(''length'', AUint64 5), (''path'', AVec [AString ''a''])],
       ADict [(''length'', AUint64 3), (''path'', AVec [AString ''b'', AString ''c''])]]"
    by (simp add: small_torrent_def info_of_def entries_of_def dict_at_def map_find_def map_count_def cast_dictionary_def)
  then have "length (entries_of (info_of small_torrent)) = 2" "declared (entries_of (info_of small_torrent)) = 8"
    by (simp_all add: declared_def cast_dictionary_def dict_at_def map_find_def cast_uint64_def)
  then show ?thesis
    using parse_lays_out_files [OF *(2,1)] *(2) by auto
qed

text \<open>
  Property C29. The info hash is the SHA-1 digest of the bencoding of the decoded info dictionary: the
  encoder, started where decoding stopped, leaves exactly that text between the two positions.
\<close>

theorem info_hash_is_digest_of_info:
  assumes "parse_data sha1 TorrentMeta (map Some bytes) (length bytes) = Inr (True, m)"
    and "decode Bencode (map Some bytes) (length bytes) = Inr (d, bc)"
    and "length bytes + length (benc (ADict (info_of d))) < 2 ^ 64"
  shows "tm_checkSum m = sha1 (map byte_of_char (benc (ADict (info_of d))))"
proof -
  obtain e where e: "e = benc (ADict (info_of d))" "e \<noteq> []" by simp
  from assms(1,2) have parsed: "internalParse sha1 TorrentMeta d bc = Inr (True, m)" and "d \<noteq> []"
    by (auto simp: parse_data_def split: if_splits)
  obtain t where t: "db_wf (bc_buffer bc)" "0 < db_capacity (bc_buffer bc)" "length t = bc_pos bc"
    "take (bc_pos bc) (db_buffer (bc_buffer bc)) = map Some t" "bc_pos bc < length bytes"
    using decoded_state [OF assms(2) \<open>d \<noteq> []\<close>] assms(3) by auto
  obtain bc' where bc': "encode (info_of d) bc = Inr bc'" "bc_holds bc' (t @ e)"
    using encode_appends [OF t(1,2,4,3)] unfolding e(1) by blast
  obtain buf where "buffer bc' (length t) = Inr (buf, length e)" "slice buf 0 (length e) = Inr (map Some e)"
    using buffer_of_encoding [OF bc'(2) e(2)] assms(3) t(3,5) unfolding e(1) by auto
  with parsed bc'(1) t(3) have "tm_checkSum m = sha1 (map byte_of_char e)"
    by (elim internalParse_success) (auto simp: TorrentMeta_def)
  then show ?thesis by (simp only: e(1))
qed

theorem info_hash_is_digest_of_info_witness:
  "\<exists>m. parse_data (\<lambda>bs. [word_of_nat (length bs)]) TorrentMeta (map Some (benc (ADict small_torrent)))
      (length (benc (ADict small_torrent))) = Inr (True, m) \<and>
    tm_checkSum m = [word_of_nat (length (benc (ADict (info_of small_torrent))))]"
proof -
  obtain m bc where *: "decode Bencode (map Some (benc (ADict small_torrent))) (length (benc (ADict small_torrent)))
      = Inr (small_torrent, bc)"
    "parse_data (\<lambda>bs. [word_of_nat (length bs)]) TorrentMeta (map Some (benc (ADict small_torrent)))
      (length (benc (ADict small_torrent))) = Inr (True, m)"
    using parse_complete [OF small_torrent_complete small_torrent_size] by blast
  then show ?thesis
    using info_hash_is_digest_of_info [OF *(2,1) small_torrent_size] by auto
qed

text \<open>
  Property C14. A torrent with the required entries is accepted: parsing its bencoding returns true.
\<close>

theorem complete_torrents_are_parsed:
  assumes "complete_torrent d" "length (benc (ADict d)) + length (benc (ADict (info_of d))) < 2 ^ 64"
  shows "\<exists>m. parse_data sha1 TorrentMeta (map Some (benc (ADict d))) (length (benc (ADict d))) = Inr (True, m) \<and>
    length (tm_sha1sums m) = length (cast_string (dict_at (info_of d) ''pieces'')) div 20"
proof -
  obtain m bc where *: "decode Bencode (map Some (benc (ADict d))) (length (benc (ADict d))) = Inr (d, bc)"
    "parse_data sha1 TorrentMeta (map Some (benc (ADict d))) (length (benc (ADict d))) = Inr (True, m)"
    using parse_complete [OF assms] by blast
  then have "internalParse sha1 TorrentMeta d bc = Inr (True, m)"
    by (auto simp: parse_data_def split: if_splits)
  then have "parse_sums (cast_string (dict_at (info_of d) ''pieces'')) 0 [] = Inr (tm_sha1sums m)"
    by (elim internalParse_success) (auto simp: TorrentMeta_def)
  moreover have "length (cast_string (dict_at (info_of d) ''pieces'')) mod 20 = 0"
    using assms(1) by (simp add: complete_torrent_def)
  then have "(length (cast_string (dict_at (info_of d) ''pieces'')) + 1) div 20 =
      length (cast_string (dict_at (info_of d) ''pieces'')) div 20" by (auto elim!: dvdE)
  ultimately have "tm_sha1sums m = map (\<lambda>k. hash_at (c_bytes (cast_string (dict_at (info_of d) ''pieces''))) (20 * k))
      [0..<length (cast_string (dict_at (info_of d) ''pieces'')) div 20]"
    using parse_sums_from [of 0 "cast_string (dict_at (info_of d) ''pieces'')" 0 "[]"] \<open>_ mod 20 = 0\<close> by simp
  with *(2) show ?thesis by simp
qed

theorem complete_torrents_are_parsed_witness:
  "\<exists>m. parse_data (\<lambda>bs. [1, 2, 3, 4, 5]) TorrentMeta (map Some (benc (ADict small_torrent)))
      (length (benc (ADict small_torrent))) = Inr (True, m) \<and> length (tm_sha1sums m) = 1"
proof -
  have "length (cast_string (dict_at (info_of small_torrent) ''pieces'')) = 20"
    by (simp add: small_torrent_def info_of_def dict_at_def map_find_def cast_dictionary_def cast_string_def)
  then show ?thesis
    using complete_torrents_are_parsed [OF small_torrent_complete small_torrent_size, of "\<lambda>bs. [1, 2, 3, 4, 5]"] by simp
qed

text \<open>
  The piece hashes are read 20 bytes at a time. When the length of the \<open>pieces\<close> string is a
  multiple of 20 there is one hash per 20 bytes; one byte short of a multiple, the terminating NUL
  completes the last hash; any other length reads behind the string.
\<close>

theorem piece_hashes_need_multiple_of_20:
  "parse_sums pieces 0 [] =
    (if length pieces mod 20 = 0 \<or> length pieces mod 20 = 19
     then Inr (map (\<lambda>k. hash_at (c_bytes pieces) (20 * k)) [0..<(length pieces + 1) div 20])
     else Inl OutOfBounds)"
  using parse_sums_from [of 0 pieces 0 "[]"] by simp

end
