(* ===== verification/File_Store.thy ===== *)
theory File_Store
  imports Meta Data_Buffer Messages
begin

text \<open>
  The files of a torrent on disk, as src/ctorrent/torrentfilemanager.cpp uses them: a \<open>TorrentFile\<close> is a
  C stream (its contents and its position) with the \<open>TorrentFileInfo\<close> it was registered with. The piece
  writer and the block reader, \<open>process_write\<close> and \<open>process_read\<close>, walk over the list of files.
\<close>

section \<open>Streams\<close>

record torrent_file =
  tf_data :: "u8 list"
  tf_pos :: nat
  tf_info :: file_info

definition tf_seek :: "torrent_file \<Rightarrow> nat \<Rightarrow> torrent_file" where
  "tf_seek f p = f\<lparr>tf_pos := p\<rparr>"

text \<open>\<open>fread(dst, 1, n, fp)\<close>: at most \<open>n\<close> bytes, fewer at the end of the file.\<close>

definition tf_read :: "torrent_file \<Rightarrow> nat \<Rightarrow> u8 list \<times> torrent_file" where
  "tf_read f n =
     (let bs = take n (drop (tf_pos f) (tf_data f)) in (bs, f\<lparr>tf_pos := tf_pos f + length bs\<rparr>))"

text \<open>\<open>fwrite\<close>: a write behind the end of the file fills the gap with zeros.\<close>

definition overwrite :: "u8 list \<Rightarrow> nat \<Rightarrow> u8 list \<Rightarrow> u8 list" where
  "overwrite c p bs =
     (if bs = [] then c
      else take p c @ replicate (p - length c) 0 @ bs @ drop (p + length bs) c)"

definition tf_write :: "torrent_file \<Rightarrow> u8 list \<Rightarrow> torrent_file" where
  "tf_write f bs = f\<lparr>tf_data := overwrite (tf_data f) (tf_pos f) bs, tf_pos := tf_pos f + length bs\<rparr>"

definition tf_end :: "torrent_file \<Rightarrow> nat" where
  "tf_end f = add64 (fi_begin (tf_info f)) (fi_length (tf_info f))"

section \<open>Writing a piece\<close>

text \<open>
  The loop of \<open>process_write\<close>. \<open>accept f n\<close> is how many of \<open>n\<close> bytes the file system takes for the file \<open>f\<close>
  (all of them unless the disk is full); the loop does not look at short writes again.
\<close>

fun write_to_files ::
  "(file_info \<Rightarrow> nat \<Rightarrow> nat) \<Rightarrow> torrent_file list \<Rightarrow> mem \<Rightarrow> nat \<Rightarrow> nat \<Rightarrow> nat \<Rightarrow> torrent_file list res" where
  "write_to_files accept [] buf beginPos off len = Inr []"
| "write_to_files accept (f # fs) buf beginPos off len =
     (if beginPos < fi_begin (tf_info f) then Inr (f # fs)
      else if beginPos \<ge> tf_end f
      then rbind (write_to_files accept fs buf beginPos off len) (\<lambda>fs. Inr (f # fs))
      else
        let amount = (let amount = sub64 (tf_end f) beginPos in if amount > len then len else amount);
            f = tf_seek f (beginPos - fi_begin (tf_info f));
            wrote = min amount (accept (tf_info f) amount)
        in rbind (slice buf off wrote) (\<lambda>cells.
           rbind (values_of cells) (\<lambda>bs.
           rbind (write_to_files accept fs buf (beginPos + wrote) (off + wrote) (len - wrote)) (\<lambda>fs.
             Inr (tf_write f bs # fs)))))"

section \<open>Reading a block\<close>

text \<open>
  The inner loop of \<open>process_read\<close>: it reads until \<open>writePos\<close> has reached \<open>maxRead\<close>, asking for
  \<open>readSize - writePos\<close> bytes each time, and gives up (\<open>None\<close>) when nothing comes. Bytes that do not fit
  into the block are a fault.
\<close>

function read_loop ::
  "torrent_file \<Rightarrow> mem \<Rightarrow> nat \<Rightarrow> nat \<Rightarrow> nat \<Rightarrow> (mem \<times> nat \<times> torrent_file) option res" where
  "read_loop f block writePos maxRead readSize =
     (if writePos < maxRead then
        let (bs, f) = tf_read f (sub64 readSize writePos) in
        rbind (blit block writePos (map Some bs)) (\<lambda>block.
          if bs = [] then Inr None
          else read_loop f block (writePos + length bs) maxRead readSize)
      else Inr (Some (block, writePos, f)))"
  by pat_completeness auto
termination
  by (relation "measure (\<lambda>(f, block, writePos, maxRead, readSize). maxRead - writePos)")
    (auto simp: length_greater_0_conv [symmetric] simp del: length_greater_0_conv)

declare read_loop.simps [simp del]

fun read_from_files ::
  "torrent_file list \<Rightarrow> nat \<Rightarrow> nat \<Rightarrow> mem \<Rightarrow> nat \<Rightarrow> (mem \<times> torrent_file list) option res" where
  "read_from_files [] blockBegin n block writePos = Inr (Some (block, []))"
| "read_from_files (f # fs) blockBegin n block writePos =
     (let filePos = add64 blockBegin writePos in
      if filePos < fi_begin (tf_info f) then Inr None
      else
        let fileEnd = tf_end f in
        if filePos > fileEnd
        then rbind (read_from_files fs blockBegin n block writePos)
          (\<lambda>r. Inr (map_option (\<lambda>(block, fs). (block, f # fs)) r))
        else
          let f = tf_seek f (filePos - fi_begin (tf_info f));
              readSize = max (sub64 fileEnd filePos) (sub64 n writePos);
              maxRead = add64 writePos readSize
          in rbind (read_loop f block writePos maxRead readSize) (\<lambda>r.
             case r of None \<Rightarrow> Inr None
             | Some (block, writePos, f) \<Rightarrow>
                 rbind (read_from_files fs blockBegin n block writePos)
                   (\<lambda>r. Inr (map_option (\<lambda>(block, fs). (block, f # fs)) r))))"

section \<open>The contents of the torrent as one sequence\<close>

text \<open>The byte at a position of the torrent, if the file that holds it reaches that far.\<close>

fun image :: "torrent_file list \<Rightarrow> nat \<Rightarrow> u8 option" where
  "image [] p = None"
| "image (f # fs) p =
     (if fi_begin (tf_info f) \<le> p \<and> p < fi_begin (tf_info f) + fi_length (tf_info f)
      then (if p - fi_begin (tf_info f) < length (tf_data f)
            then Some (tf_data f ! (p - fi_begin (tf_info f))) else None)
      else image fs p)"

definition holds_at :: "torrent_file list \<Rightarrow> nat \<Rightarrow> u8 list \<Rightarrow> bool" where
  "holds_at fs p bs \<longleftrightarrow> (\<forall>k < length bs. image fs (p + k) = Some (bs ! k))"

abbreviation total :: "torrent_file list \<Rightarrow> nat" where
  "total fs \<equiv> sum_list (map (\<lambda>f. fi_length (tf_info f)) fs)"

lemma overwrite_nth:
  "k < length (overwrite c p bs) \<Longrightarrow> overwrite c p bs ! k =
    (if p \<le> k \<and> k < p + length bs then bs ! (k - p) else if k < length c then c ! k else 0)"
  by (auto simp: overwrite_def nth_append min_def not_less split: if_splits)

lemma length_overwrite:
  "length (overwrite c p bs) = (if bs = [] then length c else max (length c) (p + length bs))"
  by (auto simp: overwrite_def)

lemma image_below: "laid_out i b (map tf_info fs) \<Longrightarrow> p < b \<Longrightarrow> image fs p = None"
  by (induction fs arbitrary: i b) auto

text \<open>Writing one run inside one file: its bytes appear, and no other byte of the file is lost.\<close>

definition in_file :: "torrent_file \<Rightarrow> nat \<Rightarrow> bool" where
  "in_file f p \<longleftrightarrow> fi_begin (tf_info f) \<le> p \<and> p < fi_begin (tf_info f) + fi_length (tf_info f)"

lemma image_Cons:
  "image (f # fs) p = (if in_file f p
     then (if p - fi_begin (tf_info f) < length (tf_data f)
           then Some (tf_data f ! (p - fi_begin (tf_info f))) else None)
     else image fs p)"
  by (simp add: in_file_def)

lemma tf_info_write [simp]: "tf_info (tf_write f bs) = tf_info f" "tf_info (tf_seek f p) = tf_info f"
  by (simp_all add: tf_write_def tf_seek_def)

lemma in_file_info: "tf_info f = tf_info g \<Longrightarrow> in_file f = in_file g"
  by (simp add: in_file_def fun_eq_iff)

lemma image_write_new:
  assumes "fi_begin (tf_info f) \<le> q" "q + length bs \<le> fi_begin (tf_info f) + fi_length (tf_info f)" "k < length bs"
  shows "image (tf_write (tf_seek f (q - fi_begin (tf_info f))) bs # fs) (q + k) = Some (bs ! k)"
proof -
  obtain d where q: "q = fi_begin (tf_info f) + d" using assms(1) by (auto simp: le_iff_add)
  have "bs \<noteq> []" using assms(3) by auto
  then show ?thesis
    using assms(2,3) overwrite_nth [of "d + k" "tf_data f" d bs]
    by (simp add: q tf_write_def tf_seek_def length_overwrite)
qed

lemma image_write_old:
  assumes "fi_begin (tf_info f) \<le> q" "in_file f p" "\<not> (q \<le> p \<and> p < q + length bs)" "image (f # fs) p = Some v"
  shows "image (tf_write (tf_seek f (q - fi_begin (tf_info f))) bs # gs) p = Some v"
proof -
  obtain d where q: "q = fi_begin (tf_info f) + d" using assms(1) by (auto simp: le_iff_add)
  obtain e where p: "p = fi_begin (tf_info f) + e" using assms(2) by (auto simp: in_file_def le_iff_add)
  have old: "e < length (tf_data f)" "tf_data f ! e = v"
    using assms(2,4) by (auto simp: p in_file_def split: if_splits)
  have "e < length (overwrite (tf_data f) d bs)" using old(1) by (simp add: length_overwrite less_max_iff_disj)
  then show ?thesis
    using overwrite_nth [of e "tf_data f" d bs] old assms(2,3)
    by (auto simp: p q tf_write_def tf_seek_def in_file_def split: if_splits)
qed

text \<open>
  What \<open>write_to_files\<close> does to the image when nothing is cut short: the run \<open>bs\<close> starting at offset \<open>off\<close>
  of the buffer lands at \<open>pos\<close>, across file boundaries.
\<close>

definition accepts_all :: "(file_info \<Rightarrow> nat \<Rightarrow> nat) \<Rightarrow> bool" where
  "accepts_all accept \<longleftrightarrow> (\<forall>f n. n \<le> accept f n)"

lemma write_to_files_image:
  assumes "accepts_all accept"
  shows "laid_out i b (map tf_info fs) \<Longrightarrow> b + total fs < 2 ^ 64 \<Longrightarrow> b \<le> pos \<or> len = 0 \<Longrightarrow>
    pos + len \<le> b + total fs \<Longrightarrow> off + len \<le> length bs \<Longrightarrow>
    \<exists>fs'. write_to_files accept fs (map Some bs @ rest) pos off len = Inr fs' \<and> map tf_info fs' = map tf_info fs \<and>
      (\<forall>k < len. image fs' (pos + k) = Some (bs ! (off + k))) \<and>
      (\<forall>p v. image fs p = Some v \<longrightarrow> \<not> (pos \<le> p \<and> p < pos + len) \<longrightarrow> image fs' p = Some v)"
proof (induction fs arbitrary: i b pos off len)
  case Nil
  then have "len = 0" by auto
  then show ?case by simp
next
  case (Cons f fs)
  let ?n = "fi_length (tf_info f)"
  have f: "fi_begin (tf_info f) = b" "laid_out (i + 1) (b + ?n) (map tf_info fs)"
    using Cons.prems(1) by simp_all
  have e: "tf_end f = b + ?n"
    using Cons.prems(2) f(1) by (simp add: tf_end_def add64_small)
  consider "pos < b" "len = 0" | "b \<le> pos" "b + ?n \<le> pos" | "b \<le> pos" "pos < b + ?n"
    using Cons.prems(3) by linarith
  then show ?case
  proof cases
    case 1
    then show ?thesis by (auto simp: f(1))
  next
    case 2
    then obtain fs' where fs': "write_to_files accept fs (map Some bs @ rest) pos off len = Inr fs'"
      "map tf_info fs' = map tf_info fs" "\<forall>k < len. image fs' (pos + k) = Some (bs ! (off + k))"
      "\<forall>p v. image fs p = Some v \<longrightarrow> \<not> (pos \<le> p \<and> p < pos + len) \<longrightarrow> image fs' p = Some v"
      using Cons.IH [OF f(2), of pos len off] Cons.prems by auto
    have "\<not> in_file f (pos + k)" for k using 2 f(1) by (simp add: in_file_def)
    then show ?thesis
      using 2 fs' f(1) e by (intro exI [of _ "f # fs'"]) (auto simp: image_Cons simp del: image.simps)
  next
    case 3
    define w where "w = min (b + ?n - pos) len"
    define f' where "f' = tf_write (tf_seek f (pos - b)) (take w (drop off bs))"
    have sub: "sub64 (b + ?n) pos = b + ?n - pos"
      using 3 Cons.prems(2) by (intro sub64_small) simp_all
    have w: "w \<le> len" "pos + w \<le> b + ?n" "w = len \<or> pos + w = b + ?n" using 3 by (auto simp: w_def)
    have amount: "(if b + ?n - pos > len then len else b + ?n - pos) = w" by (simp add: w_def)
    have acc: "min w (accept (tf_info f) w) = w"
      using assms by (simp add: accepts_all_def)
    have run: "length (take w (drop off bs)) = w" using w Cons.prems(5) by simp
    have slice: "slice (map Some bs @ rest) off w = Inr (map Some (take w (drop off bs)))"
      using w Cons.prems(5) by (simp add: slice_def take_map drop_map)
    obtain fs' where fs': "write_to_files accept fs (map Some bs @ rest) (pos + w) (off + w) (len - w) = Inr fs'"
      "map tf_info fs' = map tf_info fs"
      "\<forall>k < len - w. image fs' (pos + w + k) = Some (bs ! (off + w + k))"
      "\<forall>p v. image fs p = Some v \<longrightarrow> \<not> (pos + w \<le> p \<and> p < pos + w + (len - w)) \<longrightarrow> image fs' p = Some v"
      using Cons.IH [OF f(2), of "pos + w" "len - w" "off + w"] Cons.prems w by auto
    have res: "write_to_files accept (f # fs) (map Some bs @ rest) pos off len = Inr (f' # fs')"
      using 3 f(1) e sub amount acc slice fs'(1) by (simp add: f'_def)
    have in_f': "in_file f' = in_file f" by (rule in_file_info) (simp add: f'_def)
    have new: "image (f' # fs') (pos + k) = Some (bs ! (off + k))" if "k < len" for k
    proof (cases "k < w")
      case True
      then show ?thesis
        using image_write_new [of f pos "take w (drop off bs)" k fs'] 3(1) w(2) run Cons.prems(5) w(1)
        by (simp add: f(1) f'_def del: image.simps)
    next
      case False
      then obtain j where j: "k = w + j" by (auto simp: le_iff_add not_less)
      then have "\<not> in_file f' (pos + k)"
        unfolding in_f' using that w False f(1) by (auto simp: in_file_def)
      then show ?thesis
        using fs'(3) that j by (simp add: image_Cons add.assoc del: image.simps)
    qed
    have old: "image (f' # fs') p = Some v"
      if "image (f # fs) p = Some v" "\<not> (pos \<le> p \<and> p < pos + len)" for p v
    proof (cases "in_file f p")
      case True
      then show ?thesis
        using image_write_old [of f pos p "take w (drop off bs)" fs v fs'] that 3(1) run w(1)
        by (auto simp: f(1) f'_def simp del: image.simps)
    next
      case False
      then have "image fs p = Some v" using that(1) by (simp add: image_Cons del: image.simps)
      then have "image fs' p = Some v" using fs'(4) that(2) w(1) by auto
      then show ?thesis using False by (simp add: image_Cons in_f' del: image.simps)
    qed
    show ?thesis
      using res new old fs'(2) by (intro exI [of _ "f' # fs'"]) (auto simp: f'_def simp del: image.simps)
  qed
qed

end
