(* ===== verification/File_Manager.thy ===== *)
theory File_Manager
  imports File_Store Bitset
begin

text \<open>
  src/ctorrent/torrentfilemanager.{h,cpp}: which pieces are complete, which are being written, which one to
  ask for next, and the worker thread that takes read and write requests from two queues. The metadata
  \<open>meta\<close> (the parsed torrent) and the hash function \<open>sha1\<close> are arguments; the \<open>Torrent\<close> callbacks of a
  finished request are returned as events.
\<close>

section \<open>State\<close>

record piece =
  pc_pri :: int
  pc_hash :: "u32 list"

record read_request =
  rr_index :: nat
  rr_id :: u32
  rr_from :: u32
  rr_begin :: nat
  rr_size :: nat

record write_request =
  wr_index :: nat
  wr_from :: u32
  wr_data :: "u8 data_buffer"

record file_manager =
  fm_readRequests :: "read_request list"
  fm_writeRequests :: "write_request list"
  fm_completedBits :: bitset
  fm_pendingBits :: bitset
  fm_files :: "torrent_file list"
  fm_pieces :: "piece list"
  fm_stopped :: bool
  fm_rid :: u32

definition FileManager :: file_manager where
  "FileManager = \<lparr>fm_readRequests = [], fm_writeRequests = [],
     fm_completedBits = \<lparr>bs_bits = [], bs_size = 0\<rparr>, fm_pendingBits = \<lparr>bs_bits = [], bs_size = 0\<rparr>,
     fm_files = [], fm_pieces = [], fm_stopped = False, fm_rid = 0\<rparr>"

text \<open>A \<open>size_t\<close> seen as an \<open>int64_t\<close>, and back.\<close>

definition to_i64 :: "nat \<Rightarrow> int" where
  "to_i64 n = sint (of_nat n :: u64)"

definition of_i64 :: "int \<Rightarrow> nat" where
  "of_i64 i = unat (of_int i :: u64)"

section \<open>Piece lengths\<close>

definition last_piece_length :: "torrent_meta \<Rightarrow> int res" where
  "last_piece_length meta =
     rbind (check (tm_pieceLength meta \<noteq> 0) DivisionByZero) (\<lambda>_.
       let r = to_i64 (tm_totalSize meta mod tm_pieceLength meta) in
       Inr (if r \<noteq> 0 then r else to_i64 (tm_pieceLength meta)))"

definition piece_length :: "torrent_meta \<Rightarrow> file_manager \<Rightarrow> nat \<Rightarrow> int res" where
  "piece_length meta fm index =
     (if index = sub64 (length (fm_pieces fm)) 1 then last_piece_length meta
      else Inr (to_i64 (tm_pieceLength meta)))"

definition pieceSize :: "torrent_meta \<Rightarrow> file_manager \<Rightarrow> nat \<Rightarrow> nat res" where
  "pieceSize meta fm index = rbind (piece_length meta fm index) (\<lambda>r. Inr (of_i64 r))"

section \<open>Queries\<close>

definition intact :: "file_manager \<Rightarrow> nat \<Rightarrow> bool" where
  "intact fm index \<longleftrightarrow> index < length (fm_pieces fm)"

definition total_pieces :: "file_manager \<Rightarrow> nat" where
  "total_pieces fm = length (fm_pieces fm)"

definition completed_pieces :: "file_manager \<Rightarrow> nat res" where
  "completed_pieces fm = bitset_count (fm_completedBits fm)"

definition pending :: "file_manager \<Rightarrow> nat res" where
  "pending fm = bitset_count (fm_pendingBits fm)"

definition piece_done :: "file_manager \<Rightarrow> nat \<Rightarrow> bool res" where
  "piece_done fm index =
     (if index < length (fm_pieces fm) then bitset_test (fm_completedBits fm) index else Inr False)"

definition piece_pending :: "file_manager \<Rightarrow> nat \<Rightarrow> bool res" where
  "piece_pending fm index =
     (if index < length (fm_pieces fm) then bitset_test (fm_pendingBits fm) index else Inr False)"

definition is_read_eligible :: "torrent_meta \<Rightarrow> file_manager \<Rightarrow> nat \<Rightarrow> int \<Rightarrow> bool res" where
  "is_read_eligible meta fm index e =
     rbind (bitset_test (fm_completedBits fm) index) (\<lambda>done.
       if \<not> done then Inr False
       else rbind (piece_length meta fm index) (\<lambda>len. Inr (e < len)))"

text \<open>\<open>memcmp(digest, hash, 5) == 0\<close>: the first five bytes of two arrays of words in memory (little
  endian hosts).\<close>

definition memcmp5 :: "u32 list \<Rightarrow> u32 list \<Rightarrow> bool" where
  "memcmp5 digest hash \<longleftrightarrow> take 5 (concat (map le32 digest)) = take 5 (concat (map le32 hash))"

definition is_write_eligible ::
  "(u8 list \<Rightarrow> u32 list) \<Rightarrow> file_manager \<Rightarrow> nat \<Rightarrow> u8 list \<Rightarrow> bool res" where
  "is_write_eligible sha1 fm index data =
     rbind (bitset_test (fm_pendingBits fm) index) (\<lambda>p.
       if p then Inr False
       else rbind (check (index < length (fm_pieces fm)) OutOfBounds) (\<lambda>_.
         Inr (memcmp5 (sha1 data) (pc_hash (fm_pieces fm ! index)))))"

section \<open>Initialisation\<close>

definition init_pieces :: "torrent_meta \<Rightarrow> file_manager \<Rightarrow> file_manager" where
  "init_pieces meta fm =
     fm\<lparr>fm_pieces := fm_pieces fm @ map (\<lambda>s. \<lparr>pc_pri = 0, pc_hash = s\<rparr>) (tm_sha1sums meta),
        fm_completedBits := bitset_construct (length (tm_sha1sums meta)),
        fm_pendingBits := bitset_construct (length (tm_sha1sums meta))\<rparr>"

section \<open>The next piece to ask for\<close>

definition INT32_MAX :: int where
  "INT32_MAX = 2 ^ 31 - 1"

definition SIZE_MAX :: nat where
  "SIZE_MAX = 2 ^ 64 - 1"

definition set_pri :: "file_manager \<Rightarrow> nat \<Rightarrow> int \<Rightarrow> file_manager" where
  "set_pri fm i v = fm\<lparr>fm_pieces := (fm_pieces fm)[i := (fm_pieces fm ! i)\<lparr>pc_pri := v\<rparr>]\<rparr>"

text \<open>The loop, over the indices still to visit; \<open>f\<close> is the caller's filter.\<close>

fun next_piece_loop ::
  "file_manager \<Rightarrow> (nat \<Rightarrow> bool res) \<Rightarrow> nat list \<Rightarrow> nat \<Rightarrow> int \<Rightarrow> (nat \<times> file_manager) res" where
  "next_piece_loop fm f [] index priority =
     (if priority \<noteq> INT32_MAX
      then Inr (index, set_pri fm index (pc_pri (fm_pieces fm ! index) + 1))
      else Inr (SIZE_MAX, fm))"
| "next_piece_loop fm f (i # is) index priority =
     rbind (bitset_test (fm_completedBits fm) i) (\<lambda>c.
     rbind (if c then Inr True else bitset_test (fm_pendingBits fm) i) (\<lambda>c.
     rbind (if c then Inr True else rbind (f i) (\<lambda>b. Inr (\<not> b))) (\<lambda>skip.
       if skip then next_piece_loop fm f is index priority
       else
         let pri = pc_pri (fm_pieces fm ! i) in
         if pri = 0 then Inr (i, set_pri fm i 1)
         else if priority > pri then next_piece_loop fm f is i pri
         else next_piece_loop fm f is index priority)))"

definition get_next_piece :: "file_manager \<Rightarrow> (nat \<Rightarrow> bool res) \<Rightarrow> (nat \<times> file_manager) res" where
  "get_next_piece fm f = next_piece_loop fm f [0..<length (fm_pieces fm)] 0 INT32_MAX"

section \<open>Bytes downloaded\<close>

text \<open>The loop for \<open>i\<close> up to \<open>m_pieces.size() - 1\<close>, the difference a \<open>size_t\<close>: \<open>k\<close> rounds are left.\<close>

fun sum_completed :: "bitset \<Rightarrow> nat \<Rightarrow> nat \<Rightarrow> nat \<Rightarrow> nat \<Rightarrow> nat res" where
  "sum_completed bits pieceLength i 0 downloaded = Inr downloaded"
| "sum_completed bits pieceLength i (Suc k) downloaded =
     rbind (bitset_test bits i) (\<lambda>b.
       sum_completed bits pieceLength (i + 1) k (if b then add64 downloaded pieceLength else downloaded))"

definition compute_downloaded :: "torrent_meta \<Rightarrow> file_manager \<Rightarrow> nat res" where
  "compute_downloaded meta fm =
     (let n = sub64 (length (fm_pieces fm)) 1 in
      rbind (sum_completed (fm_completedBits fm) (tm_pieceLength meta) 0 n 0) (\<lambda>downloaded.
      rbind (bitset_test (fm_completedBits fm) (n + 1)) (\<lambda>b.
        if b then rbind (last_piece_length meta) (\<lambda>r. Inr (add64 downloaded (of_i64 r)))
        else Inr downloaded)))"

section \<open>Requests\<close>

text \<open>The bytes of a buffer, \<open>&data[0]\<close> and \<open>data.size()\<close>.\<close>

definition db_bytes :: "u8 data_buffer \<Rightarrow> u8 list res" where
  "db_bytes b =
     rbind (db_addr b 0) (\<lambda>p. rbind (slice (db_buffer b) p (db_size b)) values_of)"

text \<open>\<open>push_read\<close> on the priority queue, whose top is the request with the least id.\<close>

definition push_read :: "file_manager \<Rightarrow> read_request \<Rightarrow> file_manager" where
  "push_read fm r = fm\<lparr>fm_readRequests := insort_key rr_id r (fm_readRequests fm)\<rparr>"

definition push_write :: "file_manager \<Rightarrow> write_request \<Rightarrow> file_manager res" where
  "push_write fm w =
     rbind (bitset_set (fm_pendingBits fm) (wr_index w)) (\<lambda>bits.
       Inr (fm\<lparr>fm_writeRequests := fm_writeRequests fm @ [w], fm_pendingBits := bits\<rparr>))"

definition requestPieceBlock ::
  "torrent_meta \<Rightarrow> file_manager \<Rightarrow> nat \<Rightarrow> u32 \<Rightarrow> nat \<Rightarrow> nat \<Rightarrow> (bool \<times> file_manager) res" where
  "requestPieceBlock meta fm index from begin n =
     (if \<not> intact fm index then Inr (False, fm)
      else rbind (is_read_eligible meta fm index (to_i64 (add64 begin n))) (\<lambda>ok.
        if \<not> ok then Inr (False, fm)
        else
          let r = \<lparr>rr_index = index, rr_id = fm_rid fm, rr_from = from, rr_begin = begin, rr_size = n\<rparr> in
          Inr (True, push_read (fm\<lparr>fm_rid := fm_rid fm + 1\<rparr>) r)))"

definition writePieceBlock ::
  "(u8 list \<Rightarrow> u32 list) \<Rightarrow> file_manager \<Rightarrow> nat \<Rightarrow> u32 \<Rightarrow> u8 data_buffer \<Rightarrow> (bool \<times> file_manager) res" where
  "writePieceBlock sha1 fm index from data =
     (if \<not> intact fm index then Inr (False, fm)
      else rbind (db_bytes data) (\<lambda>bs.
        rbind (is_write_eligible sha1 fm index bs) (\<lambda>ok.
          if \<not> ok then Inr (False, fm)
          else rbind (push_write fm \<lparr>wr_index = index, wr_from = from, wr_data = data\<rparr>) (\<lambda>fm. Inr (True, fm)))))"

section \<open>The worker thread\<close>

text \<open>What the worker reports to the torrent.\<close>

datatype fm_event =
    PieceWriteComplete u32 nat
  | PieceReadComplete u32 nat nat mem nat

definition process_read :: "torrent_meta \<Rightarrow> file_manager \<Rightarrow> read_request \<Rightarrow> (fm_event \<times> file_manager) option res" where
  "process_read meta fm r =
     (let blockBegin = add64 (rr_begin r) (mul64 (rr_index r) (tm_pieceLength meta)) in
      rbind (read_from_files (fm_files fm) blockBegin (rr_size r) (replicate (rr_size r) None) 0) (\<lambda>res.
        case res of None \<Rightarrow> Inr None
        | Some (block, files) \<Rightarrow>
            Inr (Some (PieceReadComplete (rr_from r) (rr_index r) (rr_begin r) block (rr_size r),
                       fm\<lparr>fm_files := files\<rparr>))))"

definition process_write ::
  "torrent_meta \<Rightarrow> (file_info \<Rightarrow> nat \<Rightarrow> nat) \<Rightarrow> file_manager \<Rightarrow> write_request \<Rightarrow> (fm_event \<times> file_manager) res" where
  "process_write meta accept fm w =
     (let beginPos = mul64 (wr_index w) (tm_pieceLength meta) in
      rbind (db_addr (wr_data w) 0) (\<lambda>p.
      rbind (write_to_files accept (fm_files fm) (drop p (db_buffer (wr_data w))) beginPos 0 (db_size (wr_data w))) (\<lambda>files.
      rbind (bitset_clear (fm_pendingBits fm) (wr_index w)) (\<lambda>pend.
      rbind (bitset_set (fm_completedBits fm) (wr_index w)) (\<lambda>comp.
        Inr (PieceWriteComplete (wr_from w) (wr_index w),
             fm\<lparr>fm_files := files, fm_pendingBits := pend, fm_completedBits := comp\<rparr>))))))"

text \<open>The two inner loops of \<open>thread\<close>: a request is removed once it has been processed.\<close>

fun drain_writes ::
  "torrent_meta \<Rightarrow> (file_info \<Rightarrow> nat \<Rightarrow> nat) \<Rightarrow> file_manager \<Rightarrow> write_request list \<Rightarrow> (fm_event list \<times> file_manager) res" where
  "drain_writes meta accept fm [] = Inr ([], fm)"
| "drain_writes meta accept fm (w # ws) =
     rbind (process_write meta accept fm w) (\<lambda>(e, fm).
     rbind (drain_writes meta accept (fm\<lparr>fm_writeRequests := ws\<rparr>) ws) (\<lambda>(es, fm). Inr (e # es, fm)))"

fun drain_reads ::
  "torrent_meta \<Rightarrow> file_manager \<Rightarrow> read_request list \<Rightarrow> (fm_event list \<times> file_manager) res" where
  "drain_reads meta fm [] = Inr ([], fm)"
| "drain_reads meta fm (r # rs) =
     rbind (process_read meta fm r) (\<lambda>res.
       case res of None \<Rightarrow> Inr ([], fm)
       | Some (e, fm) \<Rightarrow>
           rbind (drain_reads meta (fm\<lparr>fm_readRequests := rs\<rparr>) rs) (\<lambda>(es, fm). Inr (e # es, fm)))"

text \<open>One round of \<open>thread\<close>, the lock held throughout.\<close>

definition worker_round ::
  "torrent_meta \<Rightarrow> (file_info \<Rightarrow> nat \<Rightarrow> nat) \<Rightarrow> file_manager \<Rightarrow> (fm_event list \<times> file_manager) res" where
  "worker_round meta accept fm =
     (if fm_stopped fm then Inr ([], fm)
      else rbind (drain_writes meta accept fm (fm_writeRequests fm)) (\<lambda>(es, fm).
        rbind (drain_reads meta fm (fm_readRequests fm)) (\<lambda>(es', fm). Inr (es @ es', fm))))"

section \<open>Well-formed states\<close>

text \<open>Both bit sets have one byte per piece (\<open>construct\<close> takes the number of bits), and indices fit an \<open>int\<close>.\<close>

definition fm_wf :: "file_manager \<Rightarrow> bool" where
  "fm_wf fm \<longleftrightarrow> length (fm_pieces fm) < 2 ^ 31 \<and>
     bitset_wf (fm_completedBits fm) \<and> bs_size (fm_completedBits fm) = length (fm_pieces fm) \<and>
     bitset_wf (fm_pendingBits fm) \<and> bs_size (fm_pendingBits fm) = length (fm_pieces fm) \<and>
     (\<forall>p \<in> set (fm_pieces fm). 0 \<le> pc_pri p \<and> pc_pri p \<le> INT32_MAX)"

definition completed :: "file_manager \<Rightarrow> nat set" where
  "completed fm = bits.members (fm_completedBits fm)"

definition pending_set :: "file_manager \<Rightarrow> nat set" where
  "pending_set fm = bits.members (fm_pendingBits fm)"

lemma cap_of_size: "bitset_wf b \<Longrightarrow> i < bs_size b \<Longrightarrow> bs_size b < 2 ^ 31 \<Longrightarrow> i < bitset_cap b"
  by (simp add: bitset_cap_def bitset_wf_def)

lemma fm_wf_cap:
  assumes "fm_wf fm" "i < length (fm_pieces fm)"
  shows "i < bitset_cap (fm_completedBits fm)" "i < bitset_cap (fm_pendingBits fm)"
  using assms cap_of_size [of "fm_completedBits fm" i] cap_of_size [of "fm_pendingBits fm" i]
  by (auto simp: fm_wf_def)

lemma fm_test:
  assumes "fm_wf fm" "i < length (fm_pieces fm)"
  shows "bitset_test (fm_completedBits fm) i = Inr (i \<in> completed fm)"
    and "bitset_test (fm_pendingBits fm) i = Inr (i \<in> pending_set fm)"
  using bits.test_members fm_wf_cap [OF assms] by (auto simp: completed_def pending_set_def)


section \<open>Choosing a piece\<close>

abbreviation pri :: "file_manager \<Rightarrow> nat \<Rightarrow> int" where
  "pri fm i \<equiv> pc_pri (fm_pieces fm ! i)"

definition candidate :: "file_manager \<Rightarrow> (nat \<Rightarrow> bool res) \<Rightarrow> nat \<Rightarrow> bool" where
  "candidate fm f i \<longleftrightarrow> i < length (fm_pieces fm) \<and> i \<notin> completed fm \<and> i \<notin> pending_set fm \<and> f i = Inr True"

text \<open>\<open>i\<close> is the first of the candidates below \<open>n\<close> with the least priority.\<close>

definition first_least :: "file_manager \<Rightarrow> (nat \<Rightarrow> bool res) \<Rightarrow> nat \<Rightarrow> nat \<Rightarrow> bool" where
  "first_least fm f n i \<longleftrightarrow> candidate fm f i \<and> i < n \<and> pri fm i < INT32_MAX \<and>
     (\<forall>j < n. candidate fm f j \<longrightarrow> pri fm i \<le> pri fm j \<and> (j < i \<longrightarrow> pri fm i < pri fm j))"

definition none_left :: "file_manager \<Rightarrow> (nat \<Rightarrow> bool res) \<Rightarrow> nat \<Rightarrow> bool" where
  "none_left fm f n \<longleftrightarrow> (\<forall>j < n. candidate fm f j \<longrightarrow> INT32_MAX \<le> pri fm j)"

text \<open>What the loop knows after the indices below \<open>k\<close>.\<close>

definition loop_inv :: "file_manager \<Rightarrow> (nat \<Rightarrow> bool res) \<Rightarrow> nat \<Rightarrow> nat \<Rightarrow> int \<Rightarrow> bool" where
  "loop_inv fm f k index priority \<longleftrightarrow> 0 < priority \<and>
     (if priority = INT32_MAX then none_left fm f k
      else first_least fm f k index \<and> pri fm index = priority)"

lemma loop_inv_skip: "loop_inv fm f k index p \<Longrightarrow> \<not> candidate fm f k \<Longrightarrow> loop_inv fm f (Suc k) index p"
  by (auto simp: loop_inv_def none_left_def first_least_def less_Suc_eq split: if_splits)

lemma loop_inv_worse:
  "loop_inv fm f k index p \<Longrightarrow> \<not> p > pri fm k \<Longrightarrow> loop_inv fm f (Suc k) index p"
  by (auto simp: loop_inv_def none_left_def first_least_def less_Suc_eq split: if_splits)

lemma loop_inv_better:
  assumes "loop_inv fm f k index p" "p > pri fm k" "candidate fm f k" "0 < pri fm k" "p \<le> INT32_MAX"
  shows "loop_inv fm f (Suc k) k (pri fm k)"
proof -
  have "pri fm k < pri fm j" if "j < k" "candidate fm f j" for j
    using assms that by (auto simp: loop_inv_def none_left_def first_least_def split: if_splits)
  with assms show ?thesis
    by (auto simp: loop_inv_def first_least_def less_Suc_eq intro: less_imp_le)
qed

lemma loop_inv_zero:
  assumes "loop_inv fm f k index p" "candidate fm f k" "pri fm k = 0"
    and "\<forall>j. candidate fm f j \<longrightarrow> 0 \<le> pri fm j" "k < n"
  shows "first_least fm f n k"
proof -
  have "0 < pri fm j" if "j < k" "candidate fm f j" for j
    using assms(1) that by (auto simp: loop_inv_def none_left_def first_least_def INT32_MAX_def split: if_splits)
  with assms show ?thesis
    by (auto simp: first_least_def INT32_MAX_def)
qed

lemma fm_wf_pri: "fm_wf fm \<Longrightarrow> i < length (fm_pieces fm) \<Longrightarrow> 0 \<le> pri fm i \<and> pri fm i \<le> INT32_MAX"
  by (simp add: fm_wf_def)

lemma next_piece_loop_result:
  assumes wf: "fm_wf fm" and f: "\<And>i. i < length (fm_pieces fm) \<Longrightarrow> succeeds (f i)"
  shows "k \<le> length (fm_pieces fm) \<Longrightarrow> loop_inv fm f k index p \<Longrightarrow> p \<le> INT32_MAX \<Longrightarrow>
    (\<exists>i. first_least fm f (length (fm_pieces fm)) i \<and>
       next_piece_loop fm f [k..<length (fm_pieces fm)] index p = Inr (i, set_pri fm i (pri fm i + 1))) \<or>
    none_left fm f (length (fm_pieces fm)) \<and>
       next_piece_loop fm f [k..<length (fm_pieces fm)] index p = Inr (SIZE_MAX, fm)"
proof (induction "length (fm_pieces fm) - k" arbitrary: k index p)
  case 0
  then have "k = length (fm_pieces fm)" by simp
  with "0.prems" show ?case by (auto simp: loop_inv_def split: if_splits)
next
  case (Suc m)
  let ?n = "length (fm_pieces fm)"
  have k: "k < ?n" "m = ?n - Suc k" using Suc.hyps(2) by simp_all
  have upt: "[k..<?n] = k # [Suc k..<?n]" using k(1) by (rule upt_conv_Cons)
  obtain b where b: "f k = Inr b" using f [OF k(1)] by (auto simp: succeeds_iff)
  have step: "next_piece_loop fm f [k..<?n] index p =
      (if \<not> candidate fm f k then next_piece_loop fm f [Suc k..<?n] index p
       else if pri fm k = 0 then Inr (k, set_pri fm k 1)
       else if p > pri fm k then next_piece_loop fm f [Suc k..<?n] k (pri fm k)
       else next_piece_loop fm f [Suc k..<?n] index p)"
    using fm_test [OF wf k(1)] b k(1) unfolding upt by (auto simp: candidate_def Let_def)
  consider "\<not> candidate fm f k" | "candidate fm f k" "pri fm k = 0"
    | "candidate fm f k" "0 < pri fm k" "p > pri fm k" | "candidate fm f k" "0 < pri fm k" "\<not> p > pri fm k"
    using fm_wf_pri [OF wf k(1)] by linarith
  then show ?case
  proof cases
    case 1
    then show ?thesis
      using Suc.hyps(1) [OF k(2), of index p] Suc.prems k(1) loop_inv_skip [OF Suc.prems(2)] by (simp add: step)
  next
    case 2
    moreover have "\<forall>j. candidate fm f j \<longrightarrow> 0 \<le> pri fm j"
      using fm_wf_pri [OF wf] by (auto simp: candidate_def)
    ultimately have "first_least fm f ?n k"
      using loop_inv_zero [OF Suc.prems(2)] k(1) by blast
    with 2 show ?thesis by (auto simp: step)
  next
    case 3
    then have "loop_inv fm f (Suc k) k (pri fm k)"
      using loop_inv_better [OF Suc.prems(2)] Suc.prems(3) by blast
    with 3 show ?thesis
      using Suc.hyps(1) [OF k(2), of k "pri fm k"] Suc.prems(3) k(1) by (simp add: step)
  next
    case 4
    then show ?thesis
      using Suc.hyps(1) [OF k(2), of index p] Suc.prems k(1) loop_inv_worse [OF Suc.prems(2)] by (simp add: step)
  qed
qed

lemma get_next_piece_result:
  assumes "fm_wf fm" "\<And>i. i < length (fm_pieces fm) \<Longrightarrow> succeeds (f i)"
  shows "(\<exists>i. first_least fm f (length (fm_pieces fm)) i \<and>
      get_next_piece fm f = Inr (i, set_pri fm i (pri fm i + 1))) \<or>
    none_left fm f (length (fm_pieces fm)) \<and> get_next_piece fm f = Inr (SIZE_MAX, fm)"
  unfolding get_next_piece_def
  by (rule next_piece_loop_result [OF assms])
    (simp_all add: loop_inv_def none_left_def INT32_MAX_def)

section \<open>Bytes downloaded\<close>

lemma sum_completed_members:
  assumes "fm_wf fm" "i + k \<le> length (fm_pieces fm)" "d + k * pl < 2 ^ 64"
  shows "sum_completed (fm_completedBits fm) pl i k d = Inr (d + pl * card (completed fm \<inter> {i..<i + k}))"
  using assms(2,3)
proof (induction k arbitrary: i d)
  case 0
  then show ?case by simp
next
  case (Suc k)
  have "completed fm \<inter> {i..<Suc (i + k)} =
      (if i \<in> completed fm then insert i (completed fm \<inter> {Suc i..<Suc (i + k)})
       else completed fm \<inter> {Suc i..<Suc (i + k)})"
    by (auto simp: Suc_le_eq le_less)
  then have split: "card (completed fm \<inter> {i..<Suc (i + k)}) =
      (if i \<in> completed fm then 1 else 0) + card (completed fm \<inter> {Suc i..<Suc (i + k)})"
    by simp
  have "i < length (fm_pieces fm)" using Suc.prems by simp
  with Suc.prems show ?case
    using Suc.IH [of "Suc i"] fm_test(1) [OF assms(1), of i]
    by (auto simp: split add64_small algebra_simps)
qed

end
