(* ===== verification/File_Worker.thy ===== *)
theory File_Worker
  imports File_Manager
begin

text \<open>
  src/ctorrent/torrentfilemanager.cpp, the queue of pieces and the worker thread as a state machine. The
  operations of the manager run under its mutex, so a run of the program is a sequence of whole operations:
  a block asked for, a piece delivered, a piece chosen, a round of the worker, the end. The invariant ties
  the two bit sets to the queue of writes and to the bytes on disk.
\<close>

section \<open>The geometry of the pieces\<close>

text \<open>The bytes piece \<open>i\<close> has, and when the files, the pieces and the metadata fit together.\<close>

definition piece_bytes :: "torrent_meta \<Rightarrow> nat \<Rightarrow> nat" where
  "piece_bytes meta i = min (tm_pieceLength meta) (tm_totalSize meta - i * tm_pieceLength meta)"

definition geometry :: "torrent_meta \<Rightarrow> file_manager \<Rightarrow> bool" where
  "geometry meta fm \<longleftrightarrow>
     laid_out 0 0 (map tf_info (fm_files fm)) \<and> total (fm_files fm) = tm_totalSize meta \<and>
     tm_totalSize meta < 2 ^ 63 \<and> tm_pieceLength meta < 2 ^ 63 \<and>
     (length (fm_pieces fm) - 1) * tm_pieceLength meta < tm_totalSize meta \<and>
     tm_totalSize meta \<le> length (fm_pieces fm) * tm_pieceLength meta"

lemma geometry_pos:
  assumes "geometry meta fm"
  shows "0 < tm_pieceLength meta" "0 < length (fm_pieces fm)" "0 < tm_totalSize meta"
  using assms by (auto simp: geometry_def intro: Nat.gr0I)

lemma piece_begin_le:
  assumes "geometry meta fm" "i < length (fm_pieces fm)"
  shows "i * tm_pieceLength meta < tm_totalSize meta"
proof -
  have "i * tm_pieceLength meta \<le> (length (fm_pieces fm) - 1) * tm_pieceLength meta"
    using assms(2) by (intro mult_le_mono1) simp
  with assms(1) show ?thesis unfolding geometry_def by linarith
qed

lemma piece_bytes_range:
  assumes "geometry meta fm" "i < length (fm_pieces fm)"
  shows "0 < piece_bytes meta i" "piece_bytes meta i \<le> tm_pieceLength meta"
    "i * tm_pieceLength meta + piece_bytes meta i \<le> tm_totalSize meta"
  using piece_begin_le [OF assms] geometry_pos [OF assms(1)] by (auto simp: piece_bytes_def)

lemma piece_bytes_inner:
  assumes "geometry meta fm" "Suc i < length (fm_pieces fm)"
  shows "piece_bytes meta i = tm_pieceLength meta"
  using piece_begin_le [OF assms] by (simp add: piece_bytes_def)

text \<open>The last piece is the remainder, or a full piece when there is none.\<close>

lemma piece_bytes_last:
  assumes "geometry meta fm" "Suc i = length (fm_pieces fm)"
  shows "piece_bytes meta i = (let r = tm_totalSize meta mod tm_pieceLength meta in
    if r = 0 then tm_pieceLength meta else r)"
proof -
  let ?pl = "tm_pieceLength meta" and ?t = "tm_totalSize meta"
  have g: "i * ?pl < ?t" "?t \<le> i * ?pl + ?pl"
    using assms(1) unfolding geometry_def assms(2) [symmetric] by simp_all
  define r where "r = ?t - i * ?pl"
  have t: "?t = i * ?pl + r" "0 < r" "r \<le> ?pl" using g by (simp_all add: r_def)
  have "?t mod ?pl = r mod ?pl" unfolding t(1) by simp
  then show ?thesis
    using t by (cases "r = ?pl") (simp_all add: piece_bytes_def Let_def)
qed

lemma to_i64_small: "n < 2 ^ 63 \<Longrightarrow> to_i64 n = int n"
  by (simp add: to_i64_def signed_of_nat signed_take_bit_int_eq_self)

lemma of_i64_nat: "n < 2 ^ 64 \<Longrightarrow> of_i64 (int n) = n"
  by (simp add: of_i64_def unat_of_nat)

lemma piece_length_bytes:
  assumes "geometry meta fm" "i < length (fm_pieces fm)" "length (fm_pieces fm) < 2 ^ 31"
  shows "piece_length meta fm i = Inr (int (piece_bytes meta i))"
proof -
  have n: "sub64 (length (fm_pieces fm)) 1 = length (fm_pieces fm) - 1"
    using assms(3) geometry_pos(2) [OF assms(1)] by (intro sub64_small) (simp_all add: Suc_le_eq)
  have small: "tm_pieceLength meta < 2 ^ 63" "tm_totalSize meta mod tm_pieceLength meta < 2 ^ 63"
    using assms(1) mod_less_eq_dividend [of "tm_totalSize meta" "tm_pieceLength meta"]
    by (auto simp: geometry_def simp del: mod_less_eq_dividend)
  show ?thesis
  proof (cases "Suc i = length (fm_pieces fm)")
    case True
    then show ?thesis
      using piece_bytes_last [OF assms(1) True] n small geometry_pos(1) [OF assms(1)]
      by (simp add: piece_length_def last_piece_length_def to_i64_small Let_def)
  next
    case False
    then have "Suc i < length (fm_pieces fm)" "i \<noteq> length (fm_pieces fm) - Suc 0" using assms(2) by simp_all
    then show ?thesis
      using piece_bytes_inner [OF assms(1)] n small by (simp add: piece_length_def to_i64_small)
  qed
qed

lemma pieceSize_bytes:
  assumes "geometry meta fm" "i < length (fm_pieces fm)" "length (fm_pieces fm) < 2 ^ 31"
  shows "pieceSize meta fm i = Inr (piece_bytes meta i)"
proof -
  have "piece_bytes meta i < 2 ^ 64"
    using piece_bytes_range(2) [OF assms(1,2)] assms(1) by (simp add: geometry_def)
  then show ?thesis by (simp add: pieceSize_def piece_length_bytes [OF assms] of_i64_nat)
qed

lemma sum_piece_bytes:
  assumes "geometry meta fm"
  shows "(\<Sum>i < length (fm_pieces fm). piece_bytes meta i) = tm_totalSize meta"
proof -
  have "(\<Sum>i < k. piece_bytes meta i) = min (k * tm_pieceLength meta) (tm_totalSize meta)"
    if "k \<le> length (fm_pieces fm)" for k
    using that
  proof (induction k)
    case 0
    then show ?case by simp
  next
    case (Suc k)
    then show ?case
      using piece_begin_le [OF assms, of k] by (simp add: piece_bytes_def)
  qed
  then show ?thesis using assms by (simp add: geometry_def)
qed

section \<open>What a finished piece leaves on disk\<close>

lemma values_of_Inr: "values_of cs = Inr vs \<Longrightarrow> cs = map Some vs"
  by (induction cs arbitrary: vs rule: values_of.induct) (auto elim!: rbindE)

lemma db_bytes_buffer:
  assumes "db_bytes b = Inr bs"
  shows "db_addr b 0 = Inr 0" "length bs = db_size b" "\<exists>rest. db_buffer b = map Some bs @ rest"
proof -
  from assms obtain p cs where p: "db_addr b 0 = Inr p" "slice (db_buffer b) p (db_size b) = Inr cs"
    "values_of cs = Inr bs"
    by (auto simp: db_bytes_def elim!: rbindE)
  then have "p = 0" by (simp add: db_addr_def split: if_splits)
  with p values_of_Inr [OF p(3)] have cs: "map Some bs = take (db_size b) (db_buffer b)" "db_size b \<le> length (db_buffer b)"
    by (auto simp: slice_def split: if_splits)
  show "db_addr b 0 = Inr 0" using p(1) \<open>p = 0\<close> by simp
  show "length bs = db_size b" using arg_cong [OF cs(1), of length] cs(2) by simp
  have "db_buffer b = map Some bs @ drop (db_size b) (db_buffer b)"
    unfolding cs(1) by simp
  then show "\<exists>rest. db_buffer b = map Some bs @ rest" by blast
qed

definition good_piece :: "(u8 list \<Rightarrow> u32 list) \<Rightarrow> torrent_meta \<Rightarrow> file_manager \<Rightarrow> nat \<Rightarrow> u8 list \<Rightarrow> bool" where
  "good_piece sha1 meta fm i bs \<longleftrightarrow>
     length bs = piece_bytes meta i \<and> memcmp5 (sha1 bs) (pc_hash (fm_pieces fm ! i))"

definition verified :: "(u8 list \<Rightarrow> u32 list) \<Rightarrow> torrent_meta \<Rightarrow> file_manager \<Rightarrow> nat \<Rightarrow> bool" where
  "verified sha1 meta fm i \<longleftrightarrow>
     (\<exists>bs. good_piece sha1 meta fm i bs \<and> holds_at (fm_files fm) (i * tm_pieceLength meta) bs)"

definition queued :: "(u8 list \<Rightarrow> u32 list) \<Rightarrow> torrent_meta \<Rightarrow> file_manager \<Rightarrow> write_request \<Rightarrow> bool" where
  "queued sha1 meta fm w \<longleftrightarrow> wr_index w < length (fm_pieces fm) \<and>
     (\<exists>bs. db_bytes (wr_data w) = Inr bs \<and> good_piece sha1 meta fm (wr_index w) bs)"

definition fm_inv :: "(u8 list \<Rightarrow> u32 list) \<Rightarrow> torrent_meta \<Rightarrow> file_manager \<Rightarrow> bool" where
  "fm_inv sha1 meta fm \<longleftrightarrow> fm_wf fm \<and> geometry meta fm \<and> completed fm \<subseteq> {..<length (fm_pieces fm)} \<and>
     pending_set fm = set (map wr_index (fm_writeRequests fm)) \<and>
     distinct (map wr_index (fm_writeRequests fm)) \<and>
     (\<forall>w \<in> set (fm_writeRequests fm). queued sha1 meta fm w) \<and>
     (\<forall>i \<in> completed fm. verified sha1 meta fm i)"

lemma pieces_disjoint:
  fixes i j pl :: nat
  assumes "i \<noteq> j" "a \<le> pl" "b \<le> pl" "k < a"
  shows "\<not> (j * pl \<le> i * pl + k \<and> i * pl + k < j * pl + b)"
proof (cases "i < j")
  case True
  then have "Suc i * pl \<le> j * pl" by (intro mult_le_mono1) simp
  with assms show ?thesis by simp
next
  case False
  then have "Suc j * pl \<le> i * pl" using assms(1) by (intro mult_le_mono1) simp
  with assms show ?thesis by simp
qed

text \<open>Writing a piece to disk: its bytes are there afterwards, and those of the other pieces still are.\<close>

lemma piece_write:
  assumes geo: "geometry meta fm" and i: "wr_index w < length (fm_pieces fm)" and bs: "db_bytes (wr_data w) = Inr bs"
    and n: "length bs = piece_bytes meta (wr_index w)" and acc: "accepts_all accept"
  obtains files where
    "write_to_files accept (fm_files fm) (drop 0 (db_buffer (wr_data w)))
      (mul64 (wr_index w) (tm_pieceLength meta)) 0 (db_size (wr_data w)) = Inr files"
    "map tf_info files = map tf_info (fm_files fm)"
    "holds_at files (wr_index w * tm_pieceLength meta) bs"
    "\<And>j cs. j \<noteq> wr_index w \<Longrightarrow> length cs \<le> tm_pieceLength meta \<Longrightarrow>
      holds_at (fm_files fm) (j * tm_pieceLength meta) cs \<Longrightarrow> holds_at files (j * tm_pieceLength meta) cs"
proof -
  let ?i = "wr_index w" and ?pl = "tm_pieceLength meta"
  obtain rest where rest: "db_buffer (wr_data w) = map Some bs @ rest"
    using db_bytes_buffer(3) [OF bs] by blast
  have len: "length bs = piece_bytes meta ?i" "db_size (wr_data w) = length bs"
    using n db_bytes_buffer(2) [OF bs] by simp_all
  have fits: "?i * ?pl + length bs \<le> tm_totalSize meta" "tm_totalSize meta < 2 ^ 63"
    using piece_bytes_range(3) [OF geo i] geo by (simp_all add: len geometry_def)
  then have pos: "mul64 ?i ?pl = ?i * ?pl" by (intro mul64_small) simp
  have lay: "laid_out 0 0 (map tf_info (fm_files fm))" "total (fm_files fm) = tm_totalSize meta"
    using geo by (simp_all add: geometry_def)
  obtain files where files: "write_to_files accept (fm_files fm) (map Some bs @ rest) (?i * ?pl) 0 (length bs) = Inr files"
    "map tf_info files = map tf_info (fm_files fm)"
    "\<forall>k < length bs. image files (?i * ?pl + k) = Some (bs ! k)"
    "\<forall>p v. image (fm_files fm) p = Some v \<longrightarrow> \<not> (?i * ?pl \<le> p \<and> p < ?i * ?pl + length bs) \<longrightarrow> image files p = Some v"
    using write_to_files_image [OF acc lay(1), of "?i * ?pl" "length bs" 0 bs rest] fits lay(2) by auto
  show thesis
  proof (rule that [of files])
    show "write_to_files accept (fm_files fm) (drop 0 (db_buffer (wr_data w))) (mul64 ?i ?pl) 0 (db_size (wr_data w)) = Inr files"
      using files(1) by (simp add: rest pos len)
    show "map tf_info files = map tf_info (fm_files fm)" by (rule files(2))
    show "holds_at files (?i * ?pl) bs"
      using files(3) by (auto simp: holds_at_def)
    show "holds_at files (j * ?pl) cs"
      if "j \<noteq> ?i" "length cs \<le> ?pl" and cs: "holds_at (fm_files fm) (j * ?pl) cs" for j cs
    proof -
      have "\<not> (?i * ?pl \<le> j * ?pl + k \<and> j * ?pl + k < ?i * ?pl + length bs)" if "k < length cs" for k
        using pieces_disjoint [OF \<open>j \<noteq> ?i\<close> \<open>length cs \<le> ?pl\<close> _ that, of "length bs"] piece_bytes_range(2) [OF geo i] len(1)
        by simp
      then show ?thesis using cs files(4) by (auto simp: holds_at_def)
    qed
  qed
qed

lemma queued_write:
  assumes geo: "geometry meta fm" and q: "queued sha1 meta fm w" and acc: "accepts_all accept"
  obtains files where
    "write_to_files accept (fm_files fm) (drop 0 (db_buffer (wr_data w)))
      (mul64 (wr_index w) (tm_pieceLength meta)) 0 (db_size (wr_data w)) = Inr files"
    "map tf_info files = map tf_info (fm_files fm)"
    "verified sha1 meta (fm\<lparr>fm_files := files\<rparr>) (wr_index w)"
    "\<And>i. i < length (fm_pieces fm) \<Longrightarrow> i \<noteq> wr_index w \<Longrightarrow> verified sha1 meta fm i \<Longrightarrow>
      verified sha1 meta (fm\<lparr>fm_files := files\<rparr>) i"
proof -
  from q obtain bs where i: "wr_index w < length (fm_pieces fm)" and bs: "db_bytes (wr_data w) = Inr bs"
    "good_piece sha1 meta fm (wr_index w) bs" by (auto simp: queued_def)
  have n: "length bs = piece_bytes meta (wr_index w)" using bs(2) by (simp add: good_piece_def)
  obtain files where files: "write_to_files accept (fm_files fm) (drop 0 (db_buffer (wr_data w)))
      (mul64 (wr_index w) (tm_pieceLength meta)) 0 (db_size (wr_data w)) = Inr files"
    "map tf_info files = map tf_info (fm_files fm)" "holds_at files (wr_index w * tm_pieceLength meta) bs"
    "\<And>j cs. j \<noteq> wr_index w \<Longrightarrow> length cs \<le> tm_pieceLength meta \<Longrightarrow>
      holds_at (fm_files fm) (j * tm_pieceLength meta) cs \<Longrightarrow> holds_at files (j * tm_pieceLength meta) cs"
    using piece_write [OF geo i bs(1) n acc] by blast
  show thesis
  proof (rule that [OF files(1,2)])
    show "verified sha1 meta (fm\<lparr>fm_files := files\<rparr>) (wr_index w)"
      using files(3) bs(2) by (auto simp: verified_def good_piece_def)
    show "verified sha1 meta (fm\<lparr>fm_files := files\<rparr>) j"
      if "j < length (fm_pieces fm)" "j \<noteq> wr_index w" "verified sha1 meta fm j" for j
      using that files(4) [OF that(2)] piece_bytes_range(2) [OF geo that(1)] by (fastforce simp: verified_def good_piece_def)
  qed
qed


section \<open>The queue and the bit sets\<close>

lemma wf_set_bits:
  assumes "fm_wf fm" "i < length (fm_pieces fm)"
  obtains pend comp where
    "bitset_clear (fm_pendingBits fm) i = Inr pend" "bitset_set (fm_completedBits fm) i = Inr comp"
    "\<And>files. fm_wf (fm\<lparr>fm_files := files, fm_pendingBits := pend, fm_completedBits := comp\<rparr>)"
    "\<And>files. completed (fm\<lparr>fm_files := files, fm_pendingBits := pend, fm_completedBits := comp\<rparr>) = insert i (completed fm)"
    "\<And>files. pending_set (fm\<lparr>fm_files := files, fm_pendingBits := pend, fm_completedBits := comp\<rparr>) = pending_set fm - {i}"
proof -
  note cap = fm_wf_cap [OF assms]
  obtain pend where p: "bitset_clear (fm_pendingBits fm) i = Inr pend"
    using bits.erase_total [OF cap(2)] by (auto simp: succeeds_iff)
  obtain comp where c: "bitset_set (fm_completedBits fm) i = Inr comp"
    using bits.put_total [OF cap(1)] by (auto simp: succeeds_iff)
  show thesis
    using that [OF p c] assms(1) bitset_clear_frame [OF p cap(2)] bitset_set_frame [OF c cap(1)]
      bits.members_erase [OF p cap(2)] bits.members_put [OF c cap(1)]
    by (simp add: fm_wf_def completed_def pending_set_def)
qed

text \<open>The parts of the state a write request does not touch.\<close>

lemma process_write_queued:
  assumes inv: "fm_inv sha1 meta fm" and ws: "fm_writeRequests fm = w # ws" and acc: "accepts_all accept"
  obtains fm' where "process_write meta accept fm w = Inr (PieceWriteComplete (wr_from w) (wr_index w), fm')"
    "fm_inv sha1 meta (fm'\<lparr>fm_writeRequests := ws\<rparr>)" "completed fm' = insert (wr_index w) (completed fm)"
    "pending_set fm' = pending_set fm - {wr_index w}" "fm_pieces fm' = fm_pieces fm"
    "fm_readRequests fm' = fm_readRequests fm" "fm_stopped fm' = fm_stopped fm"
proof -
  let ?i = "wr_index w"
  from inv ws have wf: "fm_wf fm" and geo: "geometry meta fm" and q: "queued sha1 meta fm w"
    by (simp_all add: fm_inv_def)
  then have i: "?i < length (fm_pieces fm)" by (simp add: queued_def)
  have addr: "db_addr (wr_data w) 0 = Inr 0"
    using q db_bytes_buffer(1) by (auto simp: queued_def)
  obtain files where files: "write_to_files accept (fm_files fm) (drop 0 (db_buffer (wr_data w)))
      (mul64 ?i (tm_pieceLength meta)) 0 (db_size (wr_data w)) = Inr files"
    "map tf_info files = map tf_info (fm_files fm)" "verified sha1 meta (fm\<lparr>fm_files := files\<rparr>) ?i"
    "\<And>i. i < length (fm_pieces fm) \<Longrightarrow> i \<noteq> ?i \<Longrightarrow> verified sha1 meta fm i \<Longrightarrow> verified sha1 meta (fm\<lparr>fm_files := files\<rparr>) i"
    by (rule queued_write [OF geo q acc]) blast
  obtain pend comp where b: "bitset_clear (fm_pendingBits fm) ?i = Inr pend"
    "bitset_set (fm_completedBits fm) ?i = Inr comp"
    and new: "\<And>files. fm_wf (fm\<lparr>fm_files := files, fm_pendingBits := pend, fm_completedBits := comp\<rparr>)"
    "\<And>files. completed (fm\<lparr>fm_files := files, fm_pendingBits := pend, fm_completedBits := comp\<rparr>) = insert ?i (completed fm)"
    "\<And>files. pending_set (fm\<lparr>fm_files := files, fm_pendingBits := pend, fm_completedBits := comp\<rparr>) = pending_set fm - {?i}"
    by (rule wf_set_bits [OF wf i]) blast
  define fm' where "fm' = fm\<lparr>fm_files := files, fm_pendingBits := pend, fm_completedBits := comp\<rparr>"
  have tot: "total files = total (fm_files fm)"
    using arg_cong [OF files(2), of "\<lambda>is. sum_list (map fi_length is)"] by (simp add: comp_def)
  have sub: "completed fm \<subseteq> {..<length (fm_pieces fm)}" "\<forall>j \<in> completed fm. verified sha1 meta fm j"
    using inv by (simp_all add: fm_inv_def)
  have ver: "verified sha1 meta (fm'\<lparr>fm_writeRequests := ws\<rparr>) j" if "j \<in> insert ?i (completed fm)" for j
  proof -
    have "verified sha1 meta (fm\<lparr>fm_files := files\<rparr>) j"
      using that files(3,4) sub by (cases "j = ?i") auto
    then show ?thesis by (simp add: fm'_def verified_def good_piece_def)
  qed
  have "fm_inv sha1 meta (fm'\<lparr>fm_writeRequests := ws\<rparr>)"
    using inv ws new [of files] ver i files(2) tot unfolding fm'_def [symmetric]
    by (auto simp: fm_inv_def fm_wf_def completed_def pending_set_def queued_def good_piece_def geometry_def)
      (auto simp: fm'_def)
  then show thesis
    using that [of fm'] files(1) b addr new [of files]
    by (simp add: process_write_def Let_def fm'_def)
qed


text \<open>The whole queue is written, whatever is in it.\<close>

lemma drain_writes_queued:
  assumes "accepts_all accept"
  shows "fm_inv sha1 meta fm \<Longrightarrow> fm_writeRequests fm = ws \<Longrightarrow>
    \<exists>fm'. drain_writes meta accept fm ws =
        Inr (map (\<lambda>w. PieceWriteComplete (wr_from w) (wr_index w)) ws, fm') \<and>
      fm_inv sha1 meta fm' \<and> fm_writeRequests fm' = [] \<and>
      completed fm' = completed fm \<union> set (map wr_index ws) \<and> fm_pieces fm' = fm_pieces fm \<and>
      fm_readRequests fm' = fm_readRequests fm \<and> fm_stopped fm' = fm_stopped fm"
proof (induction ws arbitrary: fm)
  case Nil
  then show ?case by simp
next
  case (Cons w ws)
  obtain fm1 where fm1: "process_write meta accept fm w = Inr (PieceWriteComplete (wr_from w) (wr_index w), fm1)"
    "fm_inv sha1 meta (fm1\<lparr>fm_writeRequests := ws\<rparr>)" "completed fm1 = insert (wr_index w) (completed fm)"
    "fm_pieces fm1 = fm_pieces fm" "fm_readRequests fm1 = fm_readRequests fm" "fm_stopped fm1 = fm_stopped fm"
    by (rule process_write_queued [OF Cons.prems assms]) blast
  have "completed (fm1\<lparr>fm_writeRequests := ws\<rparr>) = completed fm1" by (simp add: completed_def)
  then show ?case
    using Cons.IH [OF fm1(2)] fm1 by auto
qed

text \<open>Reading moves the streams and nothing else.\<close>

definition same_files :: "torrent_file list \<Rightarrow> torrent_file list \<Rightarrow> bool" where
  "same_files fs gs \<longleftrightarrow> map tf_data fs = map tf_data gs \<and> map tf_info fs = map tf_info gs"

lemma read_loop_same:
  "read_loop f block writePos maxRead readSize = Inr (Some (block', pos', f')) \<Longrightarrow>
    tf_data f' = tf_data f \<and> tf_info f' = tf_info f"
proof (induction f block writePos maxRead readSize arbitrary: block' pos' f' rule: read_loop.induct)
  case (1 f block writePos maxRead readSize)
  show ?case
  proof (cases "writePos < maxRead")
    case True
    obtain bs g where t: "tf_read f (sub64 readSize writePos) = (bs, g)" by fastforce
    then have g: "tf_data g = tf_data f" "tf_info g = tf_info f" by (auto simp: tf_read_def Let_def)
    from 1(2) True t obtain block1 where b: "blit block writePos (map Some bs) = Inr block1" "bs \<noteq> []"
      "read_loop g block1 (writePos + length bs) maxRead readSize = Inr (Some (block', pos', f'))"
      unfolding read_loop.simps [of f block writePos maxRead readSize]
      by (auto elim!: rbindE split: if_splits)
    then show ?thesis using 1(1) [OF True t [symmetric] refl b(1,2) b(3)] g by simp
  next
    case False
    then show ?thesis
      using 1(2) unfolding read_loop.simps [of f block writePos maxRead readSize] by simp
  qed
qed

lemma read_from_files_same:
  "read_from_files fs blockBegin n block writePos = Inr (Some (block', fs')) \<Longrightarrow> same_files fs' fs"
proof (induction fs blockBegin n block writePos arbitrary: block' fs' rule: read_from_files.induct)
  case (1 blockBegin n block writePos)
  then show ?case by (simp add: same_files_def)
next
  case (2 f fs blockBegin n block writePos)
  show ?case
    using 2(3) 2(1) [OF refl _ refl] 2(2) [OF refl _ refl _ refl refl refl]
    by (auto simp: Let_def tf_seek_def same_files_def elim!: rbindE split: if_splits option.splits
        dest!: read_loop_same)
qed

lemma same_files_image: "same_files fs gs \<Longrightarrow> image fs p = image gs p"
proof (induction fs arbitrary: gs)
  case Nil
  then show ?case by (simp add: same_files_def)
next
  case (Cons f fs)
  then obtain g gs' where "gs = g # gs'" "tf_data f = tf_data g" "tf_info f = tf_info g" "same_files fs gs'"
    by (cases gs) (auto simp: same_files_def)
  then show ?case using Cons.IH by simp
qed

lemma total_infos: "map tf_info fs = map tf_info gs \<Longrightarrow> total fs = total gs"
  by (drule arg_cong [of _ _ "\<lambda>is. sum_list (map fi_length is)"]) (simp add: comp_def)

lemma same_files_inv:
  assumes "fm_inv sha1 meta fm" "same_files files (fm_files fm)"
  shows "fm_inv sha1 meta (fm\<lparr>fm_files := files\<rparr>)"
proof -
  have "total files = total (fm_files fm)"
    using assms(2) by (metis (no_types, lifting) same_files_def total_infos)
  moreover have "verified sha1 meta (fm\<lparr>fm_files := files\<rparr>) i = verified sha1 meta fm i" for i
    using same_files_image [OF assms(2)] by (simp add: verified_def good_piece_def holds_at_def)
  ultimately show ?thesis
    using assms by (simp add: fm_inv_def fm_wf_def completed_def pending_set_def queued_def good_piece_def
        geometry_def same_files_def)
qed

text \<open>The invariant does not look at the queue of reads, the counter or the end of the thread.\<close>

lemma fm_inv_frame [simp]:
  "fm_inv sha1 meta (fm\<lparr>fm_readRequests := rs\<rparr>) = fm_inv sha1 meta fm"
  "fm_inv sha1 meta (fm\<lparr>fm_stopped := b\<rparr>) = fm_inv sha1 meta fm"
  "fm_inv sha1 meta (fm\<lparr>fm_rid := n\<rparr>) = fm_inv sha1 meta fm"
  by (simp_all add: fm_inv_def fm_wf_def completed_def pending_set_def queued_def good_piece_def
      geometry_def verified_def)

lemma completed_frame [simp]:
  "completed (fm\<lparr>fm_files := fs\<rparr>) = completed fm" "completed (fm\<lparr>fm_readRequests := rs\<rparr>) = completed fm"
  "completed (fm\<lparr>fm_stopped := b\<rparr>) = completed fm" "completed (fm\<lparr>fm_rid := n\<rparr>) = completed fm"
  "completed (fm\<lparr>fm_pieces := ps\<rparr>) = completed fm" "completed (fm\<lparr>fm_writeRequests := ws\<rparr>) = completed fm"
  "completed (fm\<lparr>fm_pendingBits := p\<rparr>) = completed fm"
  by (simp_all add: completed_def)

lemma pending_frame [simp]:
  "pending_set (fm\<lparr>fm_files := fs\<rparr>) = pending_set fm" "pending_set (fm\<lparr>fm_readRequests := rs\<rparr>) = pending_set fm"
  "pending_set (fm\<lparr>fm_stopped := b\<rparr>) = pending_set fm" "pending_set (fm\<lparr>fm_rid := n\<rparr>) = pending_set fm"
  "pending_set (fm\<lparr>fm_pieces := ps\<rparr>) = pending_set fm" "pending_set (fm\<lparr>fm_writeRequests := ws\<rparr>) = pending_set fm"
  by (simp_all add: pending_set_def)

lemma drain_reads_inv:
  "drain_reads meta fm rs = Inr (es, fm') \<Longrightarrow> fm_inv sha1 meta fm \<Longrightarrow>
    fm_inv sha1 meta fm' \<and> completed fm' = completed fm \<and> fm_pieces fm' = fm_pieces fm"
proof (induction rs arbitrary: fm es fm')
  case Nil
  then show ?case by simp
next
  case (Cons r rs)
  then consider "fm' = fm" | e fm1 es1 where "process_read meta fm r = Inr (Some (e, fm1))"
    "drain_reads meta (fm1\<lparr>fm_readRequests := rs\<rparr>) rs = Inr (es1, fm')"
    by (auto elim!: rbindE split: option.splits)
  then show ?case
  proof cases
    case 1
    then show ?thesis using Cons.prems(2) by simp
  next
    case 2
    from 2(1) obtain block files where "fm1 = fm\<lparr>fm_files := files\<rparr>" "same_files files (fm_files fm)"
      by (auto simp: process_read_def Let_def elim!: rbindE split: option.splits dest!: read_from_files_same)
    then show ?thesis
      using Cons.IH [OF 2(2)] same_files_inv [OF Cons.prems(2)] by simp
  qed
qed

section \<open>The manager as a state machine\<close>

text \<open>
  One operation of the manager, with what it answers. A piece is delivered whole: the writer hands over as
  many bytes as the piece has (\<open>Peer::handleMessage\<close> collects that many blocks, and a peer decides how
  long they are).
\<close>

datatype fm_answer = Accepted bool | Chosen nat | Reported "fm_event list"

inductive fm_step ::
  "(u8 list \<Rightarrow> u32 list) \<Rightarrow> torrent_meta \<Rightarrow> (file_info \<Rightarrow> nat \<Rightarrow> nat) \<Rightarrow> file_manager \<Rightarrow> fm_answer \<Rightarrow> file_manager \<Rightarrow> bool"
  for sha1 meta accept where
  Read: "requestPieceBlock meta fm index from begin n = Inr (b, fm') \<Longrightarrow>
    fm_step sha1 meta accept fm (Accepted b) fm'"
| Write: "writePieceBlock sha1 fm index from data = Inr (b, fm') \<Longrightarrow> db_size data = piece_bytes meta index \<Longrightarrow>
    fm_step sha1 meta accept fm (Accepted b) fm'"
| Next: "get_next_piece fm f = Inr (i, fm') \<Longrightarrow> fm_step sha1 meta accept fm (Chosen i) fm'"
| Round: "worker_round meta accept fm = Inr (es, fm') \<Longrightarrow> fm_step sha1 meta accept fm (Reported es) fm'"
| Stop: "fm_step sha1 meta accept fm (Reported []) (fm\<lparr>fm_stopped := True\<rparr>)"

inductive_cases fm_stepE: "fm_step sha1 meta accept fm a fm'"

inductive fm_run ::
  "(u8 list \<Rightarrow> u32 list) \<Rightarrow> torrent_meta \<Rightarrow> (file_info \<Rightarrow> nat \<Rightarrow> nat) \<Rightarrow> file_manager \<Rightarrow> fm_answer list \<Rightarrow> file_manager \<Rightarrow> bool"
  for sha1 meta accept where
  Start: "fm_run sha1 meta accept fm [] fm"
| Step: "fm_run sha1 meta accept fm as fm1 \<Longrightarrow> fm_step sha1 meta accept fm1 a fm2 \<Longrightarrow>
    fm_run sha1 meta accept fm (as @ [a]) fm2"

lemma requestPieceBlock_frame:
  assumes "requestPieceBlock meta fm index from begin n = Inr (b, fm')" "fm_inv sha1 meta fm"
  shows "fm_inv sha1 meta fm' \<and> completed fm' = completed fm"
  using assms by (auto simp: requestPieceBlock_def push_read_def Let_def elim!: rbindE split: if_splits)

text \<open>A good piece that is not pending may be queued.\<close>

lemma push_write_inv:
  assumes inv: "fm_inv sha1 meta fm" and q: "queued sha1 meta fm w" and fresh: "wr_index w \<notin> pending_set fm"
  obtains p where "push_write fm w = Inr (fm\<lparr>fm_writeRequests := fm_writeRequests fm @ [w], fm_pendingBits := p\<rparr>)"
    "fm_inv sha1 meta (fm\<lparr>fm_writeRequests := fm_writeRequests fm @ [w], fm_pendingBits := p\<rparr>)"
proof -
  have wf: "fm_wf fm" and i: "wr_index w < length (fm_pieces fm)" using inv q by (simp_all add: fm_inv_def queued_def)
  note cap = fm_wf_cap(2) [OF wf i]
  obtain p where p: "bitset_set (fm_pendingBits fm) (wr_index w) = Inr p"
    using bits.put_total [OF cap] by (auto simp: succeeds_iff)
  let ?fm = "fm\<lparr>fm_writeRequests := fm_writeRequests fm @ [w], fm_pendingBits := p\<rparr>"
  have "pending_set ?fm = insert (wr_index w) (pending_set fm)"
    using bits.members_put [OF p cap] by (simp add: pending_set_def)
  moreover have "fm_wf ?fm"
    using wf bitset_set_frame [OF p cap] by (simp add: fm_wf_def)
  ultimately have "fm_inv sha1 meta ?fm"
    using inv q fresh by (auto simp: fm_inv_def queued_def good_piece_def geometry_def verified_def)
  with p that show thesis by (simp add: push_write_def)
qed

lemma eligible_queued:
  assumes inv: "fm_inv sha1 meta fm" and i: "index < length (fm_pieces fm)" and bs: "db_bytes data = Inr bs"
    and el: "is_write_eligible sha1 fm index bs = Inr True" and n: "db_size data = piece_bytes meta index"
  shows "queued sha1 meta fm \<lparr>wr_index = index, wr_from = from, wr_data = data\<rparr> \<and> index \<notin> pending_set fm"
proof -
  have wf: "fm_wf fm" using inv by (simp add: fm_inv_def)
  have "index \<notin> pending_set fm" and "memcmp5 (sha1 bs) (pc_hash (fm_pieces fm ! index))"
    using el fm_test(2) [OF wf i] by (auto simp: is_write_eligible_def elim!: rbindE split: if_splits)
  then show ?thesis using i bs n db_bytes_buffer(2) [OF bs] by (simp add: queued_def good_piece_def)
qed

lemma writePieceBlock_inv:
  assumes w: "writePieceBlock sha1 fm index from data = Inr (b, fm')" "db_size data = piece_bytes meta index"
    and inv: "fm_inv sha1 meta fm"
  shows "fm_inv sha1 meta fm' \<and> completed fm' = completed fm"
proof (cases b)
  case False
  then show ?thesis
    using w inv by (auto simp: writePieceBlock_def elim!: rbindE split: if_splits)
next
  case True
  let ?w = "\<lparr>wr_index = index, wr_from = from, wr_data = data\<rparr>"
  from w(1) True obtain bs where i: "index < length (fm_pieces fm)" and bs: "db_bytes data = Inr bs"
    and el: "is_write_eligible sha1 fm index bs = Inr True" and push: "push_write fm ?w = Inr fm'"
    by (auto simp: writePieceBlock_def intact_def elim!: rbindE split: if_splits)
  have "queued sha1 meta fm ?w" "wr_index ?w \<notin> pending_set fm"
    using eligible_queued [OF inv i bs el w(2)] by simp_all
  then obtain p where "push_write fm ?w = Inr (fm\<lparr>fm_writeRequests := fm_writeRequests fm @ [?w], fm_pendingBits := p\<rparr>)"
    "fm_inv sha1 meta (fm\<lparr>fm_writeRequests := fm_writeRequests fm @ [?w], fm_pendingBits := p\<rparr>)"
    by (rule push_write_inv [OF inv])
  then show ?thesis using push by auto
qed

lemma set_pri_frame:
  "fm_completedBits (set_pri fm i v) = fm_completedBits fm" "fm_pendingBits (set_pri fm i v) = fm_pendingBits fm"
  "fm_writeRequests (set_pri fm i v) = fm_writeRequests fm" "fm_files (set_pri fm i v) = fm_files fm"
  "length (fm_pieces (set_pri fm i v)) = length (fm_pieces fm)"
  "completed (set_pri fm i v) = completed fm" "pending_set (set_pri fm i v) = pending_set fm"
  by (simp_all add: set_pri_def completed_def pending_set_def)

lemma set_pri_hash:
  "j < length (fm_pieces fm) \<Longrightarrow> pc_hash (fm_pieces (set_pri fm i v) ! j) = pc_hash (fm_pieces fm ! j)"
  by (cases "i = j") (simp_all add: set_pri_def)

lemma set_pri_inv:
  assumes "fm_inv sha1 meta fm" "0 \<le> v" "v \<le> INT32_MAX"
  shows "fm_inv sha1 meta (set_pri fm i v)"
proof -
  have pri: "\<forall>p \<in> set (fm_pieces (set_pri fm i v)). 0 \<le> pc_pri p \<and> pc_pri p \<le> INT32_MAX"
    using assms set_update_subset_insert [of "fm_pieces fm" i "(fm_pieces fm ! i)\<lparr>pc_pri := v\<rparr>"]
    by (fastforce simp: set_pri_def fm_inv_def fm_wf_def)
  have "completed fm \<subseteq> {..<length (fm_pieces fm)}" using assms(1) by (simp add: fm_inv_def)
  then show ?thesis
    using assms(1) pri set_pri_hash [of _ fm i v]
    by (auto simp: fm_inv_def fm_wf_def set_pri_frame geometry_def queued_def good_piece_def verified_def subset_iff)
qed


lemma next_piece_loop_pri:
  assumes wf: "fm_wf fm"
  shows "next_piece_loop fm f is index p = Inr (i, fm') \<Longrightarrow> \<forall>j \<in> set is. j < length (fm_pieces fm) \<Longrightarrow>
    p = INT32_MAX \<or> pri fm index = p \<and> 0 \<le> p \<and> p < INT32_MAX \<Longrightarrow>
    fm' = fm \<or> (\<exists>j v. fm' = set_pri fm j v \<and> 0 \<le> v \<and> v \<le> INT32_MAX)"
proof (induction "is" arbitrary: index p)
  case Nil
  then have "fm' = fm \<or> fm' = set_pri fm index (pri fm index + 1) \<and> 0 \<le> pri fm index + 1 \<and>
      pri fm index + 1 \<le> INT32_MAX"
    by (auto split: if_splits)
  then show ?case by blast
next
  case (Cons k ks)
  have k: "0 \<le> pri fm k" "pri fm k \<le> INT32_MAX" "\<forall>j \<in> set ks. j < length (fm_pieces fm)"
    using fm_wf_pri [OF wf] Cons.prems(2) by auto
  from Cons.prems(1) consider "next_piece_loop fm f ks index p = Inr (i, fm')" | "fm' = set_pri fm k 1"
    | "p > pri fm k" "next_piece_loop fm f ks k (pri fm k) = Inr (i, fm')"
    by (auto simp: Let_def elim!: rbindE split: if_splits)
  then show ?case
  proof cases
    case 1
    then show ?thesis using Cons.IH k(3) Cons.prems(3) by blast
  next
    case 2
    have "1 \<le> INT32_MAX" by (simp add: INT32_MAX_def)
    with 2 show ?thesis by (metis zero_le_one)
  next
    case 3
    have "pri fm k < INT32_MAX" using 3(1) Cons.prems(3) by auto
    then show ?thesis using Cons.IH [OF 3(2) k(3)] k(1) by blast
  qed
qed

lemma get_next_piece_inv:
  assumes "get_next_piece fm f = Inr (i, fm')" "fm_inv sha1 meta fm"
  shows "fm_inv sha1 meta fm' \<and> completed fm' = completed fm"
proof -
  have "fm_wf fm" using assms(2) by (simp add: fm_inv_def)
  then have "fm' = fm \<or> (\<exists>j v. fm' = set_pri fm j v \<and> 0 \<le> v \<and> v \<le> INT32_MAX)"
    using next_piece_loop_pri assms(1) by (simp add: get_next_piece_def)
  then show ?thesis using assms(2) set_pri_inv set_pri_frame(6) by blast
qed

lemma worker_round_inv:
  assumes "worker_round meta accept fm = Inr (es, fm')" "fm_inv sha1 meta fm" "accepts_all accept"
  shows "fm_inv sha1 meta fm' \<and> completed fm \<subseteq> completed fm'"
proof (cases "fm_stopped fm")
  case True
  then show ?thesis using assms by (simp add: worker_round_def)
next
  case False
  obtain fm1 where fm1: "drain_writes meta accept fm (fm_writeRequests fm) =
      Inr (map (\<lambda>w. PieceWriteComplete (wr_from w) (wr_index w)) (fm_writeRequests fm), fm1)"
    "fm_inv sha1 meta fm1" "completed fm1 = completed fm \<union> set (map wr_index (fm_writeRequests fm))"
    using drain_writes_queued [OF assms(3) assms(2) refl] by blast
  then obtain es1 where "drain_reads meta fm1 (fm_readRequests fm1) = Inr (es1, fm')"
    using assms(1) False by (auto simp: worker_round_def elim!: rbindE)
  then show ?thesis using drain_reads_inv fm1(2,3) by blast
qed

lemma fm_step_inv:
  assumes "fm_step sha1 meta accept fm a fm'" "fm_inv sha1 meta fm" "accepts_all accept"
  shows "fm_inv sha1 meta fm' \<and> completed fm \<subseteq> completed fm'"
  using assms requestPieceBlock_frame writePieceBlock_inv get_next_piece_inv worker_round_inv
  by (elim fm_stepE) (simp; blast)+

lemma fm_run_inv:
  assumes "accepts_all accept"
  shows "fm_run sha1 meta accept fm as fm' \<Longrightarrow> fm_inv sha1 meta fm \<Longrightarrow>
    fm_inv sha1 meta fm' \<and> completed fm \<subseteq> completed fm'"
proof (induction rule: fm_run.induct)
  case (Start fm)
  then show ?case by simp
next
  case (Step fm as fm1 a fm2)
  then show ?case using fm_step_inv [OF Step.hyps(2) _ assms] by blast
qed

section \<open>The first state\<close>

lemma init_pieces_inv:
  assumes "geometry meta (init_pieces meta (FileManager\<lparr>fm_files := files\<rparr>))" "length (tm_sha1sums meta) < 2 ^ 31"
  shows "fm_inv sha1 meta (init_pieces meta (FileManager\<lparr>fm_files := files\<rparr>))"
  using assms
  by (simp add: fm_inv_def fm_wf_def init_pieces_def FileManager_def completed_def pending_set_def)
    (auto simp: bitset_construct_def INT32_MAX_def)


section \<open>Properties\<close>

text \<open>A torrent of three bytes in two pieces, in two files.\<close>

definition sample_meta :: torrent_meta where
  "sample_meta = TorrentMeta\<lparr>tm_totalSize := 3, tm_pieceLength := 2, tm_sha1sums := [[7], [7]],
     tm_files := [\<lparr>fi_path = ''a'', fi_index = 0, fi_begin = 0, fi_length = 1\<rparr>,
                  \<lparr>fi_path = ''b'', fi_index = 1, fi_begin = 1, fi_length = 2\<rparr>]\<rparr>"

definition sample_fm :: file_manager where
  "sample_fm = init_pieces sample_meta (FileManager\<lparr>fm_files :=
     map (\<lambda>i. \<lparr>tf_data = [], tf_pos = 0, tf_info = i\<rparr>) (tm_files sample_meta)\<rparr>)"

definition sample_data :: "u8 data_buffer" where
  "sample_data = \<lparr>db_size = 2, db_capacity = 2, db_buffer = [Some 5, Some 6]\<rparr>"

lemma sample_inv: "fm_inv (\<lambda>_. [7]) sample_meta sample_fm"
  unfolding sample_fm_def
  by (rule init_pieces_inv) (simp_all add: geometry_def sample_meta_def init_pieces_def FileManager_def TorrentMeta_def)


lemma sample_bytes: "db_bytes sample_data = Inr [5, 6]"
  by (simp add: db_bytes_def sample_data_def db_addr_def slice_def)

lemma le32_inject: "le32 a = le32 b \<longleftrightarrow> a = b"
  by (metis LE32.get_image sum.inject(2))

lemma memcmp5_words:
  "memcmp5 (a # b # x) (c # d # y) \<longleftrightarrow> a = c \<and> (ucast b :: u8) = ucast d"
proof -
  have one: "take 1 (le32 v) = [ucast v]" for v by (simp add: le32_def be32_def)
  have "take 5 (concat (map le32 (a # b # x))) = le32 a @ [ucast b]" for a b x
    using one [of b] by (simp add: take_Cons' numeral_eq_Suc)
  then show ?thesis by (simp add: memcmp5_def le32_inject)
qed

lemma writePieceBlock_result:
  assumes "fm_wf fm" "i < length (fm_pieces fm)" "i \<notin> pending_set fm" "db_bytes data = Inr bs"
  shows "\<exists>fm'. writePieceBlock sha1 fm i from data = Inr (memcmp5 (sha1 bs) (pc_hash (fm_pieces fm ! i)), fm') \<and>
    (if memcmp5 (sha1 bs) (pc_hash (fm_pieces fm ! i))
     then pending_set fm' = insert i (pending_set fm) \<and>
       fm_writeRequests fm' = fm_writeRequests fm @ [\<lparr>wr_index = i, wr_from = from, wr_data = data\<rparr>] \<and>
       fm_readRequests fm' = fm_readRequests fm \<and> completed fm' = completed fm \<and> fm_stopped fm' = fm_stopped fm
     else fm' = fm)"
proof -
  note cap = fm_wf_cap(2) [OF assms(1,2)]
  obtain p where p: "bitset_set (fm_pendingBits fm) i = Inr p"
    using bits.put_total [OF cap] by (auto simp: succeeds_iff)
  have "bits.members p = insert i (pending_set fm)"
    using bits.members_put [OF p cap] by (simp add: pending_set_def)
  then show ?thesis
    using assms fm_test(2) [OF assms(1,2)] p
    by (simp add: writePieceBlock_def intact_def is_write_eligible_def push_write_def)
      (simp add: pending_set_def completed_def)
qed


text \<open>
  Property C11. The worker gets rid of its writes: from a consistent state in which the disk takes all
  bytes, draining the write queue succeeds, reports every queued piece in order, marks all of them
  completed, leaves nothing pending, and keeps the state consistent.
\<close>

theorem worker_writes_all_pending:
  assumes "accepts_all accept" "fm_inv sha1 meta fm"
  shows "\<exists>fm'. drain_writes meta accept fm (fm_writeRequests fm) =
      Inr (map (\<lambda>w. PieceWriteComplete (wr_from w) (wr_index w)) (fm_writeRequests fm), fm') \<and>
    completed fm' = completed fm \<union> pending_set fm \<and> pending_set fm' = {} \<and> fm_inv sha1 meta fm'"
proof -
  have "pending_set fm = set (map wr_index (fm_writeRequests fm))"
    using assms(2) by (simp add: fm_inv_def)
  moreover obtain fm' where "drain_writes meta accept fm (fm_writeRequests fm) =
      Inr (map (\<lambda>w. PieceWriteComplete (wr_from w) (wr_index w)) (fm_writeRequests fm), fm')"
    "fm_inv sha1 meta fm'" "fm_writeRequests fm' = []"
    "completed fm' = completed fm \<union> set (map wr_index (fm_writeRequests fm))"
    using drain_writes_queued [OF assms refl] by blast
  moreover from this(2,3) have "pending_set fm' = {}" by (simp add: fm_inv_def)
  ultimately show ?thesis by auto
qed

text \<open>The sample torrent: its first piece is delivered and written.\<close>

definition all_bytes :: "file_info \<Rightarrow> nat \<Rightarrow> nat" where
  "all_bytes f n = n"

lemma accepts_all_bytes: "accepts_all all_bytes"
  by (simp add: accepts_all_def all_bytes_def)

lemma sample_pieces: "length (fm_pieces sample_fm) = 2" "pc_hash (fm_pieces sample_fm ! 0) = [7]"
  "pending_set sample_fm = {}" "fm_writeRequests sample_fm = []" "fm_readRequests sample_fm = []"
  "completed sample_fm = {}" "fm_stopped sample_fm = False"
  by (simp_all add: sample_fm_def init_pieces_def FileManager_def sample_meta_def TorrentMeta_def
      pending_set_def completed_def)

lemma sample_delivered:
  obtains fm' where "writePieceBlock (\<lambda>_. [7]) sample_fm 0 9 sample_data = Inr (True, fm')"
    "pending_set fm' = {0}" "map wr_index (fm_writeRequests fm') = [0]" "fm_readRequests fm' = []"
    "fm_stopped fm' = False" "fm_inv (\<lambda>_. [7]) sample_meta fm'"
proof -
  have wf: "fm_wf sample_fm" "0 < length (fm_pieces sample_fm)" "0 \<notin> pending_set sample_fm"
    using sample_inv by (simp_all add: fm_inv_def sample_pieces)
  have hash: "memcmp5 [7] (pc_hash (fm_pieces sample_fm ! 0))"
    by (simp add: sample_pieces memcmp5_def)
  obtain fm' where fm': "writePieceBlock (\<lambda>_. [7]) sample_fm 0 9 sample_data = Inr (True, fm')"
    "pending_set fm' = insert 0 (pending_set sample_fm)"
    "fm_writeRequests fm' = fm_writeRequests sample_fm @ [\<lparr>wr_index = 0, wr_from = 9, wr_data = sample_data\<rparr>]"
    "fm_readRequests fm' = fm_readRequests sample_fm" "fm_stopped fm' = fm_stopped sample_fm"
    using writePieceBlock_result [OF wf sample_bytes, of "\<lambda>_. [7]" 9] hash by (simp only: if_True simp_thms) metis
  have "db_size sample_data = piece_bytes sample_meta 0"
    by (simp add: sample_data_def piece_bytes_def sample_meta_def)
  then have "fm_inv (\<lambda>_. [7]) sample_meta fm'"
    using writePieceBlock_inv [OF fm'(1) _ sample_inv] by simp
  with fm' show thesis by (intro that [of fm']) (simp_all add: sample_pieces)
qed

lemma worker_writes_all_pending_witness:
  "\<exists>fm fm'. pending_set fm = {0} \<and> drain_writes sample_meta all_bytes fm (fm_writeRequests fm) =
      Inr (map (\<lambda>w. PieceWriteComplete (wr_from w) (wr_index w)) (fm_writeRequests fm), fm') \<and>
    0 \<in> completed fm' \<and> pending_set fm' = {}"
proof -
  obtain fm where fm: "pending_set fm = {0}" "fm_inv (\<lambda>_. [7]) sample_meta fm"
    by (rule sample_delivered)
  obtain fm' where "drain_writes sample_meta all_bytes fm (fm_writeRequests fm) =
      Inr (map (\<lambda>w. PieceWriteComplete (wr_from w) (wr_index w)) (fm_writeRequests fm), fm')"
    "completed fm' = completed fm \<union> pending_set fm" "pending_set fm' = {}"
    using worker_writes_all_pending [OF accepts_all_bytes fm(2)] by (elim exE conjE)
  with fm(1) show ?thesis by (intro exI [of _ fm] exI [of _ fm'] conjI) simp_all
qed



text \<open>
  Property C25. The next piece: \<open>get_next_piece\<close> returns the first piece of least priority among those that
  are neither completed nor pending and that the filter accepts, and raises the priority of that piece by
  one and of no other; if there is none (or all of them have the largest priority) it returns
  \<open>SIZE_MAX\<close> and changes nothing.
\<close>

theorem get_next_piece_least_priority:
  assumes "fm_wf fm" "\<And>i. i < length (fm_pieces fm) \<Longrightarrow> f i = Inr (has i)"
  shows "case get_next_piece fm f of Inl e \<Rightarrow> False | Inr (i, fm') \<Rightarrow>
    (let free = (\<lambda>j. j < length (fm_pieces fm) \<and> j \<notin> completed fm \<and> j \<notin> pending_set fm \<and> has j) in
     if i = SIZE_MAX then fm' = fm \<and> (\<forall>j. free j \<longrightarrow> pri fm j = INT32_MAX)
     else free i \<and> fm' = set_pri fm i (pri fm i + 1) \<and>
       (\<forall>j. free j \<longrightarrow> pri fm i \<le> pri fm j \<and> (j < i \<longrightarrow> pri fm i < pri fm j)))"
proof -
  have cand: "candidate fm f j \<longleftrightarrow>
      j < length (fm_pieces fm) \<and> j \<notin> completed fm \<and> j \<notin> pending_set fm \<and> has j" for j
    using assms(2) by (auto simp: candidate_def)
  have small: "length (fm_pieces fm) < SIZE_MAX"
    using assms(1) by (simp add: fm_wf_def SIZE_MAX_def)
  have "(\<exists>i. first_least fm f (length (fm_pieces fm)) i \<and>
      get_next_piece fm f = Inr (i, set_pri fm i (pri fm i + 1))) \<or>
    none_left fm f (length (fm_pieces fm)) \<and> get_next_piece fm f = Inr (SIZE_MAX, fm)"
    by (rule get_next_piece_result [OF assms(1)]) (simp add: assms(2))
  then show ?thesis
  proof (elim disjE exE conjE)
    fix i
    assume i: "first_least fm f (length (fm_pieces fm)) i" "get_next_piece fm f = Inr (i, set_pri fm i (pri fm i + 1))"
    then show ?thesis using small by (auto simp: first_least_def cand Let_def)
  next
    assume none: "none_left fm f (length (fm_pieces fm))" "get_next_piece fm f = Inr (SIZE_MAX, fm)"
    then show ?thesis using fm_wf_pri [OF assms(1)] by (fastforce simp: none_left_def cand Let_def)
  qed
qed

lemma get_next_piece_least_priority_witness:
  "\<exists>i fm'. get_next_piece sample_fm (\<lambda>i. Inr (i = 1)) = Inr (i, fm') \<and> i \<in> {1, SIZE_MAX}"
proof -
  have "fm_wf sample_fm" using sample_inv by (simp add: fm_inv_def)
  then show ?thesis
    using get_next_piece_least_priority [of sample_fm "\<lambda>i. Inr (i = 1)" "\<lambda>i. i = 1"]
    by (auto simp: Let_def split: sum.splits if_splits)
qed

text \<open>
  The number of bytes downloaded never includes the last piece: \<open>compute_downloaded\<close> adds one
  piece length for every completed piece but the last, and then looks at a bit behind the last one (the
  loop leaves \<open>i\<close> at \<open>m_pieces.size() - 1\<close> and the code tests \<open>i + 1\<close>).
\<close>

theorem compute_downloaded_skips_last_piece:
  assumes "fm_inv sha1 meta fm"
  shows "compute_downloaded meta fm =
    Inr (tm_pieceLength meta * card (completed fm \<inter> {..<length (fm_pieces fm) - 1}))"
proof -
  let ?n = "length (fm_pieces fm)"
  have wf: "fm_wf fm" and geo: "geometry meta fm" and sub: "completed fm \<subseteq> {..<?n}"
    using assms by (simp_all add: fm_inv_def)
  have n: "0 < ?n" "?n < 2 ^ 31" using geometry_pos(2) [OF geo] wf by (simp_all add: fm_wf_def)
  have s: "sub64 ?n 1 = ?n - 1" using n by (intro sub64_small) (simp_all add: Suc_le_eq)
  have "(?n - 1) * tm_pieceLength meta < tm_totalSize meta" "tm_totalSize meta < 2 ^ 63"
    using geo by (simp_all add: geometry_def)
  then have "(?n - 1) * tm_pieceLength meta < 2 ^ 64" by simp
  then have sum: "sum_completed (fm_completedBits fm) (tm_pieceLength meta) 0 (?n - 1) 0 =
      Inr (tm_pieceLength meta * card (completed fm \<inter> {..<?n - 1}))"
    using sum_completed_members [OF wf, of 0 "?n - 1" 0 "tm_pieceLength meta"] by (simp add: atLeast0LessThan)
  have "?n < bitset_cap (fm_completedBits fm)"
    using wf n by (simp add: fm_wf_def bitset_cap_def bitset_wf_def)
  then have "bitset_test (fm_completedBits fm) ?n = Inr False"
    using bits.test_members sub by (auto simp: completed_def)
  then show ?thesis using sum s n by (simp add: compute_downloaded_def Let_def)
qed

lemma compute_downloaded_skips_last_piece_witness: "compute_downloaded sample_meta sample_fm = Inr 0"
  using compute_downloaded_skips_last_piece [OF sample_inv] by (simp add: sample_pieces)

text \<open>
  What guards the disk: for a piece the torrent has and that is not being written,
  \<open>writePieceBlock\<close> accepts a block exactly when the first word of its digest and the lowest byte of the
  second agree with the metadata (\<open>memcmp\<close> is told to compare 5 bytes of 20); it never fails, and a
  refused block changes nothing.
\<close>

theorem writePieceBlock_checks_five_bytes:
  assumes "fm_wf fm" "i < length (fm_pieces fm)" "i \<notin> pending_set fm" "db_bytes data = Inr bs"
    and "sha1 bs = [d0, d1, d2, d3, d4]" "pc_hash (fm_pieces fm ! i) = [h0, h1, h2, h3, h4]"
  shows "\<exists>fm'. writePieceBlock sha1 fm i from data = Inr (d0 = h0 \<and> (ucast d1 :: u8) = ucast h1, fm') \<and>
    (fm' = fm \<or> d0 = h0 \<and> (ucast d1 :: u8) = ucast h1 \<and> pending_set fm' = insert i (pending_set fm))"
  using writePieceBlock_result [OF assms(1-4), of sha1 "from"]
  unfolding assms(5,6) memcmp5_words by (auto split: if_splits)

definition hashed_fm :: file_manager where
  "hashed_fm = init_pieces (sample_meta\<lparr>tm_sha1sums := [[1, 2, 3, 4, 5]]\<rparr>) FileManager"

lemma writePieceBlock_checks_five_bytes_witness:
  "\<exists>fm'. writePieceBlock (\<lambda>_. [1, 258, 0, 0, 0]) hashed_fm 0 9 sample_data = Inr (True, fm')"
proof -
  have "fm_wf hashed_fm" "0 < length (fm_pieces hashed_fm)" "0 \<notin> pending_set hashed_fm"
    "pc_hash (fm_pieces hashed_fm ! 0) = [1, 2, 3, 4, 5]"
    by (simp_all add: hashed_fm_def init_pieces_def FileManager_def fm_wf_def pending_set_def INT32_MAX_def)
      (simp_all add: bitset_construct_def)
  then show ?thesis
    using writePieceBlock_checks_five_bytes [OF _ _ _ sample_bytes, of hashed_fm 0 "\<lambda>_. [1, 258, 0, 0, 0]"] by fastforce
qed

text \<open>
  The piece sizes are a partition of the torrent: \<open>pieceSize\<close> answers for every piece, with at
  least one byte and at most the piece length, and the sizes add up to the total size.
\<close>

theorem pieceSize_partition:
  assumes "geometry meta fm" "length (fm_pieces fm) < 2 ^ 31"
  shows "\<exists>s. (\<forall>i. i < length (fm_pieces fm) \<longrightarrow> pieceSize meta fm i = Inr (s i) \<and> 0 < s i \<and> s i \<le> tm_pieceLength meta) \<and>
    (\<Sum>i < length (fm_pieces fm). s i) = tm_totalSize meta"
  using pieceSize_bytes [OF assms(1) _ assms(2)] piece_bytes_range [OF assms(1)] sum_piece_bytes [OF assms(1)]
  by (intro exI [of _ "piece_bytes meta"]) simp

lemma pieceSize_partition_witness:
  "\<exists>a b. pieceSize sample_meta sample_fm 0 = Inr a \<and> pieceSize sample_meta sample_fm 1 = Inr b \<and> a + b = 3"
proof -
  have "geometry sample_meta sample_fm" using sample_inv by (simp add: fm_inv_def)
  then obtain s where "\<forall>i. i < length (fm_pieces sample_fm) \<longrightarrow> pieceSize sample_meta sample_fm i = Inr (s i)"
    "(\<Sum>i < length (fm_pieces sample_fm). s i) = tm_totalSize sample_meta"
    using pieceSize_partition [of sample_meta sample_fm] sample_pieces(1) by auto
  then show ?thesis by (auto simp: sample_pieces(1) sample_meta_def numeral_eq_Suc)
qed

text \<open>Which requests are accepted: of completed pieces, and never one that ends with the piece; the last block
  of a piece is refused to every peer.\<close>

lemma request_accepted:
  assumes geo: "geometry meta fm" and wf: "fm_wf fm" and i: "i < length (fm_pieces fm)" and small: "begin + n < 2 ^ 63"
  shows "\<exists>fm'. requestPieceBlock meta fm i frm begin n = Inr (i \<in> completed fm \<and> begin + n < piece_bytes meta i, fm')"
proof -
  have "length (fm_pieces fm) < 2 ^ 31" using wf by (simp add: fm_wf_def)
  note len = piece_length_bytes [OF geo i this]
  have "bitset_test (fm_completedBits fm) i = Inr (i \<in> completed fm)" using fm_test(1) [OF wf i] by simp
  then show ?thesis
    using i small by (simp add: requestPieceBlock_def intact_def is_read_eligible_def len to_i64_small add64_small Let_def)
qed

lemma last_block_is_refused:
  assumes "geometry meta fm" "fm_wf fm" "i < length (fm_pieces fm)" "begin + n < 2 ^ 63" "begin + n = piece_bytes meta i"
  shows "\<exists>fm'. requestPieceBlock meta fm i frm begin n = Inr (False, fm')"
  using request_accepted [OF assms(1-4), of frm] assms(5) by simp

text \<open>
  Property C36. Seeding a torrent of one file: every block request that \<open>requestPieceBlock\<close> accepts is
  queued, and when the worker gets to it, \<open>process_read\<close> writes behind the end of the block it allocated:
  it reads the larger (\<open>std::max\<close>) of what is left of the file and what was asked for.
\<close>

theorem process_read_overruns_block:
  assumes geo: "geometry meta fm" and wf: "fm_wf fm" and one: "fm_files fm = [f]"
    and full: "length (tf_data f) = fi_length (tf_info f)" and small: "begin + n < 2 ^ 63"
    and req: "requestPieceBlock meta fm index from begin n = Inr (True, fm')"
  shows "\<exists>r \<in> set (fm_readRequests fm'). rr_index r = index \<and> rr_begin r = begin \<and> rr_size r = n \<and>
    process_read meta fm' r = Inl OutOfBounds"
proof -
  let ?pl = "tm_pieceLength meta" and ?t = "tm_totalSize meta"
  let ?r = "\<lparr>rr_index = index, rr_id = fm_rid fm, rr_from = from, rr_begin = begin, rr_size = n\<rparr>"
  from req have i: "index < length (fm_pieces fm)" and ok: "is_read_eligible meta fm index (to_i64 (add64 begin n)) = Inr True"
    and fm': "fm' = push_read (fm\<lparr>fm_rid := fm_rid fm + 1\<rparr>) ?r"
    by (auto simp: requestPieceBlock_def intact_def Let_def elim!: rbindE split: if_splits)
  have "length (fm_pieces fm) < 2 ^ 31" using wf by (simp add: fm_wf_def)
  from piece_length_bytes [OF geo i this] ok small have lt: "begin + n < piece_bytes meta index"
    by (auto simp: is_read_eligible_def to_i64_small add64_small elim!: rbindE split: if_splits)
  define pos where "pos = begin + index * ?pl"
  have fi: "fi_begin (tf_info f) = 0" "fi_length (tf_info f) = ?t" "?t < 2 ^ 63"
    using geo by (simp_all add: geometry_def one)
  have pos: "pos + n < ?t" using lt piece_bytes_range(3) [OF geo i] by (simp add: pos_def)
  have arith: "mul64 index ?pl = index * ?pl" "add64 begin (index * ?pl) = pos" "add64 pos 0 = pos"
    "tf_end f = ?t" "sub64 ?t pos = ?t - pos" "sub64 n 0 = n" "add64 0 (?t - pos) = ?t - pos"
    "sub64 (?t - pos) 0 = ?t - pos"
    using pos fi by (simp_all add: mul64_small add64_small sub64_small tf_end_def pos_def)
  define bs where "bs = take (?t - pos) (drop pos (tf_data f))"
  have "n < length bs" using pos full fi by (simp add: bs_def)
  then have "read_loop (tf_seek f pos) (replicate n None) 0 (?t - pos) (?t - pos) = Inl OutOfBounds"
    using pos arith(8) by (subst read_loop.simps) (simp add: tf_read_def tf_seek_def bs_def [symmetric] blit_def Let_def)
  moreover have "max (?t - pos) n = ?t - pos" using pos by simp
  moreover have "fm_files fm' = [f]" by (simp add: fm' push_read_def one)
  ultimately have "process_read meta fm' ?r = Inl OutOfBounds"
    using pos arith fi by (simp add: process_read_def Let_def)
  moreover have "?r \<in> set (fm_readRequests fm')" by (simp add: fm' push_read_def set_insort_key)
  ultimately show ?thesis by (intro bexI [of _ ?r]) simp_all
qed


definition seeding_fm :: file_manager where
  "seeding_fm = sample_fm\<lparr>
     fm_files := [\<lparr>tf_data = [10, 11, 12], tf_pos = 0,
       tf_info = \<lparr>fi_path = ''a'', fi_index = 0, fi_begin = 0, fi_length = 3\<rparr>\<rparr>],
     fm_completedBits := \<lparr>bs_bits = [1, 0], bs_size = 2\<rparr>\<rparr>"

lemma process_read_overruns_block_witness:
  "\<exists>r fm'. requestPieceBlock sample_meta seeding_fm 0 9 0 1 = Inr (True, fm') \<and> rr_size r = 1 \<and>
    process_read sample_meta fm' r = Inl OutOfBounds"
proof -
  have wf: "fm_wf seeding_fm" "geometry sample_meta seeding_fm" "length (fm_pieces seeding_fm) = 2"
    by (simp_all add: seeding_fm_def sample_fm_def init_pieces_def FileManager_def fm_wf_def geometry_def
        sample_meta_def TorrentMeta_def INT32_MAX_def bitset_wf_def)
      (simp_all add: bitset_construct_def)
  have len: "piece_length sample_meta seeding_fm 0 = Inr 2"
    using piece_length_bytes [OF wf(2), of 0] wf(3) by (simp add: piece_bytes_def sample_meta_def)
  have "bitset_test (fm_completedBits seeding_fm) 0 = Inr True"
    by (simp add: test_in seeding_fm_def bitset_cap_def)
  then obtain fm' where req: "requestPieceBlock sample_meta seeding_fm 0 9 0 1 = Inr (True, fm')"
    using wf(3) len by (simp add: requestPieceBlock_def intact_def is_read_eligible_def add64_def to_i64_small Let_def)
  have "\<exists>r \<in> set (fm_readRequests fm'). rr_index r = 0 \<and> rr_begin r = 0 \<and> rr_size r = 1 \<and>
      process_read sample_meta fm' r = Inl OutOfBounds"
    by (rule process_read_overruns_block [OF wf(2,1) _ _ _ req, of "hd (fm_files seeding_fm)"])
      (simp_all add: seeding_fm_def)
  with req show ?thesis by blast
qed

end
