(* ===== verification/File_Threads.thy ===== *)
theory File_Threads
  imports File_Worker
begin

text \<open>
  src/ctorrent/torrentfilemanager.cpp, the two threads: the one that runs peers, which calls the manager, and
  the worker that the constructor starts. They share the two queues under a mutex and a condition variable,
  and \<open>m_stopped\<close>, which is atomic; what the callers test before they take the lock they test without it.
  A step is what a thread does between two points where the other can interfere. \<open>File_Worker\<close> takes every
  operation for one step; here are the theorems that make this right, and the one case where the program hangs.
\<close>

section \<open>State\<close>

text \<open>What a caller does under the lock, and where the threads are. \<open>wait\<close> gives the lock back while it sleeps
  (\<open>WSleep\<close>) and takes it again (\<open>WWake\<close>) before it returns.\<close>

datatype action = PushRead read_request | PushWrite write_request | SetStopped

datatype main_pc = MIdle | MLock action | MAct action | MUnlock action | MNotify action | MJoin | MGone

datatype worker_pc = WTest | WLock | WCheck | WSleep | WWake | WWrites | WReads | WExit | WUnlock | WDone

datatype owner = MainThread | WorkerThread

record threads =
  th_fm :: file_manager
  th_lock :: "owner option"
  th_main :: main_pc
  th_worker :: worker_pc
  th_reported :: "fm_event list"

definition start_threads :: "file_manager \<Rightarrow> threads" where
  "start_threads fm = \<lparr>th_fm = fm, th_lock = None, th_main = MIdle, th_worker = WTest, th_reported = []\<rparr>"

section \<open>The callers\<close>

datatype call =
    AskBlock nat u32 nat nat
  | GivePiece nat u32 "u8 data_buffer"
  | ChoosePiece "nat \<Rightarrow> bool res"
  | Destroy

text \<open>A call up to the lock: \<open>None\<close> when it returns without taking it.\<close>

fun begin_call ::
  "(u8 list \<Rightarrow> u32 list) \<Rightarrow> torrent_meta \<Rightarrow> call \<Rightarrow> file_manager \<Rightarrow> (action option \<times> file_manager) res" where
  "begin_call sha1 meta (AskBlock index from begin n) fm =
     (if \<not> intact fm index then Inr (None, fm)
      else rbind (is_read_eligible meta fm index (to_i64 (add64 begin n))) (\<lambda>ok.
        if \<not> ok then Inr (None, fm)
        else
          let r = \<lparr>rr_index = index, rr_id = fm_rid fm, rr_from = from, rr_begin = begin, rr_size = n\<rparr> in
          Inr (Some (PushRead r), fm\<lparr>fm_rid := fm_rid fm + 1\<rparr>)))"
| "begin_call sha1 meta (GivePiece index from data) fm =
     (if \<not> intact fm index then Inr (None, fm)
      else rbind (db_bytes data) (\<lambda>bs.
        rbind (is_write_eligible sha1 fm index bs) (\<lambda>ok.
          Inr (if ok then Some (PushWrite \<lparr>wr_index = index, wr_from = from, wr_data = data\<rparr>) else None, fm))))"
| "begin_call sha1 meta (ChoosePiece f) fm = rbind (get_next_piece fm f) (\<lambda>(_, fm). Inr (None, fm))"
| "begin_call sha1 meta Destroy fm = Inr (Some SetStopped, fm)"

text \<open>Under the lock.\<close>

fun perform :: "action \<Rightarrow> file_manager \<Rightarrow> file_manager res" where
  "perform (PushRead r) fm = Inr (push_read fm r)"
| "perform (PushWrite w) fm = push_write fm w"
| "perform SetStopped fm = Inr (fm\<lparr>fm_stopped := True\<rparr>)"

text \<open>The next step of the caller, \<open>None\<close> when it is blocked. \<open>notify_all\<close> wakes a sleeping worker and is lost
  on any other; the destructor goes on to \<open>join\<close>.\<close>

definition main_step :: "threads \<Rightarrow> threads option res" where
  "main_step s =
     (case th_main s of
        MIdle \<Rightarrow> Inr None
      | MLock a \<Rightarrow> Inr (if th_lock s = None then Some (s\<lparr>th_lock := Some MainThread, th_main := MAct a\<rparr>) else None)
      | MAct a \<Rightarrow> rbind (perform a (th_fm s)) (\<lambda>fm. Inr (Some (s\<lparr>th_fm := fm, th_main := MUnlock a\<rparr>)))
      | MUnlock a \<Rightarrow> Inr (Some (s\<lparr>th_lock := None, th_main := MNotify a\<rparr>))
      | MNotify a \<Rightarrow> Inr (Some (s\<lparr>th_worker := (if th_worker s = WSleep then WWake else th_worker s),
          th_main := (if a = SetStopped then MJoin else MIdle)\<rparr>))
      | MJoin \<Rightarrow> Inr (if th_worker s = WDone then Some (s\<lparr>th_main := MGone\<rparr>) else None)
      | MGone \<Rightarrow> Inr None)"

section \<open>The worker\<close>

text \<open>The next step of \<open>thread\<close>, \<open>None\<close> when it is blocked. A request is processed and removed in one step,
  with its callback.\<close>

definition worker_step ::
  "torrent_meta \<Rightarrow> (file_info \<Rightarrow> nat \<Rightarrow> nat) \<Rightarrow> threads \<Rightarrow> threads option res" where
  "worker_step meta accept s =
     (let fm = th_fm s in
      case th_worker s of
        WTest \<Rightarrow> Inr (Some (s\<lparr>th_worker := (if fm_stopped fm then WDone else WLock)\<rparr>))
      | WLock \<Rightarrow> Inr (if th_lock s = None then Some (s\<lparr>th_lock := Some WorkerThread, th_worker := WCheck\<rparr>) else None)
      | WCheck \<Rightarrow> Inr (Some (if fm_writeRequests fm = [] \<and> fm_readRequests fm = []
          then s\<lparr>th_lock := None, th_worker := WSleep\<rparr> else s\<lparr>th_worker := WWrites\<rparr>))
      | WSleep \<Rightarrow> Inr None
      | WWake \<Rightarrow> Inr (if th_lock s = None then Some (s\<lparr>th_lock := Some WorkerThread, th_worker := WWrites\<rparr>) else None)
      | WWrites \<Rightarrow>
          (case fm_writeRequests fm of
             [] \<Rightarrow> Inr (Some (s\<lparr>th_worker := WReads\<rparr>))
           | w # ws \<Rightarrow>
               if fm_stopped fm then Inr (Some (s\<lparr>th_worker := WReads\<rparr>))
               else rbind (process_write meta accept fm w) (\<lambda>(e, fm).
                 Inr (Some (s\<lparr>th_fm := fm\<lparr>fm_writeRequests := ws\<rparr>, th_reported := th_reported s @ [e]\<rparr>))))
      | WReads \<Rightarrow>
          (case fm_readRequests fm of
             [] \<Rightarrow> Inr (Some (s\<lparr>th_worker := WExit\<rparr>))
           | r # rs \<Rightarrow>
               if fm_stopped fm then Inr (Some (s\<lparr>th_worker := WExit\<rparr>))
               else rbind (process_read meta fm r) (\<lambda>res.
                 case res of
                   None \<Rightarrow> Inr (Some (s\<lparr>th_worker := WExit\<rparr>))
                 | Some (e, fm) \<Rightarrow>
                     Inr (Some (s\<lparr>th_fm := fm\<lparr>fm_readRequests := rs\<rparr>, th_reported := th_reported s @ [e]\<rparr>))))
      | WExit \<Rightarrow> Inr (Some (if fm_stopped fm then s\<lparr>th_lock := None, th_worker := WDone\<rparr> else s\<lparr>th_worker := WUnlock\<rparr>))
      | WUnlock \<Rightarrow> Inr (Some (s\<lparr>th_lock := None, th_worker := WTest\<rparr>))
      | WDone \<Rightarrow> Inr None)"

section \<open>Runs\<close>

text \<open>A piece is delivered whole, as in \<open>File_Worker\<close>.\<close>

fun whole_piece :: "torrent_meta \<Rightarrow> call \<Rightarrow> bool" where
  "whole_piece meta (GivePiece index from data) \<longleftrightarrow> db_size data = piece_bytes meta index"
| "whole_piece meta _ \<longleftrightarrow> True"

text \<open>The threads take turns as they like, and a sleeping worker may wake without being notified.\<close>

inductive thread_step ::
  "(u8 list \<Rightarrow> u32 list) \<Rightarrow> torrent_meta \<Rightarrow> (file_info \<Rightarrow> nat \<Rightarrow> nat) \<Rightarrow> threads \<Rightarrow> threads \<Rightarrow> bool"
  for sha1 meta accept where
  Call: "th_main s = MIdle \<Longrightarrow> begin_call sha1 meta call (th_fm s) = Inr (a, fm) \<Longrightarrow>
    whole_piece meta call \<Longrightarrow>
    thread_step sha1 meta accept s (s\<lparr>th_fm := fm, th_main := (case a of None \<Rightarrow> MIdle | Some a \<Rightarrow> MLock a)\<rparr>)"
| Main: "main_step s = Inr (Some s') \<Longrightarrow> thread_step sha1 meta accept s s'"
| Worker: "worker_step meta accept s = Inr (Some s') \<Longrightarrow> thread_step sha1 meta accept s s'"
| Spurious: "th_worker s = WSleep \<Longrightarrow> thread_step sha1 meta accept s (s\<lparr>th_worker := WWake\<rparr>)"

abbreviation thread_run ::
  "(u8 list \<Rightarrow> u32 list) \<Rightarrow> torrent_meta \<Rightarrow> (file_info \<Rightarrow> nat \<Rightarrow> nat) \<Rightarrow> threads \<Rightarrow> threads \<Rightarrow> bool" where
  "thread_run sha1 meta accept \<equiv> (thread_step sha1 meta accept)\<^sup>*\<^sup>*"

inductive_cases thread_stepE: "thread_step sha1 meta accept s s'"

text \<open>A call that nothing interrupts is the operation of \<open>File_Manager\<close>.\<close>

definition whole_call ::
  "(u8 list \<Rightarrow> u32 list) \<Rightarrow> torrent_meta \<Rightarrow> call \<Rightarrow> file_manager \<Rightarrow> (bool \<times> file_manager) res" where
  "whole_call sha1 meta call fm =
     rbind (begin_call sha1 meta call fm) (\<lambda>(a, fm).
       case a of None \<Rightarrow> Inr (False, fm) | Some a \<Rightarrow> rbind (perform a fm) (\<lambda>fm. Inr (True, fm)))"

lemma whole_calls:
  "whole_call sha1 meta (AskBlock index from begin n) fm = requestPieceBlock meta fm index from begin n"
  "whole_call sha1 meta (GivePiece index from data) fm = writePieceBlock sha1 fm index from data"
proof -
  have [simp]: "rbind (rbind m f) g = rbind m (\<lambda>x. rbind (f x) g)" for m :: "'x res" and f :: "'x \<Rightarrow> 'y res" and g :: "'y \<Rightarrow> 'z res"
    by (cases m) simp_all
  show "whole_call sha1 meta (AskBlock index from begin n) fm = requestPieceBlock meta fm index from begin n"
    by (auto simp: whole_call_def requestPieceBlock_def push_read_def Let_def intro!: rbind_cong split: if_splits)
  show "whole_call sha1 meta (GivePiece index from data) fm = writePieceBlock sha1 fm index from data"
    by (auto simp: whole_call_def writePieceBlock_def intro!: rbind_cong)
qed

section \<open>The invariant\<close>

fun main_holds :: "main_pc \<Rightarrow> bool" where
  "main_holds (MAct a) \<longleftrightarrow> True"
| "main_holds (MUnlock a) \<longleftrightarrow> True"
| "main_holds _ \<longleftrightarrow> False"

fun worker_holds :: "worker_pc \<Rightarrow> bool" where
  "worker_holds w \<longleftrightarrow> w \<in> {WCheck, WWrites, WReads, WExit, WUnlock}"

fun will_notify :: "main_pc \<Rightarrow> bool" where
  "will_notify (MUnlock a) \<longleftrightarrow> True"
| "will_notify (MNotify a) \<longleftrightarrow> True"
| "will_notify _ \<longleftrightarrow> False"

fun stopping :: "main_pc \<Rightarrow> bool" where
  "stopping (MUnlock a) \<longleftrightarrow> a = SetStopped"
| "stopping (MNotify a) \<longleftrightarrow> a = SetStopped"
| "stopping MJoin \<longleftrightarrow> True"
| "stopping MGone \<longleftrightarrow> True"
| "stopping _ \<longleftrightarrow> False"

text \<open>The action a caller brings is still right when it gets the lock.\<close>

fun action_ok :: "(u8 list \<Rightarrow> u32 list) \<Rightarrow> torrent_meta \<Rightarrow> file_manager \<Rightarrow> main_pc \<Rightarrow> bool" where
  "action_ok sha1 meta fm (MLock (PushWrite w)) \<longleftrightarrow> queued sha1 meta fm w \<and> wr_index w \<notin> pending_set fm"
| "action_ok sha1 meta fm (MAct (PushWrite w)) \<longleftrightarrow> queued sha1 meta fm w \<and> wr_index w \<notin> pending_set fm"
| "action_ok sha1 meta fm _ \<longleftrightarrow> True"

definition mutual_exclusion :: "threads \<Rightarrow> bool" where
  "mutual_exclusion s \<longleftrightarrow> \<not> (main_holds (th_main s) \<and> worker_holds (th_worker s)) \<and>
     th_lock s = (if main_holds (th_main s) then Some MainThread
       else if worker_holds (th_worker s) then Some WorkerThread else None)"

definition no_lost_work :: "threads \<Rightarrow> bool" where
  "no_lost_work s \<longleftrightarrow> (th_worker s = WSleep \<longrightarrow> will_notify (th_main s) \<or>
     fm_writeRequests (th_fm s) = [] \<and> fm_readRequests (th_fm s) = [])"

definition stops :: "threads \<Rightarrow> bool" where
  "stops s \<longleftrightarrow> (fm_stopped (th_fm s) \<longleftrightarrow> stopping (th_main s)) \<and> (th_worker s = WDone \<longrightarrow> stopping (th_main s)) \<and>
     (th_main s = MGone \<longrightarrow> th_worker s = WDone)"

definition thread_inv :: "(u8 list \<Rightarrow> u32 list) \<Rightarrow> torrent_meta \<Rightarrow> threads \<Rightarrow> bool" where
  "thread_inv sha1 meta s \<longleftrightarrow> fm_inv sha1 meta (th_fm s) \<and> action_ok sha1 meta (th_fm s) (th_main s) \<and>
     mutual_exclusion s \<and> no_lost_work s \<and> stops s"

lemmas thread_parts = mutual_exclusion_def no_lost_work_def stops_def

section \<open>The invariant is kept\<close>


lemma action_ok_cong:
  "fm_pieces fm' = fm_pieces fm \<Longrightarrow> pending_set fm' \<subseteq> pending_set fm \<Longrightarrow> action_ok sha1 meta fm m \<Longrightarrow>
    action_ok sha1 meta fm' m"
  by (cases "(sha1, meta, fm, m)" rule: action_ok.cases) (auto simp: queued_def good_piece_def)

lemma get_next_piece_frame:
  assumes "get_next_piece fm f = Inr (i, fm')" "fm_inv sha1 meta fm"
  shows "fm_writeRequests fm' = fm_writeRequests fm" "fm_readRequests fm' = fm_readRequests fm"
    "fm_stopped fm' = fm_stopped fm"
proof -
  have "fm_wf fm" using assms(2) by (simp add: fm_inv_def)
  then have "fm' = fm \<or> (\<exists>j v. fm' = set_pri fm j v \<and> 0 \<le> v \<and> v \<le> INT32_MAX)"
    using next_piece_loop_pri assms(1) by (simp add: get_next_piece_def)
  then show "fm_writeRequests fm' = fm_writeRequests fm" "fm_readRequests fm' = fm_readRequests fm"
    "fm_stopped fm' = fm_stopped fm" by (auto simp: set_pri_def)
qed

lemma begin_call_keeps:
  assumes "begin_call sha1 meta call fm = Inr (a, fm')" "fm_inv sha1 meta fm"
    and "whole_piece meta call"
  shows "fm_inv sha1 meta fm'" "fm_writeRequests fm' = fm_writeRequests fm" "fm_readRequests fm' = fm_readRequests fm"
    "fm_stopped fm' = fm_stopped fm" "completed fm' = completed fm"
    "action_ok sha1 meta fm' (case a of None \<Rightarrow> MIdle | Some a \<Rightarrow> MLock a)"
proof -
  have "fm_inv sha1 meta fm' \<and> fm_writeRequests fm' = fm_writeRequests fm \<and> fm_readRequests fm' = fm_readRequests fm \<and>
    fm_stopped fm' = fm_stopped fm \<and> completed fm' = completed fm \<and>
    action_ok sha1 meta fm' (case a of None \<Rightarrow> MIdle | Some a \<Rightarrow> MLock a)"
  proof (cases call)
    case (AskBlock i frm b n)
    then show ?thesis using assms(1,2) by (auto simp: Let_def elim!: rbindE split: if_splits)
  next
    case (GivePiece i frm data)
    let ?w = "\<lparr>wr_index = i, wr_from = frm, wr_data = data\<rparr>"
    have "fm' = fm \<and> (a = None \<or> a = Some (PushWrite ?w) \<and> i < length (fm_pieces fm) \<and>
        (\<exists>bs. db_bytes data = Inr bs \<and> is_write_eligible sha1 fm i bs = Inr True))"
      using assms(1) unfolding GivePiece by (auto simp: intact_def elim!: rbindE split: if_splits)
    then show ?thesis
      using assms(2,3) eligible_queued [OF assms(2), of i data _ frm] unfolding GivePiece by auto
  next
    case (ChoosePiece f)
    then obtain i where "get_next_piece fm f = Inr (i, fm')" "a = None"
      using assms(1) by (auto elim!: rbindE)
    then show ?thesis using get_next_piece_inv get_next_piece_frame assms(2) by fastforce
  next
    case Destroy
    then show ?thesis using assms(1,2) by auto
  qed
  then show "fm_inv sha1 meta fm'" "fm_writeRequests fm' = fm_writeRequests fm" "fm_readRequests fm' = fm_readRequests fm"
    "fm_stopped fm' = fm_stopped fm" "completed fm' = completed fm"
    "action_ok sha1 meta fm' (case a of None \<Rightarrow> MIdle | Some a \<Rightarrow> MLock a)" by blast+
qed

lemma perform_ok:
  assumes "fm_inv sha1 meta fm" "action_ok sha1 meta fm (MAct a)"
  shows "\<exists>fm'. perform a fm = Inr fm' \<and> fm_inv sha1 meta fm' \<and> completed fm' = completed fm \<and>
    fm_stopped fm' = (fm_stopped fm \<or> a = SetStopped)"
proof (cases a)
  case (PushWrite w)
  then have "queued sha1 meta fm w" "wr_index w \<notin> pending_set fm" using assms(2) by simp_all
  then obtain p where "push_write fm w = Inr (fm\<lparr>fm_writeRequests := fm_writeRequests fm @ [w], fm_pendingBits := p\<rparr>)"
    "fm_inv sha1 meta (fm\<lparr>fm_writeRequests := fm_writeRequests fm @ [w], fm_pendingBits := p\<rparr>)"
    by (rule push_write_inv [OF assms(1)])
  then show ?thesis using PushWrite by (simp add: completed_def)
qed (use assms in \<open>simp_all add: push_read_def\<close>)

lemma main_keeps:
  assumes "main_step s = Inr (Some s')" "thread_inv sha1 meta s"
  shows "thread_inv sha1 meta s' \<and> completed (th_fm s') = completed (th_fm s)"
proof (cases "th_main s")
  case (MAct a)
  then obtain fm where "perform a (th_fm s) = Inr fm" "fm_inv sha1 meta fm" "completed fm = completed (th_fm s)"
    "fm_stopped fm = (fm_stopped (th_fm s) \<or> a = SetStopped)"
    using perform_ok assms(2) by (fastforce simp: thread_inv_def)
  moreover from this(1) have "s' = s\<lparr>th_fm := fm, th_main := MUnlock a\<rparr>"
    using assms(1) MAct by (simp add: main_step_def)
  ultimately show ?thesis
    using assms(2) MAct by (simp add: thread_inv_def thread_parts)
next
  case (MLock a)
  then have "s' = s\<lparr>th_lock := Some MainThread, th_main := MAct a\<rparr>" "th_lock s = None"
    using assms(1) by (simp_all add: main_step_def split: if_splits)
  then show ?thesis
    using assms(2) MLock by (cases a) (simp_all add: thread_inv_def thread_parts split: if_splits)
next
  case (MUnlock a)
  then have "s' = s\<lparr>th_lock := None, th_main := MNotify a\<rparr>" using assms(1) by (simp add: main_step_def)
  then show ?thesis using assms(2) MUnlock by (simp add: thread_inv_def thread_parts)
next
  case (MNotify a)
  then have "s' = s\<lparr>th_worker := (if th_worker s = WSleep then WWake else th_worker s),
      th_main := (if a = SetStopped then MJoin else MIdle)\<rparr>" using assms(1) by (simp add: main_step_def)
  then show ?thesis using assms(2) MNotify by (simp add: thread_inv_def thread_parts) blast
next
  case MJoin
  then have "s' = s\<lparr>th_main := MGone\<rparr>" "th_worker s = WDone"
    using assms(1) by (simp_all add: main_step_def split: if_splits)
  then show ?thesis using assms(2) MJoin by (simp add: thread_inv_def thread_parts)
qed (use assms(1) in \<open>simp_all add: main_step_def\<close>)

text \<open>The worker: no request fails to be written, and the completed pieces only grow.\<close>

lemma worker_keeps:
  assumes "worker_step meta accept s = Inr (Some s')" "thread_inv sha1 meta s" "accepts_all accept"
  shows "thread_inv sha1 meta s' \<and> completed (th_fm s) \<subseteq> completed (th_fm s')"
proof (cases "th_worker s")
  case WWrites
  have fi: "fm_inv sha1 meta (th_fm s)" and ao: "action_ok sha1 meta (th_fm s) (th_main s)"
    using assms(2) by (simp_all add: thread_inv_def)
  show ?thesis
  proof (cases "fm_writeRequests (th_fm s) = [] \<or> fm_stopped (th_fm s)")
    case True
    then have "s' = s\<lparr>th_worker := WReads\<rparr>"
      using assms(1) WWrites by (auto simp: worker_step_def Let_def split: list.splits)
    then show ?thesis using assms(2) WWrites by (simp add: thread_inv_def thread_parts)
  next
    case False
    then obtain w ws where ws: "fm_writeRequests (th_fm s) = w # ws" "\<not> fm_stopped (th_fm s)"
      by (cases "fm_writeRequests (th_fm s)") auto
    obtain fm where fm: "process_write meta accept (th_fm s) w = Inr (PieceWriteComplete (wr_from w) (wr_index w), fm)"
      "fm_inv sha1 meta (fm\<lparr>fm_writeRequests := ws\<rparr>)" "completed fm = insert (wr_index w) (completed (th_fm s))"
      "pending_set fm = pending_set (th_fm s) - {wr_index w}" "fm_pieces fm = fm_pieces (th_fm s)"
      "fm_readRequests fm = fm_readRequests (th_fm s)" "fm_stopped fm = fm_stopped (th_fm s)"
      by (rule process_write_queued [OF fi ws(1) assms(3)])
    have s': "s' = s\<lparr>th_fm := fm\<lparr>fm_writeRequests := ws\<rparr>,
        th_reported := th_reported s @ [PieceWriteComplete (wr_from w) (wr_index w)]\<rparr>"
      using assms(1) WWrites ws fm(1) by (simp add: worker_step_def)
    have "action_ok sha1 meta (fm\<lparr>fm_writeRequests := ws\<rparr>) (th_main s)"
      by (rule action_ok_cong [OF _ _ ao]) (use fm(4,5) in auto)
    then show ?thesis
      using assms(2) WWrites fm(2,3,7) ws(2) by (simp add: s' thread_inv_def thread_parts) blast
  qed
next
  case WReads
  have fi: "fm_inv sha1 meta (th_fm s)" and ao: "action_ok sha1 meta (th_fm s) (th_main s)"
    using assms(2) by (simp_all add: thread_inv_def)
  consider "s' = s\<lparr>th_worker := WExit\<rparr>"
    | r rs e fm where "fm_readRequests (th_fm s) = r # rs" "process_read meta (th_fm s) r = Inr (Some (e, fm))"
      "s' = s\<lparr>th_fm := fm\<lparr>fm_readRequests := rs\<rparr>, th_reported := th_reported s @ [e]\<rparr>"
    using assms(1) WReads
    by (auto simp: worker_step_def Let_def elim!: rbindE split: list.splits if_splits option.splits)
  then show ?thesis
  proof cases
    case 1
    then show ?thesis using assms(2) WReads by (simp add: thread_inv_def thread_parts)
  next
    case 2
    from 2(2) obtain block files where fm: "fm = (th_fm s)\<lparr>fm_files := files\<rparr>" "same_files files (fm_files (th_fm s))"
      by (auto simp: process_read_def Let_def elim!: rbindE split: option.splits dest!: read_from_files_same)
    have "fm_inv sha1 meta fm" using same_files_inv [OF fi fm(2)] by (simp add: fm(1))
    moreover have "action_ok sha1 meta (fm\<lparr>fm_readRequests := rs\<rparr>) (th_main s)"
      by (rule action_ok_cong [OF _ _ ao]) (simp_all add: fm(1))
    ultimately show ?thesis using assms(2) WReads fm(1) by (simp add: 2(3) thread_inv_def thread_parts)
  qed
next
  case WTest
  then have "s' = s\<lparr>th_worker := (if fm_stopped (th_fm s) then WDone else WLock)\<rparr>"
    using assms(1) by (simp add: worker_step_def Let_def)
  then show ?thesis using assms(2) WTest by (simp add: thread_inv_def thread_parts)
next
  case WLock
  then have "s' = s\<lparr>th_lock := Some WorkerThread, th_worker := WCheck\<rparr>" "th_lock s = None"
    using assms(1) by (simp_all add: worker_step_def Let_def split: if_splits)
  then show ?thesis using assms(2) WLock by (simp add: thread_inv_def thread_parts split: if_splits)
next
  case WCheck
  then have "s' = (if fm_writeRequests (th_fm s) = [] \<and> fm_readRequests (th_fm s) = []
      then s\<lparr>th_lock := None, th_worker := WSleep\<rparr> else s\<lparr>th_worker := WWrites\<rparr>)"
    using assms(1) by (simp add: worker_step_def Let_def)
  then show ?thesis using assms(2) WCheck by (simp add: thread_inv_def thread_parts)
next
  case WWake
  then have "s' = s\<lparr>th_lock := Some WorkerThread, th_worker := WWrites\<rparr>" "th_lock s = None"
    using assms(1) by (simp_all add: worker_step_def Let_def split: if_splits)
  then show ?thesis using assms(2) WWake by (simp add: thread_inv_def thread_parts split: if_splits)
next
  case WExit
  then have "s' = (if fm_stopped (th_fm s) then s\<lparr>th_lock := None, th_worker := WDone\<rparr> else s\<lparr>th_worker := WUnlock\<rparr>)"
    using assms(1) by (simp add: worker_step_def Let_def)
  then show ?thesis using assms(2) WExit by (simp add: thread_inv_def thread_parts)
next
  case WUnlock
  then have "s' = s\<lparr>th_lock := None, th_worker := WTest\<rparr>"
    using assms(1) by (simp add: worker_step_def Let_def)
  then show ?thesis using assms(2) WUnlock by (simp add: thread_inv_def thread_parts)
qed (use assms(1) in \<open>simp_all add: worker_step_def\<close>)

lemma thread_step_keeps:
  assumes "thread_step sha1 meta accept s s'" "thread_inv sha1 meta s" "accepts_all accept"
  shows "thread_inv sha1 meta s' \<and> completed (th_fm s) \<subseteq> completed (th_fm s')"
  using assms(1)
proof (cases rule: thread_step.cases)
  case (Call call a fm)
  have "fm_inv sha1 meta (th_fm s)" using assms(2) by (simp add: thread_inv_def)
  note keeps = begin_call_keeps [OF Call(3) this Call(4)]
  show ?thesis
    using keeps assms(2) Call(1,2) by (cases a) (simp_all add: thread_inv_def thread_parts)
next
  case Main
  then show ?thesis using main_keeps assms(2) by blast
next
  case Worker
  then show ?thesis using worker_keeps assms(2,3) by blast
next
  case Spurious
  then show ?thesis using assms(2) by (simp add: thread_inv_def thread_parts)
qed

lemma thread_run_keeps:
  assumes "thread_run sha1 meta accept s s'" "thread_inv sha1 meta s" "accepts_all accept"
  shows "thread_inv sha1 meta s' \<and> completed (th_fm s) \<subseteq> completed (th_fm s')"
  using assms(1)
proof (induction rule: rtranclp_induct)
  case base
  then show ?case using assms(2) by simp
next
  case (step u v)
  then show ?case using thread_step_keeps assms(3) by blast
qed

lemma start_inv: "fm_inv sha1 meta fm \<Longrightarrow> \<not> fm_stopped fm \<Longrightarrow> thread_inv sha1 meta (start_threads fm)"
  by (simp add: start_threads_def thread_inv_def thread_parts)

section \<open>The worker alone\<close>

abbreviation worker_run :: "torrent_meta \<Rightarrow> (file_info \<Rightarrow> nat \<Rightarrow> nat) \<Rightarrow> threads \<Rightarrow> threads \<Rightarrow> bool" where
  "worker_run meta accept \<equiv> (\<lambda>s s'. worker_step meta accept s = Inr (Some s'))\<^sup>*\<^sup>*"

lemma worker_first: "worker_step meta accept s = Inr (Some s1) \<Longrightarrow> worker_run meta accept s1 s' \<Longrightarrow> worker_run meta accept s s'"
  by (rule converse_rtranclp_into_rtranclp)

text \<open>From behind the writes, round the loop to the test for work.\<close>

lemma worker_to_check:
  assumes "fm_readRequests (th_fm s) = []" "\<not> fm_stopped (th_fm s)"
    and "th_worker s \<in> {WReads, WExit, WUnlock, WTest, WLock, WCheck}"
    and "th_lock s = (if worker_holds (th_worker s) then Some WorkerThread else None)"
  shows "worker_run meta accept s (s\<lparr>th_lock := Some WorkerThread, th_worker := WCheck\<rparr>)"
proof -
  let ?at = "\<lambda>l w. s\<lparr>th_lock := l, th_worker := w\<rparr>" and ?goal = "s\<lparr>th_lock := Some WorkerThread, th_worker := WCheck\<rparr>"
  have lock: "worker_run meta accept (?at None WLock) ?goal"
    by (rule worker_first [of _ _ _ ?goal]) (simp_all add: worker_step_def)
  have test: "worker_run meta accept (?at None WTest) ?goal"
    by (rule worker_first [OF _ lock]) (simp add: worker_step_def assms(2))
  have unlock: "worker_run meta accept (?at (Some WorkerThread) WUnlock) ?goal"
    by (rule worker_first [OF _ test]) (simp add: worker_step_def)
  have exit: "worker_run meta accept (?at (Some WorkerThread) WExit) ?goal"
    by (rule worker_first [OF _ unlock]) (simp add: worker_step_def assms(2))
  have reads: "worker_run meta accept (?at (Some WorkerThread) WReads) ?goal"
    by (rule worker_first [OF _ exit]) (simp add: worker_step_def assms(1))
  have here: "worker_run meta accept s ?goal"
    if "worker_run meta accept (?at l w) ?goal" "th_lock s = l" "th_worker s = w" for l w
  proof -
    have "?at l w = s" using that(2,3) by (cases s) simp
    with that(1) show ?thesis by simp
  qed
  from assms(3) consider "th_worker s = WReads" | "th_worker s = WExit" | "th_worker s = WUnlock" | "th_worker s = WTest"
    | "th_worker s = WLock" | "th_worker s = WCheck" by auto
  then show ?thesis
    using here [OF reads] here [OF exit] here [OF unlock] here [OF test] here [OF lock]
      here [where l = "Some WorkerThread" and w = WCheck] assms(4)
    by cases simp_all
qed

text \<open>The loop over the writes.\<close>

lemma worker_drains:
  assumes "accepts_all accept"
  shows "thread_inv sha1 meta s \<Longrightarrow> th_worker s = WWrites \<Longrightarrow> \<not> fm_stopped (th_fm s) \<Longrightarrow> fm_writeRequests (th_fm s) = ws \<Longrightarrow>
    \<exists>s'. worker_run meta accept s s' \<and> thread_inv sha1 meta s' \<and> th_worker s' = WReads \<and> th_main s' = th_main s \<and>
      fm_writeRequests (th_fm s') = [] \<and> fm_readRequests (th_fm s') = fm_readRequests (th_fm s) \<and>
      \<not> fm_stopped (th_fm s') \<and> completed (th_fm s') = completed (th_fm s) \<union> set (map wr_index ws) \<and>
      th_reported s' = th_reported s @ map (\<lambda>w. PieceWriteComplete (wr_from w) (wr_index w)) ws"
proof (induction ws arbitrary: s)
  case Nil
  let ?s = "s\<lparr>th_worker := WReads\<rparr>"
  have "worker_step meta accept s = Inr (Some ?s)" using Nil by (simp add: worker_step_def)
  then show ?case using Nil worker_keeps [OF _ Nil.prems(1) assms] by (intro exI [of _ ?s]) auto
next
  case (Cons w ws)
  have fi: "fm_inv sha1 meta (th_fm s)" using Cons.prems(1) by (simp add: thread_inv_def)
  obtain fm where fm: "process_write meta accept (th_fm s) w = Inr (PieceWriteComplete (wr_from w) (wr_index w), fm)"
    "completed fm = insert (wr_index w) (completed (th_fm s))"
    "fm_readRequests fm = fm_readRequests (th_fm s)" "fm_stopped fm = fm_stopped (th_fm s)"
    by (rule process_write_queued [OF fi Cons.prems(4) assms])
  let ?s = "s\<lparr>th_fm := fm\<lparr>fm_writeRequests := ws\<rparr>, th_reported := th_reported s @ [PieceWriteComplete (wr_from w) (wr_index w)]\<rparr>"
  have step: "worker_step meta accept s = Inr (Some ?s)"
    using Cons.prems(2-4) fm(1) by (simp add: worker_step_def)
  have "thread_inv sha1 meta ?s" using worker_keeps [OF step Cons.prems(1) assms] by blast
  then obtain s' where "worker_run meta accept ?s s'" "thread_inv sha1 meta s'" "th_worker s' = WReads"
    "th_main s' = th_main s" "fm_writeRequests (th_fm s') = []" "fm_readRequests (th_fm s') = fm_readRequests (th_fm s)"
    "\<not> fm_stopped (th_fm s')" "completed (th_fm s') = completed fm \<union> set (map wr_index ws)"
    "th_reported s' = th_reported s @ PieceWriteComplete (wr_from w) (wr_index w) #
      map (\<lambda>w. PieceWriteComplete (wr_from w) (wr_index w)) ws"
    using Cons.IH [of ?s] Cons.prems(2,3) fm(3,4) by auto
  then show ?case using worker_first [OF step] fm(2) by (intro exI [of _ s']) auto
qed

text \<open>What the worker does from \<open>s\<close> when it is left alone: it writes everything, and sleeps.\<close>

definition serves :: "torrent_meta \<Rightarrow> (file_info \<Rightarrow> nat \<Rightarrow> nat) \<Rightarrow> threads \<Rightarrow> threads \<Rightarrow> bool" where
  "serves meta accept s s' \<longleftrightarrow> worker_run meta accept s s' \<and> th_worker s' = WSleep \<and> th_lock s' = None \<and>
     fm_writeRequests (th_fm s') = [] \<and>
     completed (th_fm s') = completed (th_fm s) \<union> set (map wr_index (fm_writeRequests (th_fm s))) \<and>
     th_reported s' = th_reported s @ map (\<lambda>w. PieceWriteComplete (wr_from w) (wr_index w)) (fm_writeRequests (th_fm s))"

lemma serves_after:
  "worker_run meta accept s t \<Longrightarrow> th_fm t = th_fm s \<Longrightarrow> th_reported t = th_reported s \<Longrightarrow> serves meta accept t s' \<Longrightarrow>
    serves meta accept s s'"
  by (auto simp: serves_def)

lemma serves_sleep:
  assumes "th_worker t = WCheck" "fm_writeRequests (th_fm t) = []" "fm_readRequests (th_fm t) = []"
  shows "serves meta accept t (t\<lparr>th_lock := None, th_worker := WSleep\<rparr>)"
  using assms by (simp add: serves_def r_into_rtranclp worker_step_def)

lemma serves_writes:
  assumes "accepts_all accept" "thread_inv sha1 meta t" "th_worker t = WWrites" "fm_readRequests (th_fm t) = []"
    and "\<not> fm_stopped (th_fm t)"
  shows "\<exists>s'. serves meta accept t s'"
proof -
  let ?ws = "fm_writeRequests (th_fm t)"
  obtain u where u: "worker_run meta accept t u" "thread_inv sha1 meta u" "th_worker u = WReads"
    "fm_writeRequests (th_fm u) = []" "fm_readRequests (th_fm u) = []" "\<not> fm_stopped (th_fm u)"
    "completed (th_fm u) = completed (th_fm t) \<union> set (map wr_index ?ws)"
    "th_reported u = th_reported t @ map (\<lambda>w. PieceWriteComplete (wr_from w) (wr_index w)) ?ws"
    using worker_drains [OF assms(1,2,3,5) refl] assms(4) by auto
  let ?v = "u\<lparr>th_lock := Some WorkerThread, th_worker := WCheck\<rparr>"
  let ?s = "?v\<lparr>th_lock := None, th_worker := WSleep\<rparr>"
  have "th_lock u = Some WorkerThread" using u(2,3) by (simp add: thread_inv_def thread_parts)
  then have "worker_run meta accept u ?v" using u(3,5,6) by (intro worker_to_check) simp_all
  moreover have "serves meta accept ?v ?s" using u(4,5) by (intro serves_sleep) simp_all
  ultimately have "worker_run meta accept t ?s" using u(1) unfolding serves_def by (meson rtranclp_trans)
  then show ?thesis using u(4,7,8) by (intro exI [of _ ?s]) (simp add: serves_def)
qed

lemma worker_serves:
  assumes acc: "accepts_all accept" and inv: "thread_inv sha1 meta s" and idle: "th_main s = MIdle"
    and reads: "fm_readRequests (th_fm s) = []"
  shows "\<exists>s'. serves meta accept s s'"
proof -
  have lock: "th_lock s = (if worker_holds (th_worker s) then Some WorkerThread else None)"
    and live: "\<not> fm_stopped (th_fm s)" "th_worker s \<noteq> WDone"
    and asleep: "th_worker s = WSleep \<Longrightarrow> fm_writeRequests (th_fm s) = []"
    using inv idle by (auto simp: thread_inv_def thread_parts)
  have run: "worker_run meta accept a b \<Longrightarrow> thread_inv sha1 meta a \<Longrightarrow> thread_inv sha1 meta b" for a b
    by (induction rule: rtranclp_induct) (use worker_keeps acc in blast)+
  have via: "\<exists>s'. serves meta accept s s'"
    if "worker_run meta accept s t" "t = s\<lparr>th_lock := l, th_worker := WWrites\<rparr>" for t l
    using serves_writes [OF acc run [OF that(1) inv]] serves_after [OF that(1)] that(2) live reads by fastforce
  consider "th_worker s = WSleep" | "th_worker s = WWake" | "th_worker s = WWrites"
    | "th_worker s \<in> {WReads, WExit, WUnlock, WTest, WLock, WCheck}"
    using live(2) by (cases "th_worker s") auto
  then show ?thesis
  proof cases
    case 1
    then show ?thesis using asleep lock by (intro exI [of _ s]) (simp add: serves_def)
  next
    case 2
    then show ?thesis using lock by (intro via [OF _ refl] r_into_rtranclp) (simp add: worker_step_def)
  next
    case 3
    then show ?thesis using serves_writes [OF acc inv _ reads live(1)] by blast
  next
    case 4
    let ?u = "s\<lparr>th_lock := Some WorkerThread, th_worker := WCheck\<rparr>"
    have r: "worker_run meta accept s ?u" by (rule worker_to_check [OF reads live(1) 4 lock])
    show ?thesis
    proof (cases "fm_writeRequests (th_fm s) = []")
      case True
      then show ?thesis using serves_after [OF r _ _ serves_sleep] reads by fastforce
    next
      case False
      have "worker_step meta accept ?u = Inr (Some (s\<lparr>th_lock := Some WorkerThread, th_worker := WWrites\<rparr>))"
        using False by (simp add: worker_step_def)
      with r have "worker_run meta accept s (s\<lparr>th_lock := Some WorkerThread, th_worker := WWrites\<rparr>)"
        by (rule rtranclp.rtrancl_into_rtrancl)
      then show ?thesis by (rule via [OF _ refl])
    qed
  qed
qed

section \<open>The store of pieces\<close>

text \<open>What the manager promises, without threads, queues or bits: a piece is delivered once and is then written;
  \<open>C\<close> are the pieces on disk, \<open>P\<close> those on their way.\<close>

inductive store_step :: "nat set \<times> nat set \<Rightarrow> nat set \<times> nat set \<Rightarrow> bool" where
  Quiet: "store_step (C, P) (C, P)"
| Delivered: "i \<notin> P \<Longrightarrow> store_step (C, P) (C, insert i P)"
| Written: "i \<in> P \<Longrightarrow> store_step (C, P) (insert i C, P - {i})"

definition piece_store :: "threads \<Rightarrow> nat set \<times> nat set" where
  "piece_store s = (completed (th_fm s), pending_set (th_fm s))"

lemma store_by_queue:
  "thread_inv sha1 meta s \<Longrightarrow> piece_store s = (completed (th_fm s), set (map wr_index (fm_writeRequests (th_fm s)))) \<and>
    distinct (map wr_index (fm_writeRequests (th_fm s)))"
  by (simp add: piece_store_def thread_inv_def fm_inv_def)

lemma main_queue:
  assumes "main_step s = Inr (Some s')"
  shows "fm_writeRequests (th_fm s') = fm_writeRequests (th_fm s) \<or>
    (\<exists>w. fm_writeRequests (th_fm s') = fm_writeRequests (th_fm s) @ [w])"
proof (cases "th_main s")
  case (MAct a)
  then obtain fm where fm: "perform a (th_fm s) = Inr fm" "th_fm s' = fm"
    using assms by (auto simp: main_step_def elim!: rbindE)
  have "fm_writeRequests fm = fm_writeRequests (th_fm s) \<or>
      (\<exists>w. fm_writeRequests fm = fm_writeRequests (th_fm s) @ [w])"
    using fm(1) by (cases a) (auto simp: push_read_def push_write_def elim!: rbindE)
  then show ?thesis by (simp only: fm(2))
qed (use assms in \<open>auto simp: main_step_def split: if_splits\<close>)

lemma worker_queue:
  assumes "worker_step meta accept s = Inr (Some s')" "thread_inv sha1 meta s" "accepts_all accept"
  shows "fm_writeRequests (th_fm s') = fm_writeRequests (th_fm s) \<and> completed (th_fm s') = completed (th_fm s) \<or>
    (\<exists>w. fm_writeRequests (th_fm s) = w # fm_writeRequests (th_fm s') \<and>
      completed (th_fm s') = insert (wr_index w) (completed (th_fm s)))"
proof (cases "th_worker s = WWrites \<and> fm_writeRequests (th_fm s) \<noteq> [] \<and> \<not> fm_stopped (th_fm s)")
  case True
  then obtain w ws where ws: "fm_writeRequests (th_fm s) = w # ws" by (cases "fm_writeRequests (th_fm s)") auto
  have fi: "fm_inv sha1 meta (th_fm s)" using assms(2) by (simp add: thread_inv_def)
  obtain fm where fm: "process_write meta accept (th_fm s) w = Inr (PieceWriteComplete (wr_from w) (wr_index w), fm)"
    "completed fm = insert (wr_index w) (completed (th_fm s))"
    by (rule process_write_queued [OF fi ws assms(3)])
  then have "th_fm s' = fm\<lparr>fm_writeRequests := ws\<rparr>" using assms(1) True ws by (auto simp: worker_step_def)
  then show ?thesis using fm(2) ws by simp
next
  case False
  have "fm_writeRequests fm = fm_writeRequests (th_fm s) \<and> completed fm = completed (th_fm s)"
    if "process_read meta (th_fm s) r = Inr (Some (e, fm))" for r e fm
    using that by (auto simp: process_read_def Let_def elim!: rbindE split: option.splits)
  then show ?thesis
    using assms(1) False
    by (cases "th_worker s")
      (auto simp: worker_step_def Let_def elim!: rbindE split: list.splits if_splits option.splits)
qed

lemma thread_step_store:
  assumes step: "thread_step sha1 meta accept s s'" and inv: "thread_inv sha1 meta s" and acc: "accepts_all accept"
  shows "store_step (piece_store s) (piece_store s')"
proof -
  have inv': "thread_inv sha1 meta s'" using thread_step_keeps [OF assms] by blast
  note here = store_by_queue [OF inv] and there = store_by_queue [OF inv']
  from step show ?thesis
  proof cases
    case (Call call a fm)
    have "fm_inv sha1 meta (th_fm s)" using inv by (simp add: thread_inv_def)
    then have "piece_store s' = piece_store s"
      using begin_call_keeps(2,5) [OF Call(3) _ Call(4)] here there Call(1) by simp
    then show ?thesis by (simp add: piece_store_def Quiet)
  next
    case Main
    have "completed (th_fm s') = completed (th_fm s)" using main_keeps [OF Main inv] by blast
    then show ?thesis using main_queue [OF Main] here there by (auto intro: store_step.intros)
  next
    case Worker
    from worker_queue [OF this inv acc] show ?thesis
    proof (elim disjE exE conjE)
      fix w assume w: "fm_writeRequests (th_fm s) = w # fm_writeRequests (th_fm s')"
        "completed (th_fm s') = insert (wr_index w) (completed (th_fm s))"
      then have "snd (piece_store s') = snd (piece_store s) - {wr_index w}" "wr_index w \<in> snd (piece_store s)" using here there by auto
      then show ?thesis using w(2) Written by (simp add: piece_store_def)
    qed (use here there in \<open>simp add: Quiet\<close>)
  next
    case Spurious
    then show ?thesis by (simp add: piece_store_def Quiet)
  qed
qed

text \<open>The destructor overtakes a worker that has tested \<open>m_stopped\<close> and has not got the lock.\<close>

lemma destructor_overtakes:
  assumes "fm_writeRequests fm = []" "fm_readRequests fm = []" "\<not> fm_stopped fm"
  shows "\<exists>s. thread_run sha1 meta accept (start_threads fm) s \<and> th_main s = MJoin \<and> th_worker s = WSleep \<and>
    main_step s = Inr None \<and> worker_step meta accept s = Inr None"
proof -
  let ?at = "\<lambda>b l m w. \<lparr>th_fm = (if b then fm\<lparr>fm_stopped := True\<rparr> else fm), th_lock = l, th_main = m, th_worker = w, th_reported = []\<rparr>"
  note next_step = rtranclp.rtrancl_into_rtrancl
  have "thread_run sha1 meta accept (start_threads fm) (?at False None MIdle WTest)" by (simp add: start_threads_def)
  then have "thread_run sha1 meta accept (start_threads fm) (?at False None MIdle WLock)"
    by (rule next_step) (rule thread_step.Worker, simp add: worker_step_def assms)
  then have "thread_run sha1 meta accept (start_threads fm) (?at False None (MLock SetStopped) WLock)"
    by (rule next_step) (use thread_step.Call [where call = Destroy and a = "Some SetStopped" and s = "?at False None MIdle WLock"] in simp)
  then have "thread_run sha1 meta accept (start_threads fm) (?at False (Some MainThread) (MAct SetStopped) WLock)"
    by (rule next_step) (rule thread_step.Main, simp add: main_step_def)
  then have "thread_run sha1 meta accept (start_threads fm) (?at True (Some MainThread) (MUnlock SetStopped) WLock)"
    by (rule next_step) (rule thread_step.Main, simp add: main_step_def)
  then have "thread_run sha1 meta accept (start_threads fm) (?at True None (MNotify SetStopped) WLock)"
    by (rule next_step) (rule thread_step.Main, simp add: main_step_def)
  then have "thread_run sha1 meta accept (start_threads fm) (?at True None MJoin WLock)"
    by (rule next_step) (rule thread_step.Main, simp add: main_step_def)
  then have "thread_run sha1 meta accept (start_threads fm) (?at True (Some WorkerThread) MJoin WCheck)"
    by (rule next_step) (rule thread_step.Worker, simp add: worker_step_def)
  then have "thread_run sha1 meta accept (start_threads fm) (?at True None MJoin WSleep)"
    by (rule next_step) (rule thread_step.Worker, simp add: worker_step_def assms)
  then show ?thesis by (intro exI [of _ "?at True None MJoin WSleep"]) (simp add: main_step_def worker_step_def)
qed

text \<open>A call that finds the lock free and is not interrupted has the effect of the whole operation.\<close>

lemma uninterrupted_call:
  assumes "whole_call sha1 meta call (th_fm s) = Inr (True, fm')" "th_main s = MIdle" "th_lock s = None"
    and "whole_piece meta call" "call \<noteq> Destroy"
  shows "thread_run sha1 meta accept s
    (s\<lparr>th_fm := fm', th_worker := (if th_worker s = WSleep then WWake else th_worker s)\<rparr>)"
proof -
  obtain a fm where a: "begin_call sha1 meta call (th_fm s) = Inr (Some a, fm)" "perform a fm = Inr fm'"
    using assms(1) by (auto simp: whole_call_def elim!: rbindE split: option.splits)
  then have not_stop: "a \<noteq> SetStopped" using assms(5) by (cases call) (auto simp: Let_def elim!: rbindE split: if_splits)
  let ?at = "\<lambda>fm l m. s\<lparr>th_fm := fm, th_lock := l, th_main := m\<rparr>"
  note next_step = rtranclp.rtrancl_into_rtrancl
  have "thread_step sha1 meta accept s (?at fm None (MLock a))"
    using thread_step.Call [OF assms(2) a(1) assms(4)] assms(3) by (cases s) simp
  then have "thread_run sha1 meta accept s (?at fm None (MLock a))" by (rule r_into_rtranclp)
  then have "thread_run sha1 meta accept s (?at fm (Some MainThread) (MAct a))"
    by (rule next_step) (rule thread_step.Main, simp add: main_step_def)
  then have "thread_run sha1 meta accept s (?at fm' (Some MainThread) (MUnlock a))"
    by (rule next_step) (rule thread_step.Main, simp add: main_step_def a(2))
  then have "thread_run sha1 meta accept s (?at fm' None (MNotify a))"
    by (rule next_step) (rule thread_step.Main, simp add: main_step_def)
  then have "thread_run sha1 meta accept s (?at fm' None MIdle\<lparr>th_worker := (if th_worker s = WSleep then WWake else th_worker s)\<rparr>)"
    by (rule next_step) (rule thread_step.Main, simp add: main_step_def not_stop)
  then show ?thesis using assms(2,3) by (cases s) simp
qed

text \<open>The sample torrent: its first piece has been delivered, and the worker has not begun.\<close>

lemma sample_threads:
  obtains s where "thread_run (\<lambda>_. [7]) sample_meta all_bytes (start_threads sample_fm) s" "th_main s = MIdle"
    "pending_set (th_fm s) = {0}" "map wr_index (fm_writeRequests (th_fm s)) = [0]" "fm_readRequests (th_fm s) = []"
proof -
  obtain fm where fm: "writePieceBlock (\<lambda>_. [7]) sample_fm 0 9 sample_data = Inr (True, fm)"
    "pending_set fm = {0}" "map wr_index (fm_writeRequests fm) = [0]" "fm_readRequests fm = []"
    by (rule sample_delivered)
  let ?s = "start_threads sample_fm"
  have "whole_call (\<lambda>_. [7]) sample_meta (GivePiece 0 9 sample_data) (th_fm ?s) = Inr (True, fm)"
    using fm(1) by (simp add: whole_calls start_threads_def)
  from uninterrupted_call [OF this, of all_bytes]
  have "thread_run (\<lambda>_. [7]) sample_meta all_bytes ?s (?s\<lparr>th_fm := fm\<rparr>)"
    by (simp add: start_threads_def sample_data_def piece_bytes_def sample_meta_def)
  with fm(2-4) show thesis by (intro that [of "?s\<lparr>th_fm := fm\<rparr>"]) (simp_all add: start_threads_def)
qed

lemma sample_running: "\<not> fm_stopped sample_fm" "fm_writeRequests sample_fm = []" "fm_readRequests sample_fm = []"
  by (simp_all add: sample_fm_def init_pieces_def FileManager_def)

section \<open>Properties\<close>


text \<open>
  Property C6. The two threads implement a store: seen from outside, every run of calls, locks and worker steps is
  a run in which pieces that are not on their way are delivered, and pieces that are on their way get written, one at
  a time.
\<close>

theorem threads_refine_store:
  assumes "accepts_all accept" "fm_inv sha1 meta fm" "\<not> fm_stopped fm" "thread_run sha1 meta accept (start_threads fm) s"
  shows "store_step\<^sup>*\<^sup>* (completed fm, pending_set fm) (piece_store s)"
  using assms(4)
proof (induction rule: rtranclp_induct)
  case base
  then show ?case by (simp add: start_threads_def piece_store_def)
next
  case (step u v)
  have "thread_inv sha1 meta u"
    using thread_run_keeps [OF step.hyps(1) start_inv [OF assms(2,3)] assms(1)] by blast
  from thread_step_store [OF step.hyps(2) this assms(1)] show ?case using step.IH by simp
qed

text \<open>
  Property C10. Delivered pieces are written: whenever the network thread is outside of the manager and nobody waits
  to read, the worker alone, wherever it is, writes every queued piece, reports them in order, and goes to sleep.
\<close>

theorem queued_pieces_get_written:
  assumes "accepts_all accept" "fm_inv sha1 meta fm" "\<not> fm_stopped fm" "thread_run sha1 meta accept (start_threads fm) s"
    and "th_main s = MIdle" "fm_readRequests (th_fm s) = []"
  shows "\<exists>s'. worker_run meta accept s s' \<and> th_worker s' = WSleep \<and> fm_writeRequests (th_fm s') = [] \<and>
    completed (th_fm s') = completed (th_fm s) \<union> pending_set (th_fm s) \<and>
    th_reported s' = th_reported s @ map (\<lambda>w. PieceWriteComplete (wr_from w) (wr_index w)) (fm_writeRequests (th_fm s))"
proof -
  have inv: "thread_inv sha1 meta s"
    using thread_run_keeps [OF assms(4) start_inv [OF assms(2,3)] assms(1)] by blast
  then have "pending_set (th_fm s) = set (map wr_index (fm_writeRequests (th_fm s)))"
    by (simp add: thread_inv_def fm_inv_def)
  then show ?thesis using worker_serves [OF assms(1) inv assms(5,6)] by (auto simp: serves_def)
qed

text \<open>
  Property C34. The only way to get stuck: when neither thread can move although the network thread is in the manager,
  then the manager has been destroyed and both threads are through, or the destructor waits for a worker that
  sleeps.
\<close>

theorem threads_stuck_only_in_destructor:
  assumes "accepts_all accept" "fm_inv sha1 meta fm" "\<not> fm_stopped fm" "thread_run sha1 meta accept (start_threads fm) s"
    and "th_main s \<noteq> MIdle" "main_step s = Inr None" "worker_step meta accept s = Inr None"
  shows "th_main s = MGone \<and> th_worker s = WDone \<or> th_main s = MJoin \<and> th_worker s = WSleep"
proof -
  have inv: "thread_inv sha1 meta s"
    using thread_run_keeps [OF assms(4) start_inv [OF assms(2,3)] assms(1)] by blast
  then have excl: "\<not> (main_holds (th_main s) \<and> worker_holds (th_worker s))"
    "th_lock s = (if main_holds (th_main s) then Some MainThread else if worker_holds (th_worker s) then Some WorkerThread else None)"
    and gone: "th_main s = MGone \<Longrightarrow> th_worker s = WDone"
    by (simp_all add: thread_inv_def thread_parts)
  have w: "th_worker s \<in> {WLock, WSleep, WWake, WDone}"
    using assms(7) by (cases "th_worker s")
      (auto simp: worker_step_def Let_def rbind_Inr_iff split: list.splits if_splits option.splits)
  show ?thesis
  proof (cases "th_main s")
    case (MLock a)
    then show ?thesis using assms(6) excl w by (auto simp: main_step_def split: if_splits)
  next
    case MJoin
    then show ?thesis using assms(6,7) excl w by (auto simp: main_step_def worker_step_def split: if_splits)
  qed (use assms(5,6) gone in \<open>auto simp: main_step_def rbind_Inr_iff split: if_splits\<close>)
qed

text \<open>
  Property C35. And it happens: the worker tests \<open>m_stopped\<close>, the destructor runs until \<open>join\<close>, its notification finds
  nobody asleep, and the worker goes to sleep for good; from any manager with nothing to do.
\<close>

theorem destructor_can_hang:
  assumes "fm_writeRequests fm = []" "fm_readRequests fm = []" "\<not> fm_stopped fm"
  shows "\<exists>s. thread_run sha1 meta accept (start_threads fm) s \<and> th_main s = MJoin \<and> th_worker s = WSleep \<and>
    main_step s = Inr None \<and> worker_step meta accept s = Inr None"
  using destructor_overtakes [OF assms] by blast

lemma destructor_can_hang_witness:
  "\<exists>s. thread_run (\<lambda>_. [7]) sample_meta all_bytes (start_threads sample_fm) s \<and> th_main s = MJoin \<and> th_worker s = WSleep \<and>
    main_step s = Inr None \<and> worker_step sample_meta all_bytes s = Inr None"
  by (rule destructor_can_hang [OF sample_running(2,3,1)])


lemma threads_refine_store_witness: "\<exists>C. store_step\<^sup>*\<^sup>* (completed sample_fm, pending_set sample_fm) (C, {0})"
proof -
  obtain s where s: "thread_run (\<lambda>_. [7]) sample_meta all_bytes (start_threads sample_fm) s" "pending_set (th_fm s) = {0}"
    by (rule sample_threads)
  then show ?thesis
    using threads_refine_store [OF accepts_all_bytes sample_inv sample_running(1) s(1)] by (auto simp: piece_store_def)
qed

lemma queued_pieces_get_written_witness:
  "\<exists>s s'. thread_run (\<lambda>_. [7]) sample_meta all_bytes (start_threads sample_fm) s \<and> worker_run sample_meta all_bytes s s' \<and>
    th_worker s' = WSleep \<and> 0 \<in> completed (th_fm s')"
proof -
  obtain s where s: "thread_run (\<lambda>_. [7]) sample_meta all_bytes (start_threads sample_fm) s" "th_main s = MIdle"
    "pending_set (th_fm s) = {0}" "fm_readRequests (th_fm s) = []"
    by (rule sample_threads)
  show ?thesis
    using queued_pieces_get_written [OF accepts_all_bytes sample_inv sample_running(1) s(1,2,4)] s(1,3) by auto
qed

lemma threads_stuck_only_in_destructor_witness:
  "\<exists>s. thread_run (\<lambda>_. [7]) sample_meta all_bytes (start_threads sample_fm) s \<and> th_main s \<noteq> MIdle \<and>
    (th_main s = MGone \<and> th_worker s = WDone \<or> th_main s = MJoin \<and> th_worker s = WSleep)"
proof -
  obtain s where s: "thread_run (\<lambda>_. [7]) sample_meta all_bytes (start_threads sample_fm) s" "th_main s = MJoin"
    "main_step s = Inr None" "worker_step sample_meta all_bytes s = Inr None"
    using destructor_overtakes [OF sample_running(2,3,1)] by blast
  have "th_main s \<noteq> MIdle" by (simp add: s(2))
  then show ?thesis
    using threads_stuck_only_in_destructor [OF accepts_all_bytes sample_inv sample_running(1) s(1) _ s(3,4)] s(1) by blast
qed

end
