(* ===== verification/Connection.thy ===== *)
theory Connection
  imports Prelude
begin

text \<open>
  src/net/connection.{h,cpp}: the buffered TCP connections. What is written to a connection is collected in
  an output stream that a timer flushes 10 ms later; the stream objects are shared pointers that all
  connections take from and return to the pool \<open>g_outputStreams\<close>, so the model has an explicit heap of
  streams. boost::asio is the environment: it calls the handlers, and what the handlers start (waits, reads,
  writes) is recorded in the state. The callbacks a user of the class passes are values of the types
  \<open>'r\<close> (read), \<open>'c\<close> (connect) and \<open>'e\<close> (error); calling one is an event.
\<close>

section \<open>State\<close>

datatype asio_error = NoError | Aborted | Failed string

datatype ('r, 'c, 'e) callback = CallRead 'r "u8 list" | CallConnect 'c | CallError 'e string

text \<open>A \<open>deadline_timer\<close> with its outstanding wait, if any: cancelled or not.\<close>

datatype timer = Idle | Armed | Cancelled

record ('r, 'c, 'e) connection =
  cn_open :: bool
  cn_delayedWriteTimer :: timer
  cn_connectTimer :: timer
  cn_rc :: "'r option"
  cn_cb :: "'c option"
  cn_eh :: "'e option"
  cn_outputStream :: "nat option"
  cn_writes :: "nat list"
  cn_reads :: "(nat \<times> bool) list"
  cn_resolving :: "(string \<times> string) list"
  cn_connecting :: bool

definition Connection :: "('r, 'c, 'e) connection" where
  "Connection = \<lparr>cn_open = False, cn_delayedWriteTimer = Idle, cn_connectTimer = Idle, cn_rc = None,
     cn_cb = None, cn_eh = None, cn_outputStream = None, cn_writes = [], cn_reads = [], cn_resolving = [],
     cn_connecting = False\<rparr>"

definition timer_cancel :: "timer \<Rightarrow> timer" where
  "timer_cancel t = (if t = Armed then Cancelled else t)"

text \<open>All connections, the heap of streams and the pool.\<close>

record ('r, 'c, 'e) net =
  nt_heap :: "nat \<Rightarrow> u8 list"
  nt_next :: nat
  nt_pool :: "nat list"
  nt_conns :: "nat \<Rightarrow> ('r, 'c, 'e) connection"

definition net_start :: "('r, 'c, 'e) net" where
  "net_start = \<lparr>nt_heap = (\<lambda>_. []), nt_next = 0, nt_pool = [], nt_conns = (\<lambda>_. Connection)\<rparr>"

definition upd_conn ::
  "nat \<Rightarrow> (('r, 'c, 'e) connection \<Rightarrow> ('r, 'c, 'e) connection) \<Rightarrow> ('r, 'c, 'e) net \<Rightarrow> ('r, 'c, 'e) net" where
  "upd_conn c f s = s\<lparr>nt_conns := (nt_conns s)(c := f (nt_conns s c))\<rparr>"

section \<open>Writing\<close>

text \<open>The output stream of a connection, taken from the pool or made when it has none.\<close>

definition take_stream :: "nat \<Rightarrow> ('r, 'c, 'e) net \<Rightarrow> nat \<times> ('r, 'c, 'e) net" where
  "take_stream c s =
     (case cn_outputStream (nt_conns s c) of
        Some a \<Rightarrow> (a, s)
      | None \<Rightarrow>
          let (a, s) = (case nt_pool s of
                a # as \<Rightarrow> (a, s\<lparr>nt_pool := as\<rparr>)
              | [] \<Rightarrow> (nt_next s, s\<lparr>nt_next := nt_next s + 1, nt_heap := (nt_heap s)(nt_next s := [])\<rparr>))
          in (a, upd_conn c (\<lambda>k. k\<lparr>cn_outputStream := Some a, cn_delayedWriteTimer := Armed\<rparr>) s))"

definition conn_write :: "nat \<Rightarrow> u8 list \<Rightarrow> ('r, 'c, 'e) net \<Rightarrow> ('r, 'c, 'e) net" where
  "conn_write c bytes s =
     (if \<not> cn_open (nt_conns s c) then s
      else let (a, s) = take_stream c s in s\<lparr>nt_heap := (nt_heap s)(a := nt_heap s a @ bytes)\<rparr>)"

text \<open>The timer's handler; it hands the stream to \<open>async_write\<close>. An empty \<open>shared_ptr\<close> must not be
  dereferenced.\<close>

definition internalWrite :: "nat \<Rightarrow> asio_error \<Rightarrow> ('r, 'c, 'e) net \<Rightarrow> ('r, 'c, 'e) net res" where
  "internalWrite c e s =
     (let s = upd_conn c (\<lambda>k. k\<lparr>cn_delayedWriteTimer := Idle\<rparr>) s; k = nt_conns s c in
      if e = Aborted \<or> \<not> cn_open k then Inr s
      else case cn_outputStream k of
          None \<Rightarrow> Inl OutOfBounds
        | Some a \<Rightarrow> Inr (upd_conn c (\<lambda>k. k\<lparr>cn_outputStream := None, cn_writes := cn_writes k @ [a]\<rparr>) s))"

definition handleError ::
  "nat \<Rightarrow> asio_error \<Rightarrow> ('r, 'c, 'e) net \<Rightarrow> ('r, 'c, 'e) callback list" where
  "handleError c e s =
     (case (e, cn_eh (nt_conns s c)) of (Failed msg, Some eh) \<Rightarrow> [CallError eh msg] | _ \<Rightarrow> [])"

definition handleWrite ::
  "nat \<Rightarrow> asio_error \<Rightarrow> nat \<Rightarrow> ('r, 'c, 'e) net \<Rightarrow> ('r, 'c, 'e) callback list \<times> ('r, 'c, 'e) net" where
  "handleWrite c e a s =
     (let s = upd_conn c (\<lambda>k. k\<lparr>cn_writes := remove1 a (cn_writes k)\<rparr>) s in
      if e = Aborted then ([], s)
      else
        let s = s\<lparr>nt_heap := (nt_heap s)(a := []), nt_pool := nt_pool s @ [a]\<rparr> in
        (if e \<noteq> NoError then handleError c e s else [], s))"

section \<open>Reading, connecting, closing\<close>

definition conn_read :: "nat \<Rightarrow> nat \<Rightarrow> 'r \<Rightarrow> ('r, 'c, 'e) net \<Rightarrow> ('r, 'c, 'e) net" where
  "conn_read c n rc s =
     (if \<not> cn_open (nt_conns s c) then s
      else upd_conn c (\<lambda>k. k\<lparr>cn_rc := Some rc, cn_reads := cn_reads k @ [(n, False)]\<rparr>) s)"

definition conn_read_partial :: "nat \<Rightarrow> nat \<Rightarrow> 'r \<Rightarrow> ('r, 'c, 'e) net \<Rightarrow> ('r, 'c, 'e) net" where
  "conn_read_partial c n rc s =
     (if \<not> cn_open (nt_conns s c) then s
      else upd_conn c (\<lambda>k. k\<lparr>cn_rc := Some rc, cn_reads := cn_reads k @ [(n, True)]\<rparr>) s)"

definition handleRead ::
  "nat \<Rightarrow> asio_error \<Rightarrow> u8 list \<Rightarrow> ('r, 'c, 'e) net \<Rightarrow> ('r, 'c, 'e) callback list \<times> ('r, 'c, 'e) net" where
  "handleRead c e data s =
     (let s = upd_conn c (\<lambda>k. k\<lparr>cn_reads := tl (cn_reads k)\<rparr>) s in
      if e \<noteq> NoError then (handleError c e s, s)
      else (case cn_rc (nt_conns s c) of None \<Rightarrow> [] | Some rc \<Rightarrow> [CallRead rc data], s))"

definition conn_connect :: "nat \<Rightarrow> string \<Rightarrow> string \<Rightarrow> 'c \<Rightarrow> ('r, 'c, 'e) net \<Rightarrow> ('r, 'c, 'e) net" where
  "conn_connect c host port cb s =
     upd_conn c (\<lambda>k. k\<lparr>cn_connectTimer := timer_cancel (cn_connectTimer k), cn_cb := Some cb,
       cn_resolving := cn_resolving k @ [(host, port)]\<rparr>) s"

definition handleResolve ::
  "nat \<Rightarrow> asio_error \<Rightarrow> ('r, 'c, 'e) net \<Rightarrow> ('r, 'c, 'e) callback list \<times> ('r, 'c, 'e) net" where
  "handleResolve c e s =
     (let s = upd_conn c (\<lambda>k. k\<lparr>cn_connectTimer := timer_cancel (cn_connectTimer k), cn_resolving := tl (cn_resolving k)\<rparr>) s in
      if e \<noteq> NoError then (handleError c e s, s)
      else ([], upd_conn c (\<lambda>k. k\<lparr>cn_open := True, cn_connecting := True, cn_connectTimer := Armed\<rparr>) s))"

definition handleConnect ::
  "nat \<Rightarrow> asio_error \<Rightarrow> ('r, 'c, 'e) net \<Rightarrow> ('r, 'c, 'e) callback list \<times> ('r, 'c, 'e) net" where
  "handleConnect c e s =
     (let s = upd_conn c (\<lambda>k. k\<lparr>cn_connectTimer := timer_cancel (cn_connectTimer k), cn_connecting := False\<rparr>) s in
      if e \<noteq> NoError then (handleError c e s, s)
      else (case cn_cb (nt_conns s c) of None \<Rightarrow> [] | Some cb \<Rightarrow> [CallConnect cb], s))"

definition handleTimeout ::
  "nat \<Rightarrow> asio_error \<Rightarrow> ('r, 'c, 'e) net \<Rightarrow> ('r, 'c, 'e) callback list \<times> ('r, 'c, 'e) net" where
  "handleTimeout c e s =
     (let s = upd_conn c (\<lambda>k. k\<lparr>cn_connectTimer := Idle\<rparr>) s in
      if e \<noteq> Aborted then (handleError c (Failed ''timed out'') s, s) else ([], s))"

text \<open>\<open>e\<close> is what the shutdown of the socket reports.\<close>

definition conn_close ::
  "nat \<Rightarrow> bool \<Rightarrow> asio_error \<Rightarrow> ('r, 'c, 'e) net \<Rightarrow> ('r, 'c, 'e) callback list \<times> ('r, 'c, 'e) net" where
  "conn_close c warn e s =
     (let s = upd_conn c (\<lambda>k. k\<lparr>cn_delayedWriteTimer := timer_cancel (cn_delayedWriteTimer k),
            cn_connectTimer := timer_cancel (cn_connectTimer k)\<rparr>) s;
          k = nt_conns s c in
      if \<not> cn_open k
      then (case cn_eh k of
              Some eh \<Rightarrow> if warn then [CallError eh ''Connection::close(): Called on an already closed connection!''] else []
            | None \<Rightarrow> [], s)
      else
        let s = upd_conn c (\<lambda>k. k\<lparr>cn_open := False\<rparr>) s in
        (case (e, cn_eh k) of (Failed msg, Some eh) \<Rightarrow> if warn then [CallError eh msg] else [] | _ \<Rightarrow> [], s))"

definition setErrorCallback :: "nat \<Rightarrow> 'e option \<Rightarrow> ('r, 'c, 'e) net \<Rightarrow> ('r, 'c, 'e) net" where
  "setErrorCallback c eh s = upd_conn c (\<lambda>k. k\<lparr>cn_eh := eh\<rparr>) s"


section \<open>Runs\<close>

text \<open>
  The steps of the program and of asio. A timer's handler runs once per wait, with \<open>Aborted\<close> only if the
  wait was cancelled; a write completes with any result. A connection object is connected (or accepted)
  when it is not open and has nothing to send: the program makes a new one for every peer.
\<close>

datatype net_label = Wrote nat "u8 list" | Flushed nat "u8 list" | Internal

inductive net_step :: "('r, 'c, 'e) net \<Rightarrow> net_label \<Rightarrow> ('r, 'c, 'e) net \<Rightarrow> bool" where
  Write: "net_step s (Wrote c (if cn_open (nt_conns s c) then bytes else [])) (conn_write c bytes s)"
| Timer: "cn_delayedWriteTimer (nt_conns s c) \<noteq> Idle \<Longrightarrow>
    e = NoError \<or> e = Aborted \<and> cn_delayedWriteTimer (nt_conns s c) = Cancelled \<Longrightarrow>
    internalWrite c e s = Inr s' \<Longrightarrow>
    net_step s (Flushed c (if e = Aborted \<or> \<not> cn_open (nt_conns s c) then []
      else nt_heap s (the (cn_outputStream (nt_conns s c))))) s'"
| Sent: "a \<in> set (cn_writes (nt_conns s c)) \<Longrightarrow> net_step s Internal (snd (handleWrite c e a s))"
| Read: "net_step s Internal (conn_read c n rc s)"
| Read_Partial: "net_step s Internal (conn_read_partial c n rc s)"
| Data: "net_step s Internal (snd (handleRead c e data s))"
| Connect: "\<not> cn_open (nt_conns s c) \<Longrightarrow> cn_outputStream (nt_conns s c) = None \<Longrightarrow> cn_resolving (nt_conns s c) = [] \<Longrightarrow>
    net_step s Internal (conn_connect c host port cb s)"
| Resolved: "cn_resolving (nt_conns s c) \<noteq> [] \<Longrightarrow> net_step s Internal (snd (handleResolve c e s))"
| Connected: "net_step s Internal (snd (handleConnect c e s))"
| Accepted: "\<not> cn_open (nt_conns s c) \<Longrightarrow> cn_outputStream (nt_conns s c) = None \<Longrightarrow> cn_resolving (nt_conns s c) = [] \<Longrightarrow>
    net_step s Internal (upd_conn c (\<lambda>k. k\<lparr>cn_open := True\<rparr>) s)"
| Timeout: "net_step s Internal (snd (handleTimeout c e s))"
| Close: "net_step s Internal (snd (conn_close c warn e s))"
| Callback: "net_step s Internal (setErrorCallback c eh s)"

inductive_cases net_stepE: "net_step s l s'"

inductive net_run :: "net_label list \<Rightarrow> ('r, 'c, 'e) net \<Rightarrow> bool" where
  Start: "net_run [] net_start"
| Step: "net_run ls s \<Longrightarrow> net_step s l s' \<Longrightarrow> net_run (ls @ [l]) s'"

text \<open>The bytes given to a connection, and the bytes given to its socket, in order.\<close>

fun written :: "nat \<Rightarrow> net_label list \<Rightarrow> u8 list" where
  "written c [] = []"
| "written c (Wrote d bs # ls) = (if d = c then bs else []) @ written c ls"
| "written c (l # ls) = written c ls"

fun flushed :: "nat \<Rightarrow> net_label list \<Rightarrow> u8 list" where
  "flushed c [] = []"
| "flushed c (Flushed d bs # ls) = (if d = c then bs else []) @ flushed c ls"
| "flushed c (l # ls) = flushed c ls"

lemma written_snoc: "written c (ls @ [l]) = written c ls @ written c [l]"
  by (induction c ls rule: written.induct) auto

lemma flushed_snoc: "flushed c (ls @ [l]) = flushed c ls @ flushed c [l]"
  by (induction c ls rule: flushed.induct) auto

section \<open>Who owns a stream\<close>

definition owned :: "('r, 'c, 'e) connection \<Rightarrow> nat list" where
  "owned k = (case cn_outputStream k of None \<Rightarrow> [] | Some a \<Rightarrow> [a]) @ cn_writes k"

definition unsent :: "('r, 'c, 'e) net \<Rightarrow> nat \<Rightarrow> u8 list" where
  "unsent s c = (case cn_outputStream (nt_conns s c) of None \<Rightarrow> [] | Some a \<Rightarrow> nt_heap s a)"

text \<open>Every stream is in the pool, empty, or belongs to one connection, as its current stream or in
  flight.\<close>

definition streams_ok :: "('r, 'c, 'e) net \<Rightarrow> bool" where
  "streams_ok s \<longleftrightarrow> distinct (nt_pool s) \<and> (\<forall>a \<in> set (nt_pool s). a < nt_next s \<and> nt_heap s a = []) \<and>
     (\<forall>c. distinct (owned (nt_conns s c))) \<and>
     (\<forall>c. \<forall>a \<in> set (owned (nt_conns s c)). a < nt_next s \<and> a \<notin> set (nt_pool s)) \<and>
     (\<forall>c d a. a \<in> set (owned (nt_conns s c)) \<longrightarrow> a \<in> set (owned (nt_conns s d)) \<longrightarrow> c = d)"

text \<open>A stream to be flushed has its timer running as long as the connection is open.\<close>

definition timers_ok :: "('r, 'c, 'e) connection \<Rightarrow> bool" where
  "timers_ok k \<longleftrightarrow> (cn_outputStream k = None \<longrightarrow> cn_delayedWriteTimer k = Idle) \<and>
     (cn_open k \<and> cn_outputStream k \<noteq> None \<longrightarrow> cn_delayedWriteTimer k = Armed) \<and>
     (cn_resolving k \<noteq> [] \<longrightarrow> \<not> cn_open k \<and> cn_outputStream k = None) \<and> tl (cn_resolving k) = []"

definition net_inv :: "('r, 'c, 'e) net \<Rightarrow> bool" where
  "net_inv s \<longleftrightarrow> streams_ok s \<and> (\<forall>c. timers_ok (nt_conns s c))"

lemma net_inv_start: "net_inv net_start"
  by (simp add: net_inv_def streams_ok_def timers_ok_def net_start_def Connection_def owned_def)

lemma upd_conn_sel [simp]:
  "nt_conns (upd_conn c f s) d = (if d = c then f (nt_conns s c) else nt_conns s d)"
  "nt_heap (upd_conn c f s) = nt_heap s" "nt_next (upd_conn c f s) = nt_next s" "nt_pool (upd_conn c f s) = nt_pool s"
  by (simp_all add: upd_conn_def)

text \<open>Steps that leave the streams of all connections alone.\<close>

definition quiet :: "('r, 'c, 'e) net \<Rightarrow> ('r, 'c, 'e) net \<Rightarrow> bool" where
  "quiet s s' \<longleftrightarrow> nt_heap s' = nt_heap s \<and> nt_next s' = nt_next s \<and> nt_pool s' = nt_pool s \<and>
     (\<forall>d. cn_outputStream (nt_conns s' d) = cn_outputStream (nt_conns s d) \<and>
       cn_writes (nt_conns s' d) = cn_writes (nt_conns s d) \<and>
       (timers_ok (nt_conns s d) \<longrightarrow> timers_ok (nt_conns s' d)))"

lemma quiet_inv:
  assumes "quiet s s'" "net_inv s"
  shows "net_inv s'"
proof -
  have own: "owned (nt_conns s' d) = owned (nt_conns s d)" for d
    using assms(1) by (simp add: quiet_def owned_def)
  show ?thesis
    using assms unfolding net_inv_def streams_ok_def own by (simp add: quiet_def)
qed

lemma quiet_unsent: "quiet s s' \<Longrightarrow> unsent s' c = unsent s c"
  by (auto simp: quiet_def unsent_def split: option.splits)

lemmas quiet_defs = conn_read_def conn_read_partial_def handleRead_def conn_connect_def handleResolve_def
  handleConnect_def handleTimeout_def conn_close_def setErrorCallback_def Let_def

lemma timer_cancel_simps [simp]:
  "timer_cancel Idle = Idle" "timer_cancel t = Idle \<longleftrightarrow> t = Idle" "timer_cancel t \<noteq> Armed"
  by (auto simp: timer_cancel_def)

lemma quiet_steps:
  "quiet s (conn_read c n rc s)" "quiet s (conn_read_partial c n rc s)" "quiet s (snd (handleRead c e data s))"
  "\<not> cn_open (nt_conns s c) \<Longrightarrow> cn_outputStream (nt_conns s c) = None \<Longrightarrow> cn_resolving (nt_conns s c) = [] \<Longrightarrow>
    quiet s (conn_connect c host port cb s)"
  "cn_resolving (nt_conns s c) \<noteq> [] \<Longrightarrow> quiet s (snd (handleResolve c e s))"
  "quiet s (snd (handleConnect c e s))" "quiet s (snd (handleTimeout c e s))"
  "quiet s (snd (conn_close c warn e s))" "quiet s (setErrorCallback c eh s)"
  "\<not> cn_open (nt_conns s c) \<Longrightarrow> cn_outputStream (nt_conns s c) = None \<Longrightarrow> cn_resolving (nt_conns s c) = [] \<Longrightarrow>
    quiet s (upd_conn c (\<lambda>k. k\<lparr>cn_open := True\<rparr>) s)"
  by (auto simp: quiet_def quiet_defs timers_ok_def)

section \<open>The steps that move a stream\<close>

lemma take_stream_inv:
  assumes inv: "net_inv s" and op: "cn_open (nt_conns s c)" and t: "take_stream c s = (a, s')"
  shows "net_inv s' \<and> cn_outputStream (nt_conns s' c) = Some a \<and> nt_heap s' a = unsent s c \<and>
    (\<forall>b. b < nt_next s \<longrightarrow> nt_heap s' b = nt_heap s b) \<and> (\<forall>d. cn_writes (nt_conns s' d) = cn_writes (nt_conns s d)) \<and>
    (\<forall>d. d \<noteq> c \<longrightarrow> nt_conns s' d = nt_conns s d)"
proof (cases "cn_outputStream (nt_conns s c)")
  case (Some b)
  then show ?thesis using t inv by (simp add: take_stream_def unsent_def)
next
  case None
  have res: "cn_resolving (nt_conns s c) = []" using inv op by (auto simp: net_inv_def timers_ok_def)
  have ok: "streams_ok s" using inv by (simp add: net_inv_def)
  show ?thesis
  proof (cases "nt_pool s")
    case Nil
    then have s': "a = nt_next s" "s' = upd_conn c (\<lambda>k. k\<lparr>cn_outputStream := Some a, cn_delayedWriteTimer := Armed\<rparr>)
        (s\<lparr>nt_next := nt_next s + 1, nt_heap := (nt_heap s)(nt_next s := [])\<rparr>)"
      using t None by (auto simp: take_stream_def)
    have own: "owned (nt_conns s' d) = (if d = c then a # owned (nt_conns s c) else owned (nt_conns s d))" for d
      using None by (simp add: s' owned_def)
    have "a \<notin> set (owned (nt_conns s d))" for d using ok by (force simp: streams_ok_def s')
    then have "streams_ok s'"
      using ok Nil by (auto simp: streams_ok_def own) (auto simp: s' less_Suc_eq)
    then show ?thesis
      using inv res None by (auto simp: net_inv_def timers_ok_def s' unsent_def)
  next
    case (Cons b bs)
    then have s': "a = b" "s' = upd_conn c (\<lambda>k. k\<lparr>cn_outputStream := Some a, cn_delayedWriteTimer := Armed\<rparr>)
        (s\<lparr>nt_pool := bs\<rparr>)"
      using t None by (auto simp: take_stream_def)
    have own: "owned (nt_conns s' d) = (if d = c then a # owned (nt_conns s c) else owned (nt_conns s d))" for d
      using None by (simp add: s' owned_def)
    have "a \<notin> set (owned (nt_conns s d))" for d using ok Cons by (force simp: streams_ok_def s')
    then have "streams_ok s'"
      using ok Cons by (auto simp: streams_ok_def own) (auto simp: s')
    moreover have "nt_heap s a = []" using ok Cons by (simp add: streams_ok_def s'(1))
    ultimately show ?thesis
      using inv res None by (auto simp: net_inv_def timers_ok_def s'(2) unsent_def)
  qed
qed

lemma owned_bound: "net_inv s \<Longrightarrow> a \<in> set (owned (nt_conns s d)) \<Longrightarrow> a < nt_next s"
  by (auto simp: net_inv_def streams_ok_def)

lemma conn_write_inv:
  assumes inv: "net_inv s"
  shows "net_inv (conn_write c bytes s) \<and>
    unsent (conn_write c bytes s) d = unsent s d @ (if d = c \<and> cn_open (nt_conns s c) then bytes else []) \<and>
    (\<forall>a \<in> set (cn_writes (nt_conns s d)). nt_heap (conn_write c bytes s) a = nt_heap s a)"
proof (cases "cn_open (nt_conns s c)")
  case False
  then show ?thesis using inv by (simp add: conn_write_def)
next
  case True
  obtain a s1 where t: "take_stream c s = (a, s1)" by fastforce
  note s1 = take_stream_inv [OF inv True t]
  have w: "conn_write c bytes s = s1\<lparr>nt_heap := (nt_heap s1)(a := nt_heap s1 a @ bytes)\<rparr>"
    using True t by (simp add: conn_write_def)
  have ok: "streams_ok s1" "a \<in> set (owned (nt_conns s1 c))" using s1 by (simp_all add: net_inv_def owned_def)
  then have a: "a \<notin> set (nt_pool s1)" "a \<notin> set (owned (nt_conns s1 d))" if "d \<noteq> c" for d
    using that by (auto simp: streams_ok_def)
  have notpool: "a \<notin> set (nt_pool s1)" using ok by (auto simp: streams_ok_def)
  then have "net_inv (conn_write c bytes s)"
    using s1 unfolding w by (auto simp: net_inv_def streams_ok_def)
  moreover have "unsent (conn_write c bytes s) d = unsent s d @ (if d = c then bytes else [])"
  proof (cases "d = c")
    case True
    then show ?thesis using s1 by (simp add: w unsent_def)
  next
    case False
    have "b \<noteq> a" "b < nt_next s" if "cn_outputStream (nt_conns s d) = Some b" for b
    proof -
      show "b \<noteq> a" using a(2) [OF False] s1 False that by (auto simp: owned_def)
      show "b < nt_next s" using owned_bound [OF inv, of b d] that by (simp add: owned_def)
    qed
    then show ?thesis using s1 False by (auto simp: w unsent_def split: option.splits)
  qed
  moreover have "nt_heap (conn_write c bytes s) b = nt_heap s b" if b: "b \<in> set (cn_writes (nt_conns s d))" for b
  proof -
    have "b < nt_next s" using owned_bound [OF inv, of b d] b by (simp add: owned_def)
    moreover have "b \<noteq> a"
    proof (cases "d = c")
      case True
      have "distinct (owned (nt_conns s1 c))" using ok(1) by (simp add: streams_ok_def)
      then show ?thesis using s1 b True by (auto simp: owned_def)
    next
      case False
      then show ?thesis using a(2) [OF False] s1 b by (auto simp: owned_def)
    qed
    ultimately show ?thesis using s1 by (simp add: w)
  qed
  ultimately show ?thesis using True by simp
qed

lemma handleWrite_inv:
  assumes inv: "net_inv s" and a: "a \<in> set (cn_writes (nt_conns s c))"
    and s'_def: "s' = snd (handleWrite c e a s)"
  shows "net_inv s' \<and> unsent s' d = unsent s d \<and>
    (\<forall>b \<in> set (cn_writes (nt_conns s' d)). b \<in> set (cn_writes (nt_conns s d)) \<and> nt_heap s' b = nt_heap s b)"
proof -
  have ok: "streams_ok s" using inv by (simp add: net_inv_def)
  have s': "s' = (let s1 = upd_conn c (\<lambda>k. k\<lparr>cn_writes := remove1 a (cn_writes k)\<rparr>) s in
      if e = Aborted then s1 else s1\<lparr>nt_heap := (nt_heap s1)(a := []), nt_pool := nt_pool s1 @ [a]\<rparr>)"
    by (simp add: s'_def handleWrite_def Let_def)
  have dist: "distinct (owned (nt_conns s c))" using ok by (simp add: streams_ok_def)
  have conns: "nt_conns s' d = (if d = c then (nt_conns s c)\<lparr>cn_writes := remove1 a (cn_writes (nt_conns s c))\<rparr> else nt_conns s d)" for d
    by (simp add: s' Let_def)
  have own: "set (owned (nt_conns s' d)) = set (owned (nt_conns s d)) - {a}" for d
  proof (cases "d = c")
    case True
    then show ?thesis using dist a by (auto simp: conns owned_def split: option.splits)
  next
    case False
    have "a \<notin> set (owned (nt_conns s d))" using ok a False by (auto simp: streams_ok_def owned_def)
    with False show ?thesis by (simp add: conns)
  qed
  have dist': "distinct (owned (nt_conns s' d))" for d
  proof (cases "d = c")
    case True
    then show ?thesis
      using dist by (auto simp: conns owned_def distinct_remove1 dest: notin_set_remove1 split: option.splits)
  next
    case False
    then show ?thesis using ok by (simp add: conns streams_ok_def)
  qed
  have aown: "a \<in> set (owned (nt_conns s c))" using a by (simp add: owned_def)
  then have a_new: "a \<notin> set (nt_pool s)" "a < nt_next s" using ok by (auto simp: streams_ok_def)
  have "streams_ok s'"
    using ok dist' a_new unfolding streams_ok_def own by (auto simp: s' Let_def)
  moreover have "timers_ok (nt_conns s' d)" for d
    using inv by (simp add: net_inv_def conns timers_ok_def)
  moreover have "cn_outputStream (nt_conns s d) \<noteq> Some a" for d
  proof (cases "d = c")
    case True
    then show ?thesis using dist a by (auto simp: owned_def)
  next
    case False
    then show ?thesis using aown ok by (force simp: owned_def streams_ok_def)
  qed
  then have "unsent s' d = unsent s d" by (auto simp: unsent_def conns s' Let_def split: option.splits)
  moreover have "b \<in> set (cn_writes (nt_conns s d)) \<and> b \<noteq> a" if "b \<in> set (cn_writes (nt_conns s' d))" for b
    using that own [of d] by (auto simp: conns owned_def split: if_splits dest: notin_set_remove1)
  then have "b \<in> set (cn_writes (nt_conns s d)) \<and> nt_heap s' b = nt_heap s b" if "b \<in> set (cn_writes (nt_conns s' d))" for b
    using that by (auto simp: s' Let_def)
  ultimately show ?thesis by (simp add: net_inv_def)
qed

lemma internalWrite_inv:
  assumes inv: "net_inv s" and t: "cn_delayedWriteTimer (nt_conns s c) \<noteq> Idle"
    and e: "e = NoError \<or> e = Aborted \<and> cn_delayedWriteTimer (nt_conns s c) = Cancelled"
  shows "\<exists>s'. internalWrite c e s = Inr s' \<and> net_inv s' \<and> nt_heap s' = nt_heap s \<and>
    unsent s d = (if d = c \<and> \<not> (e = Aborted \<or> \<not> cn_open (nt_conns s c))
      then nt_heap s (the (cn_outputStream (nt_conns s c))) else []) @ unsent s' d"
proof -
  let ?k = "nt_conns s c"
  have tm: "timers_ok ?k" using inv by (simp add: net_inv_def)
  then obtain a where a: "cn_outputStream ?k = Some a" using t by (auto simp: timers_ok_def)
  define s1 where "s1 = upd_conn c (\<lambda>k. k\<lparr>cn_delayedWriteTimer := Idle\<rparr>) s"
  show ?thesis
  proof (cases "e = Aborted \<or> \<not> cn_open ?k")
    case True
    have shut: "\<not> cn_open ?k" using True e tm a by (auto simp: timers_ok_def)
    have "quiet s s1" using shut a by (auto simp: quiet_def s1_def timers_ok_def)
    then show ?thesis
      using True quiet_inv [OF _ inv] quiet_unsent [of s s1 d]
      by (intro exI [of _ s1]) (auto simp: internalWrite_def Let_def s1_def)
  next
    case False
    define s' where "s' = upd_conn c (\<lambda>k. k\<lparr>cn_outputStream := None, cn_writes := cn_writes k @ [a]\<rparr>) s1"
    have res: "internalWrite c e s = Inr s'"
      using False a by (simp add: internalWrite_def Let_def s1_def s'_def)
    have own: "set (owned (nt_conns s' x)) = set (owned (nt_conns s x))"
      "distinct (owned (nt_conns s' x)) = distinct (owned (nt_conns s x))" for x
      using a by (auto simp: s'_def s1_def owned_def)
    have "streams_ok s'"
      using inv unfolding net_inv_def streams_ok_def own by (simp add: s'_def s1_def)
    moreover have "timers_ok (nt_conns s' x)" for x
      using inv a by (auto simp: net_inv_def s'_def s1_def timers_ok_def)
    moreover have "nt_heap s' = nt_heap s" by (simp add: s'_def s1_def)
    moreover have "unsent s d = (if d = c then nt_heap s a else []) @ unsent s' d"
      using a by (cases "d = c") (simp_all add: s'_def s1_def unsent_def upd_conn_def split: option.split)
    ultimately show ?thesis
      using res False a by (simp add: net_inv_def)
  qed
qed


text \<open>What one step does to the bytes of a connection and to the bytes in flight.\<close>

lemma net_step_inv:
  assumes step: "net_step s l s'" and inv: "net_inv s"
  shows "net_inv s' \<and> unsent s d @ written d [l] = flushed d [l] @ unsent s' d \<and>
    (\<forall>a. a \<in> set (cn_writes (nt_conns s d)) \<longrightarrow> a \<in> set (cn_writes (nt_conns s' d)) \<longrightarrow> nt_heap s' a = nt_heap s a)"
proof -
  have quiet: ?thesis if "quiet s s'" "l = Internal"
    using quiet_inv [OF that(1) inv] quiet_unsent [OF that(1)] that by (simp add: quiet_def)
  from step show ?thesis
  proof cases
    case (Write c bytes)
    then show ?thesis using conn_write_inv [OF inv, of c bytes d] by auto
  next
    case (Timer c e)
    then show ?thesis using internalWrite_inv [OF inv Timer(2,3), of d] by auto
  next
    case (Sent a c e)
    then show ?thesis using handleWrite_inv [OF inv Sent(3) Sent(2), of d] by auto
  qed (rule quiet; simp add: quiet_steps)+
qed

lemma net_run_inv: "net_run ls s \<Longrightarrow> net_inv s \<and> written c ls = flushed c ls @ unsent s c"
proof (induction rule: net_run.induct)
  case Start
  then show ?case using net_inv_start by (simp add: unsent_def net_start_def Connection_def)
next
  case (Step ls s l s')
  then have "net_inv s" "written c ls = flushed c ls @ unsent s c" by simp_all
  with net_step_inv [OF Step.hyps(2), of c] show ?case
    by (simp add: written_snoc flushed_snoc)
qed

section \<open>Properties\<close>

text \<open>
  Property C22. Streams are recycled through a global pool, yet no byte is lost, reordered or sent to
  another peer: in every run, and for every connection, the bytes written while it was open are the bytes
  handed to its socket, in the same order, followed by what its current stream holds.
\<close>

theorem writes_are_sent_in_order:
  "net_run ls s \<Longrightarrow> written c ls = flushed c ls @ unsent s c"
  using net_run_inv by blast

text \<open>
  The write timer never finds a null stream: whenever its handler may run, \<open>internalWrite\<close>
  succeeds; an open connection with unsent bytes has its timer armed; and an output stream in flight is
  not touched by any step until its write completes.
\<close>

theorem write_timer_finds_stream:
  assumes "net_run ls s" "cn_delayedWriteTimer (nt_conns s c) \<noteq> Idle"
    and "e = NoError \<or> e = Aborted \<and> cn_delayedWriteTimer (nt_conns s c) = Cancelled"
  shows "succeeds (internalWrite c e s) \<and>
    (\<forall>d. cn_open (nt_conns s d) \<and> unsent s d \<noteq> [] \<longrightarrow> cn_delayedWriteTimer (nt_conns s d) = Armed) \<and>
    (\<forall>l s' d a. net_step s l s' \<and> a \<in> set (cn_writes (nt_conns s d)) \<inter> set (cn_writes (nt_conns s' d)) \<longrightarrow>
      nt_heap s' a = nt_heap s a)"
proof -
  have inv: "net_inv s" using net_run_inv [OF assms(1)] by blast
  then have "cn_delayedWriteTimer (nt_conns s d) = Armed" if "cn_open (nt_conns s d)" "unsent s d \<noteq> []" for d
    using that by (auto simp: net_inv_def timers_ok_def unsent_def split: option.splits)
  moreover have "succeeds (internalWrite c e s)"
    using internalWrite_inv [OF inv assms(2,3), of c] by (auto simp: succeeds_iff)
  ultimately show ?thesis using net_step_inv [OF _ inv] by blast
qed

text \<open>A connection that is accepted, written to twice, and whose timer fires after each write.\<close>

abbreviation sample_net :: "(unit, unit, unit) net" where
  "sample_net \<equiv> upd_conn 1 (\<lambda>k. k\<lparr>cn_open := True\<rparr>) net_start"

lemma sample_net_run: "net_run ([] @ [Internal]) sample_net"
  by (rule net_run.Step [OF net_run.Start net_step.Accepted]) (simp_all add: net_start_def Connection_def)

lemma sample_net_written:
  "net_run (([] @ [Internal]) @ [Wrote 1 [5]]) (conn_write 1 [5] sample_net)"
  using net_run.Step [OF sample_net_run net_step.Write, of 1 "[5]"] by simp

lemma sample_net_states:
  "cn_delayedWriteTimer (nt_conns (conn_write 1 [5] sample_net) 1) = Armed"
  "cn_open (nt_conns (conn_write 1 [5] sample_net) 1)" "unsent (conn_write 1 [5] sample_net) 1 = [5]"
  by (simp_all add: conn_write_def take_stream_def net_start_def Connection_def unsent_def)

lemma writes_are_sent_in_order_witness:
  "written 1 (([] @ [Internal]) @ [Wrote 1 [5]]) = flushed 1 (([] @ [Internal]) @ [Wrote 1 [5]]) @ [5]"
  using writes_are_sent_in_order [OF sample_net_written, of 1] sample_net_states(3) by simp

lemma write_timer_finds_stream_witness:
  "succeeds (internalWrite 1 NoError (conn_write 1 [5] sample_net))"
  using write_timer_finds_stream [OF sample_net_written, of 1 NoError] sample_net_states(1) by simp

text \<open>
  Nothing keeps two writes of one connection apart: there is a run after which a connection
  has two streams in flight at once (\<open>internalWrite\<close> starts an \<open>async_write\<close> without looking for one under
  way, which boost::asio forbids because their bytes may interleave).
\<close>

theorem overlapping_writes_reachable:
  "\<exists>ls (s :: (unit, unit, unit) net) a b. net_run ls s \<and> cn_writes (nt_conns s 1) = [a, b] \<and> a \<noteq> b"
proof -
  let ?w = "conn_write 1 [5] sample_net"
  obtain s1 where s1: "internalWrite 1 NoError ?w = Inr s1" "cn_writes (nt_conns s1 1) = [0]" "nt_next s1 = 1"
    "cn_open (nt_conns s1 1)" "cn_outputStream (nt_conns s1 1) = None" "nt_pool s1 = []"
    by (simp add: internalWrite_def conn_write_def take_stream_def net_start_def Connection_def Let_def)
  have run1: "\<exists>ls. net_run ls s1"
    using net_run.Step [OF sample_net_written net_step.Timer [OF _ _ s1(1)]] sample_net_states(1) by auto
  let ?v = "conn_write 1 [6] s1"
  have run2: "\<exists>ls. net_run ls ?v" using run1 net_run.Step [OF _ net_step.Write] by blast
  have v: "cn_delayedWriteTimer (nt_conns ?v 1) = Armed" "cn_open (nt_conns ?v 1)"
    "cn_outputStream (nt_conns ?v 1) = Some 1" "cn_writes (nt_conns ?v 1) = [0]"
    using s1(2-6) by (simp_all add: conn_write_def take_stream_def)
  obtain s2 where s2: "internalWrite 1 NoError ?v = Inr s2" "cn_writes (nt_conns s2 1) = [0, 1]"
    using v by (simp add: internalWrite_def Let_def)
  obtain ls where "net_run ls s2"
    using run2 net_run.Step [OF _ net_step.Timer [OF _ _ s2(1)]] v(1) by fastforce
  with s2(2) show ?thesis by (intro exI [of _ ls] exI [of _ s2] exI [of _ 0] exI [of _ 1]) simp
qed

end
