(* ===== verification/File_Scan.thy ===== *)
theory File_Scan
  imports File_Worker
begin

text \<open>
  src/ctorrent/torrentfilemanager.cpp, start-up: \<open>registerFiles\<close> creates and opens the files of the torrent
  and \<open>scan_pieces\<close> looks for pieces that are already on disk. The file system and boost's path library are
  arguments. \<open>#pragma omp\<close> has no effect: the program is built without OpenMP.
\<close>

section \<open>Reading into the scan buffer\<close>

definition seek_file :: "file_manager \<Rightarrow> nat \<Rightarrow> nat \<Rightarrow> file_manager" where
  "seek_file fm k p = fm\<lparr>fm_files := (fm_files fm)[k := tf_seek (fm_files fm ! k) p]\<rparr>"

text \<open>\<open>fread(&buf[off], 1, n, fp)\<close> of the \<open>k\<close>-th file.\<close>

definition fread_at ::
  "file_manager \<Rightarrow> nat \<Rightarrow> mem \<Rightarrow> nat \<Rightarrow> nat \<Rightarrow> (nat \<times> mem \<times> file_manager) res" where
  "fread_at fm k buf off n =
     (let (bs, f) = tf_read (fm_files fm ! k) n in
      rbind (blit buf off (map Some bs)) (\<lambda>buf.
        Inr (length bs, buf, fm\<lparr>fm_files := (fm_files fm)[k := f]\<rparr>)))"

text \<open>\<open>if (is_write_eligible(i, &buf[0], n)) m_completedBits.set(i)\<close>; the bytes are only looked at when the
  piece is not pending.\<close>

definition mark_if_good ::
  "(u8 list \<Rightarrow> u32 list) \<Rightarrow> file_manager \<Rightarrow> nat \<Rightarrow> mem \<Rightarrow> nat \<Rightarrow> file_manager res" where
  "mark_if_good sha1 fm i buf n =
     rbind (bitset_test (fm_pendingBits fm) i) (\<lambda>p.
       if p then Inr fm
       else rbind (slice buf 0 n) (\<lambda>cs. rbind (values_of cs) (\<lambda>bs.
         rbind (is_write_eligible sha1 fm i bs) (\<lambda>ok.
           if ok then rbind (bitset_set (fm_completedBits fm) i) (\<lambda>b. Inr (fm\<lparr>fm_completedBits := b\<rparr>))
           else Inr fm))))"

section \<open>The piece that starts in an earlier file\<close>

text \<open>The loop over the files before this one; \<open>None\<close> is a short read.\<close>

fun scan_back :: "file_manager \<Rightarrow> mem \<Rightarrow> nat \<Rightarrow> nat \<Rightarrow> (mem option \<times> file_manager) res" where
  "scan_back fm buf bufPos 0 =
     (if bufPos = 0 then Inr (Some buf, fm) else Inl OutOfBounds)"
| "scan_back fm buf bufPos (Suc index) =
     (if bufPos = 0 then Inr (Some buf, fm)
      else if \<not> index < length (fm_files fm) then Inl OutOfBounds
      else
        let len = fi_length (tf_info (fm_files fm ! index)) in
        if bufPos > len then
          rbind (fread_at fm index buf (bufPos - len) bufPos) (\<lambda>(n, buf, fm).
            if n \<noteq> len then Inr (None, fm) else scan_back fm buf (bufPos - len) index)
        else
          rbind (fread_at (seek_file fm index (len - bufPos)) index buf 0 bufPos) (\<lambda>(n, buf, fm).
            if n \<noteq> bufPos then Inr (None, fm) else Inr (Some buf, fm)))"

definition scan_boundary ::
  "(u8 list \<Rightarrow> u32 list) \<Rightarrow> torrent_meta \<Rightarrow> file_manager \<Rightarrow> nat \<Rightarrow> nat \<Rightarrow> nat \<Rightarrow> nat \<Rightarrow> mem \<Rightarrow>
    ((mem \<times> nat \<times> nat) option \<times> file_manager) res" where
  "scan_boundary sha1 meta fm k pieceIndex pieceBegin pieceLength buf =
     (let info = tf_info (fm_files fm ! k) in
      if \<not> pieceBegin < fi_begin info then Inr (Some (buf, pieceBegin, pieceIndex), fm)
      else
        let bufPos = fi_begin info - pieceBegin; n = sub64 (tm_pieceLength meta) bufPos in
        rbind (fread_at fm k buf bufPos n) (\<lambda>(got, buf, fm).
          if got \<noteq> n then Inr (None, fm)
          else rbind (scan_back fm buf bufPos (fi_index info)) (\<lambda>(res, fm).
            case res of None \<Rightarrow> Inr (None, fm)
            | Some buf \<Rightarrow>
                rbind (mark_if_good sha1 fm pieceIndex buf (tm_pieceLength meta)) (\<lambda>fm.
                  Inr (Some (buf, add64 pieceBegin pieceLength, pieceIndex + 1), fm)))))"

section \<open>The pieces inside the file\<close>

function scan_loop ::
  "(u8 list \<Rightarrow> u32 list) \<Rightarrow> nat \<Rightarrow> nat \<Rightarrow> nat \<Rightarrow> nat \<Rightarrow> file_manager \<Rightarrow> mem \<Rightarrow> nat \<Rightarrow> nat \<Rightarrow> bool \<Rightarrow> nat \<Rightarrow>
    (mem \<times> nat \<times> file_manager) res" where
  "scan_loop sha1 pl limit fileEnd k fm buf pieceBegin i escape real =
     (if i < limit then
        if escape then scan_loop sha1 pl limit fileEnd k fm buf pieceBegin (i + 1) escape real
        else if add64 pieceBegin pl \<ge> fileEnd
        then scan_loop sha1 pl limit fileEnd k fm buf pieceBegin (i + 1) True i
        else rbind (fread_at fm k buf 0 pl) (\<lambda>(got, buf, fm).
          rbind (mark_if_good sha1 fm i buf pl) (\<lambda>fm.
            scan_loop sha1 pl limit fileEnd k fm buf (add64 pieceBegin pl) (i + 1) escape real))
      else Inr (buf, real, fm))"
  by pat_completeness auto
termination
  by (relation "measure (\<lambda>(sha1, pl, limit, fileEnd, k, fm, buf, pieceBegin, i, escape, real). limit - i)") auto

declare scan_loop.simps [simp del]

definition scan_file :: "(u8 list \<Rightarrow> u32 list) \<Rightarrow> torrent_meta \<Rightarrow> nat \<Rightarrow> file_manager \<Rightarrow> file_manager res" where
  "scan_file sha1 meta k fm =
     (let f = fm_files fm ! k; info = tf_info f; fm = seek_file fm k 0; pl = tm_pieceLength meta in
      if fi_length info > length (tf_data f) then Inr fm
      else rbind (if 0 < fi_begin info
                  then rbind (check (pl \<noteq> 0) DivisionByZero) (\<lambda>_. Inr (fi_begin info div pl))
                  else Inr 0) (\<lambda>pieceIndex.
        rbind (pieceSize meta fm pieceIndex) (\<lambda>pieceLength.
          let pieceBegin = mul64 pieceIndex pl; fileEnd = tf_end f in
          if add64 pieceBegin pieceLength > fileEnd then Inr fm
          else rbind (scan_boundary sha1 meta fm k pieceIndex pieceBegin pieceLength (replicate pl None)) (\<lambda>(res, fm).
            case res of None \<Rightarrow> Inr fm
            | Some (buf, pieceBegin, pieceIndex) \<Rightarrow>
                rbind (scan_loop sha1 pl (sub64 (length (fm_pieces fm)) 1) fileEnd k
                    (seek_file fm k (pieceBegin - fi_begin info)) buf pieceBegin pieceIndex False pieceIndex) (\<lambda>(buf, real, fm).
                  if real = sub64 (total_pieces fm) 1
                  then rbind (last_piece_length meta) (\<lambda>len.
                    rbind (fread_at fm k buf 0 (of_i64 len)) (\<lambda>(got, buf, fm).
                      mark_if_good sha1 fm real buf (of_i64 len)))
                  else Inr fm)))))"

definition scan_pieces :: "(u8 list \<Rightarrow> u32 list) \<Rightarrow> torrent_meta \<Rightarrow> file_manager \<Rightarrow> file_manager res" where
  "scan_pieces sha1 meta fm = rfold (scan_file sha1 meta) [0..<length (fm_files fm)] fm"

section \<open>Opening the files\<close>

text \<open>The file system: \<open>mkdir\<close>, \<open>stat\<close>, creating an empty file and opening one for update.\<close>

record 's file_system =
  fs_mkdir :: "string \<Rightarrow> 's \<Rightarrow> 's"
  fs_exists :: "string \<Rightarrow> 's \<Rightarrow> bool"
  fs_touch :: "string \<Rightarrow> 's \<Rightarrow> 's option"
  fs_open :: "string \<Rightarrow> 's \<Rightarrow> u8 list option"

definition validatePath :: "(string \<Rightarrow> string) \<Rightarrow> string \<Rightarrow> string \<Rightarrow> bool" where
  "validatePath parent_path base path \<longleftrightarrow> parent_path path = parent_path base"

text \<open>\<open>path.substr(0, path.find_last_of('/'))\<close>.\<close>

definition dir_part :: "string \<Rightarrow> string" where
  "dir_part path =
     (if CHR ''/'' \<in> set path then rev (tl (dropWhile (\<lambda>c. c \<noteq> CHR ''/'') (rev path))) else path)"

fun register_loop ::
  "(string \<Rightarrow> string) \<Rightarrow> 's file_system \<Rightarrow> string \<Rightarrow> file_info list \<Rightarrow> 's \<Rightarrow> file_manager \<Rightarrow> bool \<times> 's \<times> file_manager" where
  "register_loop parent_path fs baseDir [] s fm = (True, s, fm)"
| "register_loop parent_path fs baseDir (info # infos) s fm =
     (let filePath = dir_part (fi_path info); fullPath = baseDir @ fi_path info; path = baseDir @ filePath in
      if fi_path info \<noteq> filePath \<and> \<not> validatePath parent_path baseDir path then (False, s, fm)
      else
        let s = (if fi_path info \<noteq> filePath \<and> \<not> fs_exists fs path s then fs_mkdir fs path s else s) in
        case (if fs_exists fs fullPath s then Some s else fs_touch fs fullPath s) of
          None \<Rightarrow> (False, s, fm)
        | Some s \<Rightarrow>
            case fs_open fs fullPath s of
              None \<Rightarrow> (False, s, fm)
            | Some content \<Rightarrow>
                register_loop parent_path fs baseDir infos s
                  (fm\<lparr>fm_files := fm_files fm @ [\<lparr>tf_data = content, tf_pos = 0, tf_info = info\<rparr>]\<rparr>))"

definition registerFiles ::
  "(u8 list \<Rightarrow> u32 list) \<Rightarrow> (string \<Rightarrow> string) \<Rightarrow> 's file_system \<Rightarrow> torrent_meta \<Rightarrow> string \<Rightarrow> file_info list \<Rightarrow> 's \<Rightarrow> file_manager \<Rightarrow>
    (bool \<times> 's \<times> file_manager) res" where
  "registerFiles sha1 parent_path fs meta baseDir files s fm =
     (let (ok, s, fm) = register_loop parent_path fs baseDir files (fs_mkdir fs baseDir s) (init_pieces meta fm) in
      if \<not> ok then Inr (False, s, fm)
      else rbind (scan_pieces sha1 meta fm) (\<lambda>fm. Inr (True, s, fm)))"


section \<open>Marking a piece\<close>

lemma mark_if_good_result:
  assumes "fm_wf fm" "i < length (fm_pieces fm)" "slice buf 0 n = Inr (map Some bs)"
  shows "\<exists>b. mark_if_good sha1 fm i buf n = Inr (fm\<lparr>fm_completedBits := b\<rparr>) \<and> fm_wf (fm\<lparr>fm_completedBits := b\<rparr>) \<and>
    completed (fm\<lparr>fm_completedBits := b\<rparr>) = completed fm \<union>
      (if i \<notin> pending_set fm \<and> memcmp5 (sha1 bs) (pc_hash (fm_pieces fm ! i)) then {i} else {})"
proof -
  note cap = fm_wf_cap(1) [OF assms(1,2)]
  obtain b where b: "bitset_set (fm_completedBits fm) i = Inr b"
    using bits.put_total [OF cap] by (auto simp: succeeds_iff)
  have "bits.members b = insert i (completed fm)" "bitset_wf b = bitset_wf (fm_completedBits fm)"
    "bs_size b = bs_size (fm_completedBits fm)"
    using bits.members_put [OF b cap] bitset_set_frame [OF b cap] by (simp_all add: completed_def)
  then have new: "completed (fm\<lparr>fm_completedBits := b\<rparr>) = insert i (completed fm)" "fm_wf (fm\<lparr>fm_completedBits := b\<rparr>)"
    using assms(1) by (simp_all add: completed_def fm_wf_def)
  have id: "fm\<lparr>fm_completedBits := fm_completedBits fm\<rparr> = fm" by simp
  show ?thesis
  proof (cases "i \<notin> pending_set fm \<and> memcmp5 (sha1 bs) (pc_hash (fm_pieces fm ! i))")
    case True
    then show ?thesis
      using assms b new fm_test(2) [OF assms(1,2)]
      by (intro exI [of _ b]) (simp add: mark_if_good_def is_write_eligible_def)
  next
    case False
    then show ?thesis
      using assms fm_test(2) [OF assms(1,2)] id
      by (intro exI [of _ "fm_completedBits fm"]) (auto simp: mark_if_good_def is_write_eligible_def)
  qed
qed

section \<open>A torrent of one file\<close>

text \<open>The pieces but the last that are on disk, by the comparison the code makes.\<close>

definition found_pieces ::
  "(u8 list \<Rightarrow> u32 list) \<Rightarrow> torrent_meta \<Rightarrow> file_manager \<Rightarrow> u8 list \<Rightarrow> nat \<Rightarrow> nat set" where
  "found_pieces sha1 meta fm content k =
     {j. k \<le> j \<and> Suc j < length (fm_pieces fm) \<and> j \<notin> pending_set fm \<and>
       memcmp5 (sha1 (take (tm_pieceLength meta) (drop (j * tm_pieceLength meta) content))) (pc_hash (fm_pieces fm ! j))}"

lemma fread_at_single:
  assumes "fm_files fm = [f]" "length buf = n" "tf_pos f + n \<le> length (tf_data f)"
  shows "fread_at fm 0 buf 0 n = Inr (n, map Some (take n (drop (tf_pos f) (tf_data f))),
    fm\<lparr>fm_files := [f\<lparr>tf_pos := tf_pos f + n\<rparr>]\<rparr>)"
  using assms by (simp add: fread_at_def tf_read_def blit_def Let_def)

lemma fm_wf_files [simp]: "fm_wf (fm\<lparr>fm_files := fs\<rparr>) = fm_wf fm"
  by (simp add: fm_wf_def)

lemma scan_loop_single:
  assumes lens: "(length (fm_pieces fm) - 1) * tm_pieceLength meta < fileEnd" "fileEnd < 2 ^ 63"
  shows "i < length (fm_pieces fm) \<Longrightarrow> fm_wf fm \<Longrightarrow> fm_files fm = [f] \<Longrightarrow>
    fileEnd \<le> length (tf_data f) \<Longrightarrow> tf_pos f = i * tm_pieceLength meta \<Longrightarrow> length buf = tm_pieceLength meta \<Longrightarrow>
    \<exists>buf' fm'. scan_loop sha1 (tm_pieceLength meta) (length (fm_pieces fm) - 1) fileEnd 0 fm buf
        (i * tm_pieceLength meta) i False real = Inr (buf', real, fm') \<and>
      fm_pieces fm' = fm_pieces fm \<and> pending_set fm' = pending_set fm \<and>
      completed fm' = completed fm \<union> found_pieces sha1 meta fm (tf_data f) i"
  using lens
proof (induction "length (fm_pieces fm) - i" arbitrary: fm f i buf)
  case 0
  then show ?case by simp
next
  case (Suc m)
  let ?pl = "tm_pieceLength meta" and ?n = "length (fm_pieces fm)"
  let ?bs = "take ?pl (drop (i * ?pl) (tf_data f))"
  show ?case
  proof (cases "Suc i < ?n")
    case False
    then have "found_pieces sha1 meta fm (tf_data f) i = {}" by (auto simp: found_pieces_def)
    moreover have "\<not> i < ?n - 1" using False by simp
    ultimately show ?thesis by (subst scan_loop.simps) simp
  next
    case True
    then have lt: "i < ?n - 1" by simp
    then have "Suc i * ?pl \<le> (?n - 1) * ?pl" by (intro mult_le_mono1) simp
    then have end1: "i * ?pl + ?pl < fileEnd" using Suc.prems(7) by simp
    then have add: "add64 (i * ?pl) ?pl = Suc i * ?pl"
      using Suc.prems(8) by (simp add: add64_small)
    define fm1 where "fm1 = fm\<lparr>fm_files := [f\<lparr>tf_pos := Suc i * ?pl\<rparr>]\<rparr>"
    have rd: "fread_at fm 0 buf 0 ?pl = Inr (?pl, map Some ?bs, fm1)"
      using fread_at_single [OF Suc.prems(3,6)] Suc.prems(4,5) end1 by (simp add: fm1_def add.commute)
    have wf1: "fm_wf fm1" "i < length (fm_pieces fm1)" using Suc.prems(1,2) by (simp_all add: fm1_def)
    have sl: "slice (map Some ?bs) 0 ?pl = Inr (map Some ?bs)"
      using Suc.prems(4) end1 by (simp add: slice_def)
    obtain b where b: "mark_if_good sha1 fm1 i (map Some ?bs) ?pl = Inr (fm1\<lparr>fm_completedBits := b\<rparr>)"
      "fm_wf (fm1\<lparr>fm_completedBits := b\<rparr>)" "completed (fm1\<lparr>fm_completedBits := b\<rparr>) = completed fm1 \<union>
        (if i \<notin> pending_set fm1 \<and> memcmp5 (sha1 ?bs) (pc_hash (fm_pieces fm1 ! i)) then {i} else {})"
      using mark_if_good_result [OF wf1 sl, of sha1] by blast
    define fm2 where "fm2 = fm1\<lparr>fm_completedBits := b\<rparr>"
    have fm2: "fm_pieces fm2 = fm_pieces fm" "fm_files fm2 = [f\<lparr>tf_pos := Suc i * ?pl\<rparr>]"
      "pending_set fm2 = pending_set fm" "fm_wf fm2"
      using b(2) by (simp_all add: fm2_def fm1_def pending_set_def)
    have len2: "length (map Some ?bs) = ?pl" using Suc.prems(4) end1 by simp
    have step: "scan_loop sha1 ?pl (?n - 1) fileEnd 0 fm buf (i * ?pl) i False real =
        scan_loop sha1 ?pl (?n - 1) fileEnd 0 fm2 (map Some ?bs) (Suc i * ?pl) (Suc i) False real"
      using lt end1 add rd b(1) by (subst scan_loop.simps) (simp add: fm2_def)
    have done2: "completed fm2 = completed fm \<union>
        (if i \<notin> pending_set fm \<and> memcmp5 (sha1 ?bs) (pc_hash (fm_pieces fm ! i)) then {i} else {})"
      using b(3) by (simp add: fm2_def fm1_def)
    have found: "found_pieces sha1 meta fm (tf_data f) i =
        (if i \<notin> pending_set fm \<and> memcmp5 (sha1 ?bs) (pc_hash (fm_pieces fm ! i)) then {i} else {}) \<union>
        found_pieces sha1 meta fm2 (tf_data f) (Suc i)"
    proof (rule set_eqI)
      fix j
      show "j \<in> found_pieces sha1 meta fm (tf_data f) i \<longleftrightarrow> j \<in>
          (if i \<notin> pending_set fm \<and> memcmp5 (sha1 ?bs) (pc_hash (fm_pieces fm ! i)) then {i} else {}) \<union>
          found_pieces sha1 meta fm2 (tf_data f) (Suc i)"
      proof (cases "j = i")
        case True
        with \<open>Suc i < ?n\<close> show ?thesis by (simp add: found_pieces_def fm2)
      next
        case False
        then have "i \<le> j \<longleftrightarrow> Suc i \<le> j" by arith
        with False show ?thesis by (simp add: found_pieces_def fm2)
      qed
    qed
    have "m = length (fm_pieces fm2) - Suc i" using Suc.hyps(2) by (simp add: fm2)
    from Suc.hyps(1) [OF this _ fm2(4,2) _ _ len2] obtain buf' fm' where
      "scan_loop sha1 ?pl (?n - 1) fileEnd 0 fm2 (map Some ?bs) (Suc i * ?pl) (Suc i) False real = Inr (buf', real, fm')"
      "fm_pieces fm' = fm_pieces fm" "pending_set fm' = pending_set fm"
      "completed fm' = completed fm2 \<union> found_pieces sha1 meta fm2 (tf_data f) (Suc i)"
      using True Suc.prems(4,7,8) by (auto simp: fm2)
    then show ?thesis unfolding step found done2 by (simp add: Un_assoc)
  qed
qed



definition resumed_fm :: file_manager where
  "resumed_fm = sample_fm\<lparr>
     fm_files := [\<lparr>tf_data = [10, 11, 12], tf_pos = 0,
       tf_info = \<lparr>fi_path = ''a'', fi_index = 0, fi_begin = 0, fi_length = 3\<rparr>\<rparr>]\<rparr>"


section \<open>A new download\<close>

lemma register_loop_files:
  "register_loop parent_path fs baseDir infos s fm = (True, s', fm') \<Longrightarrow>
    \<forall>p t c. fs_open fs p t = Some c \<longrightarrow> c = [] \<Longrightarrow>
    fm' = fm\<lparr>fm_files := fm_files fm @ map (\<lambda>i. \<lparr>tf_data = [], tf_pos = 0, tf_info = i\<rparr>) infos\<rparr>"
proof (induction infos arbitrary: s fm)
  case Nil
  then show ?case by simp
next
  case (Cons info infos)
  from Cons.prems(1) obtain u c where u: "fs_open fs (baseDir @ fi_path info) u = Some c"
    "register_loop parent_path fs baseDir infos u
      (fm\<lparr>fm_files := fm_files fm @ [\<lparr>tf_data = c, tf_pos = 0, tf_info = info\<rparr>]\<rparr>) = (True, s', fm')"
    by (auto simp: Let_def split: if_splits option.splits)
  with Cons.prems(2) have "c = []" by blast
  with Cons.IH [OF u(2) Cons.prems(2)] show ?case by simp
qed

lemma scan_file_short:
  assumes "k < length (fm_files fm)" "length (tf_data (fm_files fm ! k)) < fi_length (tf_info (fm_files fm ! k))"
    and "tf_pos (fm_files fm ! k) = 0"
  shows "scan_file sha1 meta k fm = Inr fm"
proof -
  have "tf_seek (fm_files fm ! k) 0 = fm_files fm ! k"
    using assms(3) by (simp add: tf_seek_def)
  then have "seek_file fm k 0 = fm" by (simp add: seek_file_def)
  with assms(2) show ?thesis by (simp add: scan_file_def Let_def)
qed

lemma scan_pieces_short:
  assumes "\<forall>f \<in> set (fm_files fm). length (tf_data f) < fi_length (tf_info f) \<and> tf_pos f = 0"
  shows "scan_pieces sha1 meta fm = Inr fm"
proof -
  have "rfold (scan_file sha1 meta) ks fm = Inr fm" if "\<forall>k \<in> set ks. k < length (fm_files fm)" for ks
    using that assms by (induction ks) (simp_all add: scan_file_short)
  then show ?thesis by (simp add: scan_pieces_def)
qed

lemma registered_fresh:
  assumes "\<forall>f \<in> set files. 0 < fi_length f" "\<forall>p t c. fs_open fs p t = Some c \<longrightarrow> c = []"
    and "registerFiles sha1 parent_path fs meta baseDir files s FileManager = Inr (True, s', fm)"
  shows "fm = init_pieces meta (FileManager\<lparr>fm_files := map (\<lambda>i. \<lparr>tf_data = [], tf_pos = 0, tf_info = i\<rparr>) files\<rparr>)"
proof -
  let ?fs = "map (\<lambda>i. \<lparr>tf_data = [], tf_pos = 0, tf_info = i\<rparr>) files"
  let ?fm = "init_pieces meta (FileManager\<lparr>fm_files := ?fs\<rparr>)"
  obtain u fm1 where loop: "register_loop parent_path fs baseDir files (fs_mkdir fs baseDir s) (init_pieces meta FileManager) = (True, u, fm1)"
    and scan: "scan_pieces sha1 meta fm1 = Inr fm"
    using assms(3) by (auto simp: registerFiles_def Let_def elim!: rbindE split: prod.splits if_splits)
  have fm1: "fm1 = ?fm"
    using register_loop_files [OF loop assms(2)] by (simp add: init_pieces_def FileManager_def)
  have files: "fm_files ?fm = ?fs" by (simp add: init_pieces_def)
  then have "scan_pieces sha1 meta ?fm = Inr ?fm"
    using assms(1) by (intro scan_pieces_short) simp
  then show ?thesis using scan fm1 by simp
qed

lemma registered_new:
  assumes "laid_out 0 0 files" "sum_list (map fi_length files) = tm_totalSize meta" "\<forall>f \<in> set files. 0 < fi_length f"
    and "tm_totalSize meta < 2 ^ 63" "tm_pieceLength meta < 2 ^ 63" "length (tm_sha1sums meta) < 2 ^ 31"
    and "(length (tm_sha1sums meta) - 1) * tm_pieceLength meta < tm_totalSize meta"
    and "tm_totalSize meta \<le> length (tm_sha1sums meta) * tm_pieceLength meta"
    and "\<forall>p t c. fs_open fs p t = Some c \<longrightarrow> c = []"
    and "registerFiles sha1 parent_path fs meta baseDir files s FileManager = Inr (True, s', fm)"
  shows "fm_inv sha1 meta fm \<and> completed fm = {} \<and> map tf_info (fm_files fm) = files \<and>
    length (fm_pieces fm) = length (tm_sha1sums meta)"
proof -
  let ?fs = "map (\<lambda>i. \<lparr>tf_data = [], tf_pos = 0, tf_info = i\<rparr>) files"
  let ?fm = "init_pieces meta (FileManager\<lparr>fm_files := ?fs\<rparr>)"
  have fm: "fm = ?fm" by (rule registered_fresh [OF assms(3,9,10)])
  have files: "fm_files ?fm = ?fs" by (simp add: init_pieces_def)
  have "geometry meta ?fm"
    using assms by (simp add: geometry_def init_pieces_def FileManager_def comp_def)
  then have "fm_inv sha1 meta ?fm" using assms(6) by (rule init_pieces_inv)
  moreover have "completed ?fm = {}" by (simp add: completed_def init_pieces_def)
  moreover have "length (fm_pieces ?fm) = length (tm_sha1sums meta)" by (simp add: init_pieces_def FileManager_def)
  ultimately show ?thesis by (simp add: fm files comp_def)
qed

text \<open>
  A new download: when \<open>registerFiles\<close> has created the files of a torrent whose entries are
  laid out one after the other and whose number of hashes fits its size, the manager is in a consistent
  state with no piece completed, from which every run keeps its pieces verified.
\<close>

theorem new_download_consistent:
  assumes "laid_out 0 0 files" "sum_list (map fi_length files) = tm_totalSize meta" "\<forall>f \<in> set files. 0 < fi_length f"
    and "tm_totalSize meta < 2 ^ 63" "tm_pieceLength meta < 2 ^ 63" "length (tm_sha1sums meta) < 2 ^ 31"
    and "(length (tm_sha1sums meta) - 1) * tm_pieceLength meta < tm_totalSize meta"
    and "tm_totalSize meta \<le> length (tm_sha1sums meta) * tm_pieceLength meta"
    and "\<forall>p t c. fs_open fs p t = Some c \<longrightarrow> c = []"
    and "registerFiles sha1 parent_path fs meta baseDir files s FileManager = Inr (True, s', fm)"
  shows "fm_inv sha1 meta fm \<and> completed fm = {} \<and> map tf_info (fm_files fm) = files"
  using registered_new [OF assms] by blast


text \<open>A disk on which every file is new: the names that were created.\<close>

definition new_disk :: "string list file_system" where
  "new_disk = \<lparr>fs_mkdir = (\<lambda>p s. p # s), fs_exists = (\<lambda>p s. p \<in> set s), fs_touch = (\<lambda>p s. Some (p # s)),
     fs_open = (\<lambda>p s. if p \<in> set s then Some [] else None)\<rparr>"

lemma new_download_consistent_witness:
  "\<exists>s fm. registerFiles (\<lambda>_. [7]) dir_part new_disk sample_meta ''d/'' (tm_files sample_meta) [] FileManager = Inr (True, s, fm) \<and>
    fm_inv (\<lambda>_. [7]) sample_meta fm \<and> completed fm = {}"
proof -
  let ?fm = "init_pieces sample_meta (FileManager\<lparr>fm_files :=
     map (\<lambda>i. \<lparr>tf_data = [], tf_pos = 0, tf_info = i\<rparr>) (tm_files sample_meta)\<rparr>)"
  have "scan_pieces (\<lambda>_. [7]) sample_meta ?fm = Inr ?fm"
    by (rule scan_pieces_short) (simp add: init_pieces_def sample_meta_def)
  moreover have "register_loop dir_part new_disk ''d/'' (tm_files sample_meta) [''d/''] (init_pieces sample_meta FileManager) =
      (True, [''d/b'', ''d/a'', ''d/''], ?fm)"
    by (simp add: sample_meta_def new_disk_def dir_part_def init_pieces_def FileManager_def TorrentMeta_def Let_def)
  ultimately have reg: "registerFiles (\<lambda>_. [7]) dir_part new_disk sample_meta ''d/'' (tm_files sample_meta) [] FileManager =
      Inr (True, [''d/b'', ''d/a'', ''d/''], ?fm)"
    by (simp add: registerFiles_def Let_def) (simp add: new_disk_def)
  have "fm_inv (\<lambda>_. [7]) sample_meta ?fm \<and> completed ?fm = {} \<and> map tf_info (fm_files ?fm) = tm_files sample_meta"
    by (rule new_download_consistent [OF _ _ _ _ _ _ _ _ _ reg])
      (auto simp: sample_meta_def TorrentMeta_def new_disk_def split: if_splits)
  with reg show ?thesis by blast
qed

text \<open>
  What the path check lets through: with a base directory \<open>d/\<close>, \<open>validatePath\<close> only compares the
  parents, so a torrent entry \<open>../x\<close> passes and the client opens, and later overwrites, a file outside of
  its download directory, while an entry two directories deep makes the registration fail.
\<close>

theorem registerFiles_path_check:
  assumes "parent_path (d @ ''/'') = d" "parent_path (d @ ''/..'') = d" "parent_path (d @ ''/a/b'') = d @ ''/a''"
    and "CHR ''/'' \<notin> set x" "\<forall>t. fs_exists fs (d @ ''/../'' @ x) t \<and> fs_open fs (d @ ''/../'' @ x) t = Some content"
    and "fi_path i = ''../'' @ x" "fi_path j = ''a/b/'' @ x"
  shows "(\<exists>t. register_loop parent_path fs (d @ ''/'') [i] s fm =
      (True, t, fm\<lparr>fm_files := fm_files fm @ [\<lparr>tf_data = content, tf_pos = 0, tf_info = i\<rparr>]\<rparr>)) \<and>
    register_loop parent_path fs (d @ ''/'') [j] s fm = (False, s, fm)"
proof -
  have drop: "dropWhile (\<lambda>c. c \<noteq> CHR ''/'') (rev x @ CHR ''/'' # y) = CHR ''/'' # y" for y
    using assms(4) by (intro dropWhile_stop) simp
  have "dir_part (''../'' @ x) = ''..''" "dir_part (''a/b/'' @ x) = ''a/b''"
    using drop by (simp_all add: dir_part_def)
  then show ?thesis
    using assms(1-3,5-7) by (simp add: validatePath_def Let_def)
qed

definition full_disk :: "unit file_system" where
  "full_disk = \<lparr>fs_mkdir = (\<lambda>_ s. s), fs_exists = (\<lambda>_ _. True), fs_touch = (\<lambda>_ _. None), fs_open = (\<lambda>_ _. Some [1])\<rparr>"

lemma registerFiles_path_check_witness:
  "\<exists>i t fm. fi_path i = ''../x'' \<and> register_loop dir_part full_disk ''d/'' [i] () FileManager = (True, t, fm) \<and>
    fm_files fm \<noteq> []"
proof -
  let ?i = "\<lparr>fi_path = ''../x'', fi_index = 0, fi_begin = 0, fi_length = 1\<rparr>"
  let ?j = "\<lparr>fi_path = ''a/b/x'', fi_index = 0, fi_begin = 0, fi_length = 1\<rparr>"
  have "\<exists>t. register_loop dir_part full_disk (''d'' @ ''/'') [?i] () FileManager =
      (True, t, FileManager\<lparr>fm_files := fm_files FileManager @ [\<lparr>tf_data = [1], tf_pos = 0, tf_info = ?i\<rparr>]\<rparr>)"
    using registerFiles_path_check [of dir_part "''d''" "''x''" full_disk "[1]" ?i ?j "()" FileManager]
    by (simp add: dir_part_def full_disk_def)
  then show ?thesis by (intro exI [of _ ?i]) auto
qed

end
