(* ===== verification/Peer.thy ===== *)
theory Peer
  imports Connection File_Scan Messages Auxiliar Dictionary
begin

text \<open>
  src/ctorrent/peer.{h,cpp} and the part of src/ctorrent/torrent.{h,cpp} that peers use, first half: the
  state of a client and the messages it sends. \<open>Peer\<close> objects live in a store and are named by numbers
  (the \<open>shared_ptr\<close>s of the code); the connection of a peer has the number of the peer. \<open>Torrent\<close> is the
  record \<open>client\<close>.
\<close>

section \<open>State\<close>

record block =
  pb_size :: nat
  pb_data :: "mem option"

record queued_piece =
  qp_index :: nat
  qp_currentBlocks :: nat
  qp_numBlocks :: nat
  qp_blocks :: "block list"

record block_info =
  bi_index :: nat
  bi_begin :: nat
  bi_length :: nat

record peer =
  pr_bitset :: bitset
  pr_queue :: "queued_piece list"
  pr_requestedBlocks :: "block_info list"
  pr_peerId :: string
  pr_state :: u8

text \<open>The read callbacks of the code: the two handshake lambdas, \<open>Peer::handle\<close>, and the lambda in it.\<close>

datatype read_cb = OnConnectHandshake | OnVerifyHandshake | OnLength | OnMessage

record client =
  cl_meta :: torrent_meta
  cl_fileManager :: file_manager
  cl_peers :: "(u32 \<times> nat) list"
  cl_blacklisted :: "u32 list"
  cl_uploadedBytes :: nat
  cl_downloadedBytes :: nat
  cl_wastedBytes :: nat
  cl_hashMisses :: nat
  cl_handshake :: "u8 list"
  cl_peerId :: "u8 list"
  cl_store :: "nat \<Rightarrow> peer"
  cl_next :: nat
  cl_net :: "(read_cb, unit, unit) net"

text \<open>What the program does not decide: SHA-1, the address at the other end of a connection, and what an
  uninitialised array on the stack holds.\<close>

record env =
  en_sha1 :: "u8 list \<Rightarrow> u32 list"
  en_remote :: "nat \<Rightarrow> u32"
  en_stack :: "nat \<Rightarrow> u8"

text \<open>\<open>static size_t maxRequestSize\<close> of torrent.h: each translation unit has its own, and peer.cpp never
  assigns to it.\<close>

definition maxRequestSize :: nat where
  "maxRequestSize = 16384"

definition PS_AmChoked :: u8 where "PS_AmChoked = 1"
definition PS_AmInterested :: u8 where "PS_AmInterested = 2"
definition PS_PeerChoked :: u8 where "PS_PeerChoked = 4"
definition PS_PeerInterested :: u8 where "PS_PeerInterested = 8"

lemmas state_bits = PS_AmChoked_def PS_AmInterested_def PS_PeerChoked_def PS_PeerInterested_def

definition MT_Choke :: u8 where "MT_Choke = 0"
definition MT_UnChoke :: u8 where "MT_UnChoke = 1"
definition MT_Interested :: u8 where "MT_Interested = 2"
definition MT_NotInterested :: u8 where "MT_NotInterested = 3"
definition MT_Have :: u8 where "MT_Have = 4"
definition MT_Bitfield :: u8 where "MT_Bitfield = 5"
definition MT_Request :: u8 where "MT_Request = 6"
definition MT_PieceBlock :: u8 where "MT_PieceBlock = 7"
definition MT_Cancel :: u8 where "MT_Cancel = 8"
definition MT_Port :: u8 where "MT_Port = 9"

lemmas message_types = MT_Choke_def MT_UnChoke_def MT_Interested_def MT_NotInterested_def MT_Have_def
  MT_Bitfield_def MT_Request_def MT_PieceBlock_def MT_Cancel_def MT_Port_def

definition Peer :: "client \<Rightarrow> peer" where
  "Peer c = \<lparr>pr_bitset = bitset_construct (total_pieces (cl_fileManager c)), pr_queue = [],
     pr_requestedBlocks = [], pr_peerId = [], pr_state = PS_AmChoked OR PS_PeerChoked\<rparr>"

section \<open>Access\<close>

abbreviation the_peer :: "nat \<Rightarrow> client \<Rightarrow> peer" where
  "the_peer p c \<equiv> cl_store c p"

definition upd_peer :: "nat \<Rightarrow> (peer \<Rightarrow> peer) \<Rightarrow> client \<Rightarrow> client" where
  "upd_peer p f c = c\<lparr>cl_store := (cl_store c)(p := f (cl_store c p))\<rparr>"

definition peer_is :: "u8 \<Rightarrow> nat \<Rightarrow> client \<Rightarrow> bool" where
  "peer_is b p c = test_bit (ucast (pr_state (the_peer p c))) (ucast b)"

definition isRemoteChoked :: "nat \<Rightarrow> client \<Rightarrow> bool" where
  "isRemoteChoked = peer_is PS_PeerChoked"

definition isLocalChoked :: "nat \<Rightarrow> client \<Rightarrow> bool" where
  "isLocalChoked = peer_is PS_AmChoked"

definition isRemoteInterested :: "nat \<Rightarrow> client \<Rightarrow> bool" where
  "isRemoteInterested = peer_is PS_PeerInterested"

definition isLocalInterested :: "nat \<Rightarrow> client \<Rightarrow> bool" where
  "isLocalInterested = peer_is PS_AmInterested"

definition set_state :: "nat \<Rightarrow> (u8 \<Rightarrow> u8) \<Rightarrow> client \<Rightarrow> client" where
  "set_state p f = upd_peer p (\<lambda>r. r\<lparr>pr_state := f (pr_state r)\<rparr>)"

definition hasPiece :: "nat \<Rightarrow> client \<Rightarrow> nat \<Rightarrow> bool res" where
  "hasPiece p c i = bitset_test (pr_bitset (the_peer p c)) i"

text \<open>\<open>Connection::getIP\<close>.\<close>

definition peer_ip :: "env \<Rightarrow> nat \<Rightarrow> client \<Rightarrow> u32" where
  "peer_ip env p c = (if cn_open (nt_conns (cl_net c) p) then en_remote env p else 0)"

section \<open>Messages out\<close>

definition write_bytes :: "nat \<Rightarrow> u8 list \<Rightarrow> client \<Rightarrow> client" where
  "write_bytes p bs c = c\<lparr>cl_net := conn_write p bs (cl_net c)\<rparr>"

text \<open>An \<open>OutputMessage\<close> is built from fields, and perhaps a run of bytes, and written.\<close>

definition write_message :: "nat \<Rightarrow> output_message res \<Rightarrow> client \<Rightarrow> client res" where
  "write_message p msg c =
     rbind msg (\<lambda>out. rbind (om_written out) (\<lambda>cs. rbind (values_of cs) (\<lambda>bs. Inr (write_bytes p bs c))))"

definition out_fields :: "nat \<Rightarrow> wire_field list \<Rightarrow> output_message res" where
  "out_fields n fs = rfold (\<lambda>f m. om_shift m f) fs (OutputMessage BigEndian n)"

definition sendKeepAlive :: "nat \<Rightarrow> client \<Rightarrow> client" where
  "sendKeepAlive p c = write_bytes p [0, 0, 0, 0] c"

definition sendChoke :: "nat \<Rightarrow> client \<Rightarrow> client" where
  "sendChoke p c = set_state p (\<lambda>s. s OR PS_AmChoked) (write_bytes p [0, 0, 0, 1, MT_Choke] c)"

definition sendUnchoke :: "nat \<Rightarrow> client \<Rightarrow> client" where
  "sendUnchoke p c = set_state p (\<lambda>s. s AND NOT PS_AmChoked) (write_bytes p [0, 0, 0, 1, MT_UnChoke] c)"

definition sendInterested :: "nat \<Rightarrow> client \<Rightarrow> client" where
  "sendInterested p c = set_state p (\<lambda>s. s OR PS_AmInterested) (write_bytes p [0, 0, 0, 1, MT_Interested] c)"

definition peer_sendBitfield :: "nat \<Rightarrow> u8 list \<Rightarrow> client \<Rightarrow> client res" where
  "peer_sendBitfield p bits c =
     write_message p (rbind (out_fields (5 + length bits) [U32 (of_nat (1 + length bits)), Byte MT_Bitfield])
       (\<lambda>out. addBytes out (map Some bits) (length bits))) c"

definition sendHave :: "nat \<Rightarrow> u32 \<Rightarrow> client \<Rightarrow> client res" where
  "sendHave p index c =
     (if isLocalChoked p c then Inr c
      else write_message p (out_fields 9 [U32 5, Byte MT_Have, U32 index]) c)"

definition sendPieceBlock :: "nat \<Rightarrow> u32 \<Rightarrow> u32 \<Rightarrow> mem \<Rightarrow> nat \<Rightarrow> client \<Rightarrow> client res" where
  "sendPieceBlock p index begin block len c =
     write_message p (rbind (out_fields (13 + len) [U32 (of_nat (9 + len)), Byte MT_PieceBlock, U32 index, U32 begin])
       (\<lambda>out. addBytes out block len)) c"

definition sendRequest :: "nat \<Rightarrow> u32 \<Rightarrow> u32 \<Rightarrow> u32 \<Rightarrow> client \<Rightarrow> client res" where
  "sendRequest p index begin len c =
     write_message p (out_fields 17 [U32 13, Byte MT_Request, U32 index, U32 begin, U32 len]) c"

definition sendCancel :: "nat \<Rightarrow> u32 \<Rightarrow> u32 \<Rightarrow> u32 \<Rightarrow> client \<Rightarrow> client res" where
  "sendCancel p index begin len c =
     write_message p (out_fields 17 [U32 13, Byte MT_Cancel, U32 index, U32 begin, U32 len]) c"

section \<open>Leaving\<close>

definition removePeer :: "env \<Rightarrow> nat \<Rightarrow> client \<Rightarrow> client" where
  "removePeer env p c =
     (if map_find (peer_ip env p c) (cl_peers c) \<noteq> None
      then c\<lparr>cl_peers := map_erase (peer_ip env p c) (cl_peers c)\<rparr> else c)"

definition disconnect :: "nat \<Rightarrow> client \<Rightarrow> client" where
  "disconnect p c =
     c\<lparr>cl_net := setErrorCallback p None (snd (conn_close p False NoError (cl_net c)))\<rparr>"

definition peer_handleError :: "env \<Rightarrow> nat \<Rightarrow> client \<Rightarrow> client" where
  "peer_handleError env p c = disconnect p (removePeer env p c)"

section \<open>Asking for a piece\<close>

text \<open>The blocks \<open>requestPiece\<close> and \<open>cancelPiece\<close> go through, as (\<open>begin\<close>, \<open>length\<close>).\<close>

function blocks_of :: "nat \<Rightarrow> nat \<Rightarrow> (nat \<times> nat) list" where
  "blocks_of begin len =
     (if len > maxRequestSize then (begin, maxRequestSize) # blocks_of (begin + maxRequestSize) (len - maxRequestSize)
      else [(begin, len)])"
  by pat_completeness auto
termination
  by (relation "measure (\<lambda>(begin, len). len)") (auto simp: maxRequestSize_def)

declare blocks_of.simps [simp del]

definition peer_requestPiece :: "env \<Rightarrow> nat \<Rightarrow> nat \<Rightarrow> client \<Rightarrow> client res" where
  "peer_requestPiece env p pieceIndex c =
     (if isRemoteChoked p c then Inr (peer_handleError env p c)
      else rbind (pieceSize (cl_meta c) (cl_fileManager c) pieceIndex) (\<lambda>len.
        rfold (\<lambda>(b, l). sendRequest p (of_nat pieceIndex) (of_nat b) (of_nat l)) (blocks_of 0 len) c))"

definition cancelPiece :: "nat \<Rightarrow> queued_piece \<Rightarrow> client \<Rightarrow> client res" where
  "cancelPiece p piece c =
     rbind (pieceSize (cl_meta c) (cl_fileManager c) (qp_index piece)) (\<lambda>len.
       rfold (\<lambda>(b, l). sendCancel p (of_nat (qp_index piece)) (of_nat b) (of_nat l)) (blocks_of 0 len) c)"

definition new_block :: block where
  "new_block = \<lparr>pb_size = 0, pb_data = None\<rparr>"

text \<open>\<open>(int)ceil(double(pieceLength) / maxRequestSize)\<close> for a 32-bit \<open>pieceLength\<close>, which is exact.\<close>

definition num_blocks :: "u32 \<Rightarrow> nat" where
  "num_blocks pieceLength = (unat pieceLength + (maxRequestSize - 1)) div maxRequestSize"

definition sendPieceRequest :: "env \<Rightarrow> nat \<Rightarrow> u32 \<Rightarrow> client \<Rightarrow> client res" where
  "sendPieceRequest env p index c =
     (let c = sendInterested p c in
      rbind (pieceSize (cl_meta c) (cl_fileManager c) (unat index)) (\<lambda>n.
        let numBlocks = num_blocks (of_nat n);
            piece = \<lparr>qp_index = unat index, qp_currentBlocks = 0, qp_numBlocks = numBlocks,
              qp_blocks = replicate numBlocks new_block\<rparr>;
            c = upd_peer p (\<lambda>r. r\<lparr>pr_queue := pr_queue r @ [piece]\<rparr>) c
        in if \<not> isRemoteChoked p c then peer_requestPiece env p (unat index) c else Inr c))"

section \<open>The wire format\<close>

lemma out_fields_holds:
  assumes "list_all fixed_width fs"
  shows "\<exists>m. out_fields n fs = Inr m \<and> om_holds m (map Some (wire BigEndian fs)) \<and> om_order m = BigEndian"
  using om_shifts_hold [OF om_holds_new assms, of BigEndian n] by (auto simp: out_fields_def OutputMessage_def)

lemma write_fields:
  assumes "list_all fixed_width fs"
  shows "write_message p (out_fields n fs) c = Inr (write_bytes p (wire BigEndian fs) c)"
  using out_fields_holds [OF assms, of n] om_written_holds by (fastforce simp: write_message_def)

lemma write_fields_payload:
  assumes "list_all fixed_width fs" "0 < n" "n \<le> length bs"
  shows "write_message p (rbind (out_fields k fs) (\<lambda>out. addBytes out (map Some bs) n)) c =
    Inr (write_bytes p (wire BigEndian fs @ take n bs) c)"
proof -
  obtain m where m: "out_fields k fs = Inr m" "om_holds m (map Some (wire BigEndian fs))"
    using out_fields_holds [OF assms(1), of k] by blast
  obtain m' where m': "addBytes m (map Some bs) n = Inr m'"
    "om_holds m' (map Some (wire BigEndian fs) @ take n (map Some bs))"
    using addBytes_holds [OF m(2) _ assms(2), of "map Some bs"] assms(3) by auto
  have "om_written m' = Inr (map Some (wire BigEndian fs @ take n bs))"
    using om_written_holds [OF m'(2)] by (simp add: take_map)
  with m(1) m'(1) show ?thesis by (simp add: write_message_def del: map_append)
qed

definition request_bytes :: "u8 \<Rightarrow> u32 \<Rightarrow> u32 \<Rightarrow> u32 \<Rightarrow> u8 list" where
  "request_bytes t index begin len = [0, 0, 0, 13, t] @ be32 index @ be32 begin @ be32 len"

lemma sendRequest_bytes: "sendRequest p i b l c = Inr (write_bytes p (request_bytes MT_Request i b l) c)"
  by (simp add: sendRequest_def write_fields request_bytes_def) (simp add: be32_def)

lemma sendCancel_bytes: "sendCancel p i b l c = Inr (write_bytes p (request_bytes MT_Cancel i b l) c)"
  by (simp add: sendCancel_def write_fields request_bytes_def) (simp add: be32_def)

lemma sendHave_bytes:
  "sendHave p i c = Inr (if isLocalChoked p c then c else write_bytes p ([0, 0, 0, 5, MT_Have] @ be32 i) c)"
  by (simp add: sendHave_def write_fields) (simp add: be32_def)

lemma peer_sendBitfield_bytes:
  "bits \<noteq> [] \<Longrightarrow> peer_sendBitfield p bits c =
    Inr (write_bytes p (be32 (of_nat (1 + length bits)) @ MT_Bitfield # bits) c)"
  by (simp add: peer_sendBitfield_def write_fields_payload)

lemma sendPieceBlock_bytes:
  "0 < n \<Longrightarrow> n \<le> length bs \<Longrightarrow> sendPieceBlock p i b (map Some bs) n c =
    Inr (write_bytes p (be32 (of_nat (9 + n)) @ MT_PieceBlock # be32 i @ be32 b @ take n bs) c)"
  by (simp add: sendPieceBlock_def write_fields_payload)

end
