(* ===== verification/Protocol.thy ===== *)
theory Protocol
  imports Peer
begin

text \<open>
  src/ctorrent/peer.cpp and src/ctorrent/torrent.cpp, second half: what a client does with the messages of
  a peer. The message handler is split by message type, as the \<open>switch\<close> of \<open>Peer::handleMessage\<close> is; a
  handler says whether the code goes on to the \<open>read\<close> behind the \<open>switch\<close> (\<open>break\<close>) or returns from inside it.
\<close>

section \<open>Torrent: what peers ask of it\<close>

definition isFinished :: "client \<Rightarrow> bool res" where
  "isFinished c = rbind (completed_pieces (cl_fileManager c)) (\<lambda>n. Inr (total_pieces (cl_fileManager c) = n))"

definition addPeer :: "env \<Rightarrow> nat \<Rightarrow> client \<Rightarrow> client" where
  "addPeer env p c =
     (let ip = peer_ip env p c in
      c\<lparr>cl_blacklisted := removeAll ip (cl_blacklisted c),
        cl_peers := (if map_find ip (cl_peers c) = None then umap_put ip p (cl_peers c) else cl_peers c)\<rparr>)"

text \<open>\<open>bits\<close> is an array on the stack that is not initialised; only the entries of completed pieces are
  assigned.\<close>

fun bitfield_bytes :: "env \<Rightarrow> bitset \<Rightarrow> nat \<Rightarrow> nat \<Rightarrow> u8 list res" where
  "bitfield_bytes env b i 0 = Inr []"
| "bitfield_bytes env b i (Suc k) =
     rbind (bitset_test b i) (\<lambda>t.
     rbind (if t then rbind (bitsAt b i) (\<lambda>x. Inr (x AND push_bit (7 - i mod 8) 1)) else Inr (en_stack env i)) (\<lambda>x.
     rbind (bitfield_bytes env b (i + 1) k) (\<lambda>xs. Inr (x # xs))))"

definition sendBitfield :: "env \<Rightarrow> nat \<Rightarrow> client \<Rightarrow> client res" where
  "sendBitfield env p c =
     (let b = fm_completedBits (cl_fileManager c) in
      rbind (bitset_count b) (\<lambda>n.
        if n = 0 then Inr c
        else rbind (bitfield_bytes env b 0 (bs_size b)) (\<lambda>bits. peer_sendBitfield p bits c)))"

definition requestPiece :: "env \<Rightarrow> nat \<Rightarrow> client \<Rightarrow> client res" where
  "requestPiece env p c =
     rbind (get_next_piece (cl_fileManager c) (hasPiece p c)) (\<lambda>(index, fm).
       let c = c\<lparr>cl_fileManager := fm\<rparr> in
       if index \<noteq> SIZE_MAX then sendPieceRequest env p (of_nat index) c else Inr c)"

definition handlePieceCompleted :: "env \<Rightarrow> nat \<Rightarrow> u32 \<Rightarrow> u8 data_buffer \<Rightarrow> client \<Rightarrow> (bool \<times> client) res" where
  "handlePieceCompleted env p index data c =
     rbind (writePieceBlock (en_sha1 env) (cl_fileManager c) (unat index) (peer_ip env p c) data) (\<lambda>(ok, fm).
       if ok then Inr (True, c\<lparr>cl_fileManager := fm\<rparr>)
       else Inr (False, c\<lparr>cl_fileManager := fm, cl_wastedBytes := add64 (cl_wastedBytes c) (db_size data),
         cl_hashMisses := add64 (cl_hashMisses c) 1\<rparr>))"

definition handleRequestBlock :: "env \<Rightarrow> nat \<Rightarrow> u32 \<Rightarrow> u32 \<Rightarrow> u32 \<Rightarrow> client \<Rightarrow> (bool \<times> client) res" where
  "handleRequestBlock env p index begin len c =
     rbind (requestPieceBlock (cl_meta c) (cl_fileManager c) (unat index) (peer_ip env p c) (unat begin) (unat len))
       (\<lambda>(ok, fm). Inr (ok, c\<lparr>cl_fileManager := fm\<rparr>))"

definition handleNewPeer :: "env \<Rightarrow> nat \<Rightarrow> client \<Rightarrow> client res" where
  "handleNewPeer env p c =
     (let ip = peer_ip env p c in
      sendBitfield env p (if map_find ip (cl_peers c) = None then c\<lparr>cl_peers := umap_put ip p (cl_peers c)\<rparr> else c))"

definition onPieceWriteComplete :: "env \<Rightarrow> u32 \<Rightarrow> nat \<Rightarrow> client \<Rightarrow> client res" where
  "onPieceWriteComplete env from index c =
     rbind (completed_pieces (cl_fileManager c)) (\<lambda>_.
     rbind (pieceSize (cl_meta c) (cl_fileManager c) index) (\<lambda>n.
       rfold (\<lambda>(_, q) c.
           if peer_ip env q c \<noteq> from
           then rbind (hasPiece q c index) (\<lambda>h. if h then Inr c else sendHave q (of_nat index) c)
           else Inr c)
         (cl_peers c) (c\<lparr>cl_downloadedBytes := add64 (cl_downloadedBytes c) n\<rparr>)))"

definition onPieceReadComplete :: "u32 \<Rightarrow> nat \<Rightarrow> nat \<Rightarrow> mem \<Rightarrow> nat \<Rightarrow> client \<Rightarrow> client res" where
  "onPieceReadComplete from index begin block n c =
     (case map_find from (cl_peers c) of
        None \<Rightarrow> Inr c
      | Some p \<Rightarrow>
          rbind (sendPieceBlock p (of_nat index) (of_nat begin) block n c) (\<lambda>c.
            Inr (c\<lparr>cl_uploadedBytes := add64 (cl_uploadedBytes c) n\<rparr>)))"

section \<open>Peer::handleMessage, one case each\<close>

text \<open>\<open>(True, c)\<close>: \<open>break\<close>; \<open>(False, c)\<close>: \<open>return\<close>.\<close>

abbreviation fail :: "env \<Rightarrow> nat \<Rightarrow> client \<Rightarrow> (bool \<times> client) res" where
  "fail env p c \<equiv> Inr (False, peer_handleError env p c)"

abbreviation goes_on :: "client res \<Rightarrow> (bool \<times> client) res" where
  "goes_on r \<equiv> rbind r (\<lambda>c. Inr (True, c))"

definition on_choke :: "env \<Rightarrow> nat \<Rightarrow> input_message \<Rightarrow> client \<Rightarrow> (bool \<times> client) res" where
  "on_choke env p in_msg c =
     (if im_size in_msg \<noteq> 0 then fail env p c
      else Inr (True, set_state p (\<lambda>s. s OR PS_PeerChoked) c))"

definition on_unchoke :: "env \<Rightarrow> nat \<Rightarrow> input_message \<Rightarrow> client \<Rightarrow> (bool \<times> client) res" where
  "on_unchoke env p in_msg c =
     (if im_size in_msg \<noteq> 0 then fail env p c
      else
        let c = set_state p (\<lambda>s. s AND NOT PS_PeerChoked) c in
        goes_on (rfold (\<lambda>piece. peer_requestPiece env p (qp_index piece)) (pr_queue (the_peer p c)) c))"

definition on_interested :: "env \<Rightarrow> nat \<Rightarrow> input_message \<Rightarrow> client \<Rightarrow> (bool \<times> client) res" where
  "on_interested env p in_msg c =
     (if im_size in_msg \<noteq> 0 then fail env p c
      else
        let c = set_state p (\<lambda>s. s OR PS_PeerInterested) c in
        Inr (True, if isLocalChoked p c then sendUnchoke p c else c))"

definition on_not_interested :: "env \<Rightarrow> nat \<Rightarrow> input_message \<Rightarrow> client \<Rightarrow> (bool \<times> client) res" where
  "on_not_interested env p in_msg c =
     (if im_size in_msg \<noteq> 0 then fail env p c
      else Inr (True, set_state p (\<lambda>s. s AND NOT PS_PeerInterested) c))"

definition set_peer_bit :: "nat \<Rightarrow> nat \<Rightarrow> client \<Rightarrow> client res" where
  "set_peer_bit p i c =
     rbind (bitset_set (pr_bitset (the_peer p c)) i) (\<lambda>b. Inr (upd_peer p (\<lambda>r. r\<lparr>pr_bitset := b\<rparr>) c))"

definition on_have :: "env \<Rightarrow> nat \<Rightarrow> input_message \<Rightarrow> client \<Rightarrow> (bool \<times> client) res" where
  "on_have env p in_msg c =
     (if im_size in_msg \<noteq> 4 then fail env p c
      else rbind (getU32 in_msg) (\<lambda>(i, _).
        goes_on (if unat i < bs_size (pr_bitset (the_peer p c)) then set_peer_bit p (unat i) c else Inr c)))"

text \<open>One bit of the bitfield: bit \<open>7 - x\<close> of byte \<open>i\<close>.\<close>

definition bitfield_step :: "mem \<Rightarrow> nat \<Rightarrow> nat \<times> nat \<Rightarrow> client \<Rightarrow> client res" where
  "bitfield_step buf p ix c =
     (let (i, x) = ix in
      rbind (load buf i) (\<lambda>v.
        if v AND push_bit (7 - x) 1 \<noteq> 0 \<and> i * 8 + x < total_pieces (cl_fileManager c)
        then set_peer_bit p (i * 8 + x) c else Inr c))"

definition on_bitfield :: "env \<Rightarrow> nat \<Rightarrow> input_message \<Rightarrow> client \<Rightarrow> (bool \<times> client) res" where
  "on_bitfield env p in_msg c =
     (if im_size in_msg < 1 then fail env p c
      else rbind (rfold (bitfield_step (getBuffer in_msg) p) (List.product [0..<im_size in_msg] [0..<8]) c) (\<lambda>c.
        rbind (isFinished c) (\<lambda>fin. goes_on (if \<not> fin then requestPiece env p c else Inr c))))"

definition get_three :: "input_message \<Rightarrow> (u32 \<times> u32 \<times> u32) res" where
  "get_three m =
     rbind (getU32 m) (\<lambda>(index, m). rbind (getU32 m) (\<lambda>(begin, m). rbind (getU32 m) (\<lambda>(len, m).
       Inr (index, begin, len))))"

definition on_request :: "env \<Rightarrow> nat \<Rightarrow> input_message \<Rightarrow> client \<Rightarrow> (bool \<times> client) res" where
  "on_request env p in_msg c =
     (if im_size in_msg \<noteq> 12 then fail env p c
      else if \<not> isRemoteInterested p c then fail env p c
      else if isLocalChoked p c then fail env p c
      else rbind (get_three in_msg) (\<lambda>(index, begin, len).
        if unat len > maxRequestSize then fail env p c
        else rbind (handleRequestBlock env p index begin len c) (\<lambda>(ok, c).
          if \<not> ok then Inr (True, sendChoke p c)
          else Inr (True, upd_peer p (\<lambda>r. r\<lparr>pr_requestedBlocks := pr_requestedBlocks r @
            [\<lparr>bi_index = unat index, bi_begin = unat begin, bi_length = unat len\<rparr>]\<rparr>) c))))"

text \<open>The first queued piece with an index, and the queue without it.\<close>

definition find_piece :: "nat \<Rightarrow> queued_piece list \<Rightarrow> queued_piece option" where
  "find_piece index q = find (\<lambda>piece. qp_index piece = index) q"

fun erase_piece :: "nat \<Rightarrow> queued_piece list \<Rightarrow> queued_piece list" where
  "erase_piece index [] = []"
| "erase_piece index (q # qs) = (if qp_index q = index then qs else q # erase_piece index qs)"

fun replace_piece :: "queued_piece \<Rightarrow> queued_piece list \<Rightarrow> queued_piece list" where
  "replace_piece r [] = []"
| "replace_piece r (q # qs) = (if qp_index q = qp_index r then r # qs else q # replace_piece r qs)"

text \<open>\<open>pieceData.add_unchecked\<close> for the bytes of the blocks, in order.\<close>

definition copy_block :: "block \<Rightarrow> u8 data_buffer \<Rightarrow> u8 data_buffer res" where
  "copy_block b buf =
     rfold (\<lambda>y buf. rbind (case pb_data b of None \<Rightarrow> Inl OutOfBounds | Some d \<Rightarrow> load d y) (db_add_unchecked buf))
       [0..<pb_size b] buf"

definition assemble :: "queued_piece \<Rightarrow> u8 data_buffer res" where
  "assemble piece =
     rbind (db_reserve (db_new 64) (mul64 (qp_numBlocks piece) maxRequestSize)) (\<lambda>buf.
       rfold (\<lambda>x buf. if x < length (qp_blocks piece) then copy_block (qp_blocks piece ! x) buf else Inl OutOfBounds)
         [0..<qp_numBlocks piece] buf)"

text \<open>\<open>block->size = payloadSize; block->data = payload; ++piece->currentBlocks\<close>.\<close>

definition put_block :: "nat \<Rightarrow> nat \<Rightarrow> mem option \<Rightarrow> queued_piece \<Rightarrow> queued_piece" where
  "put_block blockIndex n payload piece =
     piece\<lparr>qp_blocks := (qp_blocks piece)[blockIndex := \<lparr>pb_size = n, pb_data = payload\<rparr>],
       qp_currentBlocks := qp_currentBlocks piece + 1\<rparr>"

definition set_queue :: "nat \<Rightarrow> (queued_piece list \<Rightarrow> queued_piece list) \<Rightarrow> client \<Rightarrow> client" where
  "set_queue p f = upd_peer p (\<lambda>r. r\<lparr>pr_queue := f (pr_queue r)\<rparr>)"

text \<open>A piece whose number of received blocks has reached \<open>numBlocks\<close>.\<close>

definition finish_piece :: "env \<Rightarrow> nat \<Rightarrow> u32 \<Rightarrow> queued_piece \<Rightarrow> client \<Rightarrow> (bool \<times> client) res" where
  "finish_piece env p index piece c =
     rbind (assemble piece) (\<lambda>data.
     rbind (handlePieceCompleted env p index data (set_queue p (erase_piece (unat index)) c)) (\<lambda>(ok, c).
       if \<not> ok then Inr (True, sendChoke p c)
       else rbind (isFinished c) (\<lambda>fin. goes_on (if \<not> fin then requestPiece env p c else Inr c))))"

definition on_piece_block :: "env \<Rightarrow> nat \<Rightarrow> input_message \<Rightarrow> client \<Rightarrow> (bool \<times> client) res" where
  "on_piece_block env p in_msg c =
     (if im_size in_msg < 9 then fail env p c
      else rbind (getU32 in_msg) (\<lambda>(index, in_msg). rbind (getU32 in_msg) (\<lambda>(begin, in_msg).
        let payloadSize = im_size in_msg - 8 in
        if payloadSize = 0 \<or> payloadSize > maxRequestSize then fail env p c
        else
          case find_piece (unat index) (pr_queue (the_peer p c)) of
            None \<Rightarrow> fail env p c
          | Some piece \<Rightarrow>
              let blockIndex = unat begin div maxRequestSize in
              if blockIndex \<ge> qp_numBlocks piece then fail env p c
              else rbind (piece_done (cl_fileManager c) (unat index)) (\<lambda>have.
                if have then
                  rbind (cancelPiece p piece c) (\<lambda>c. Inr (True, set_queue p (erase_piece (unat index)) c))
                else rbind (getBuffer_copy in_msg payloadSize) (\<lambda>payload.
                  if \<not> blockIndex < length (qp_blocks piece) then Inl OutOfBounds
                  else
                    let piece = put_block blockIndex payloadSize payload piece in
                    if qp_currentBlocks piece = qp_numBlocks piece then finish_piece env p index piece c
                    else Inr (True, set_queue p (replace_piece piece) c))))))"

fun erase_block_info :: "(block_info \<Rightarrow> bool) \<Rightarrow> block_info list \<Rightarrow> block_info list" where
  "erase_block_info P [] = []"
| "erase_block_info P (i # is) = (if P i then is else i # erase_block_info P is)"

definition on_cancel :: "env \<Rightarrow> nat \<Rightarrow> input_message \<Rightarrow> client \<Rightarrow> (bool \<times> client) res" where
  "on_cancel env p in_msg c =
     (if im_size in_msg \<noteq> 12 then fail env p c
      else rbind (get_three in_msg) (\<lambda>(index, begin, len).
        Inr (True, upd_peer p (\<lambda>r. r\<lparr>pr_requestedBlocks := erase_block_info
          (\<lambda>i. bi_index i = unat index \<and> bi_begin i = unat begin \<and> bi_length i = unat len) (pr_requestedBlocks r)\<rparr>) c)))"

definition on_port :: "env \<Rightarrow> nat \<Rightarrow> input_message \<Rightarrow> client \<Rightarrow> (bool \<times> client) res" where
  "on_port env p in_msg c =
     (if im_size in_msg \<noteq> 2 then fail env p c else rbind (getU16 in_msg) (\<lambda>_. Inr (True, c)))"

text \<open>The \<open>switch\<close>; a message type that is none of the enumerators falls through it.\<close>

definition dispatch :: "env \<Rightarrow> nat \<Rightarrow> u8 \<Rightarrow> input_message \<Rightarrow> client \<Rightarrow> (bool \<times> client) res" where
  "dispatch env p t in_msg c =
     (if t = MT_Choke then on_choke env p in_msg c
      else if t = MT_UnChoke then on_unchoke env p in_msg c
      else if t = MT_Interested then on_interested env p in_msg c
      else if t = MT_NotInterested then on_not_interested env p in_msg c
      else if t = MT_Have then on_have env p in_msg c
      else if t = MT_Bitfield then on_bitfield env p in_msg c
      else if t = MT_Request then on_request env p in_msg c
      else if t = MT_PieceBlock then on_piece_block env p in_msg c
      else if t = MT_Cancel then on_cancel env p in_msg c
      else if t = MT_Port then on_port env p in_msg c
      else Inr (True, c))"

definition peer_read :: "nat \<Rightarrow> nat \<Rightarrow> read_cb \<Rightarrow> client \<Rightarrow> client" where
  "peer_read p n cb c = c\<lparr>cl_net := conn_read p n cb (cl_net c)\<rparr>"

definition handleMessage :: "env \<Rightarrow> nat \<Rightarrow> u8 \<Rightarrow> input_message \<Rightarrow> client \<Rightarrow> client res" where
  "handleMessage env p t in_msg c =
     rbind (dispatch env p t in_msg c) (\<lambda>(go, c). Inr (if go then peer_read p 4 OnLength c else c))"

section \<open>Peer: lengths, handshakes\<close>

definition handle :: "env \<Rightarrow> nat \<Rightarrow> u8 list \<Rightarrow> client \<Rightarrow> client res" where
  "handle env p data c =
     (if length data \<noteq> 4 then Inr (peer_handleError env p c)
      else rbind (readBE32 (map Some data) 0) (\<lambda>len.
        if len = 0 then Inr (peer_read p 4 OnLength c) else Inr (peer_read p (unat len) OnMessage c)))"

definition handle_body :: "env \<Rightarrow> nat \<Rightarrow> u8 list \<Rightarrow> client \<Rightarrow> client res" where
  "handle_body env p data c =
     rbind (load (map Some data) 0) (\<lambda>t.
       handleMessage env p t (InputMessage (map Some (tl data)) (sub64 (length data) 1) BigEndian) c)"

text \<open>\<open>"BitTorrent protocol"\<close>, and the check of a handshake as the code makes it.\<close>

definition protocol_name :: "u8 list" where
  "protocol_name = map byte_of_char ''BitTorrent protocol''"

definition handshake_refused :: "u8 list \<Rightarrow> u8 list \<Rightarrow> bool" where
  "handshake_refused mine h \<longleftrightarrow> length h \<noteq> 68 \<or>
     (h ! 0 \<noteq> 0x13 \<and> take 19 (drop 1 h) \<noteq> protocol_name) \<or>
     take 20 (drop 28 h) \<noteq> take 20 (drop 28 mine)"

definition handshake_id :: "u8 list \<Rightarrow> string" where
  "handshake_id h = map char_of_byte (take 20 (drop 48 h))"

text \<open>The lambda behind \<open>connect\<close>, and the one behind \<open>verify\<close>.\<close>

definition connect_handshake :: "env \<Rightarrow> nat \<Rightarrow> u8 list \<Rightarrow> client \<Rightarrow> client res" where
  "connect_handshake env p h c =
     (if handshake_refused (cl_handshake c) h then Inr (peer_handleError env p c)
      else if pr_peerId (the_peer p c) \<noteq> [] \<and> handshake_id h \<noteq> pr_peerId (the_peer p c)
      then Inr (peer_handleError env p c)
      else
        let c = addPeer env p (upd_peer p (\<lambda>r. r\<lparr>pr_peerId := handshake_id h\<rparr>) c) in
        rbind (sendBitfield env p c) (\<lambda>c. Inr (peer_read p 4 OnLength c)))"

definition verify_handshake :: "env \<Rightarrow> nat \<Rightarrow> u8 list \<Rightarrow> client \<Rightarrow> client res" where
  "verify_handshake env p h c =
     (if handshake_refused (cl_handshake c) h then Inr (peer_handleError env p c)
      else if pr_peerId (the_peer p c) \<noteq> [] \<and> handshake_id h \<noteq> pr_peerId (the_peer p c)
      then Inr (peer_handleError env p c)
      else
        let c = write_bytes p (cl_handshake c) (upd_peer p (\<lambda>r. r\<lparr>pr_peerId := handshake_id h\<rparr>) c) in
        rbind (handleNewPeer env p c) (\<lambda>c. Inr (peer_read p 4 OnLength c)))"

definition on_read :: "env \<Rightarrow> nat \<Rightarrow> read_cb \<Rightarrow> u8 list \<Rightarrow> client \<Rightarrow> client res" where
  "on_read env p cb data c =
     (case cb of OnConnectHandshake \<Rightarrow> connect_handshake env p data c
      | OnVerifyHandshake \<Rightarrow> verify_handshake env p data c
      | OnLength \<Rightarrow> handle env p data c
      | OnMessage \<Rightarrow> handle_body env p data c)"

definition peer_connect :: "nat \<Rightarrow> string \<Rightarrow> string \<Rightarrow> client \<Rightarrow> client" where
  "peer_connect p ip port c =
     c\<lparr>cl_net := conn_connect p ip port () (setErrorCallback p (Some ()) (cl_net c))\<rparr>"

text \<open>The connect callback.\<close>

definition on_connected :: "nat \<Rightarrow> client \<Rightarrow> client" where
  "on_connected p c = peer_read p 68 OnConnectHandshake (write_bytes p (cl_handshake c) c)"

definition verify :: "nat \<Rightarrow> client \<Rightarrow> client" where
  "verify p c =
     peer_read p 68 OnVerifyHandshake (c\<lparr>cl_net := setErrorCallback p (Some ()) (cl_net c)\<rparr>)"

definition handlePieceBlockData :: "nat \<Rightarrow> nat \<Rightarrow> nat \<Rightarrow> mem \<Rightarrow> nat \<Rightarrow> client \<Rightarrow> client res" where
  "handlePieceBlockData p index begin block n c =
     (let P = (\<lambda>i. bi_index i = index \<and> bi_begin i = begin) in
      if find P (pr_requestedBlocks (the_peer p c)) = None then Inr c
      else
        let c = upd_peer p (\<lambda>r. r\<lparr>pr_requestedBlocks := erase_block_info P (pr_requestedBlocks r)\<rparr>) c in
        if \<not> isLocalChoked p c \<and> isRemoteInterested p c
        then sendPieceBlock p (of_nat index) (of_nat begin) block n c else Inr c)"

end
