(* ===== verification/Robust.thy ===== *)
theory Robust
  imports Protocol
begin

text \<open>
  No input from the network makes the client fault: an invariant of the client's state (\<open>client_ok\<close>) under
  which every read callback of src/ctorrent/peer.cpp succeeds on every run of bytes, and which it keeps.
\<close>

section \<open>The invariant\<close>

definition block_ok :: "block \<Rightarrow> bool" where
  "block_ok b \<longleftrightarrow> pb_size b \<le> maxRequestSize \<and>
     (pb_size b = 0 \<or> (\<exists>d. pb_data b = Some (map Some d) \<and> length d = pb_size b))"

definition piece_ok :: "nat \<Rightarrow> queued_piece \<Rightarrow> bool" where
  "piece_ok n q \<longleftrightarrow> qp_index q < n \<and> qp_currentBlocks q < qp_numBlocks q \<and> length (qp_blocks q) = qp_numBlocks q \<and>
     qp_numBlocks q \<le> 2 ^ 18 \<and> (\<forall>b \<in> set (qp_blocks q). block_ok b)"

definition peer_ok :: "nat \<Rightarrow> peer \<Rightarrow> bool" where
  "peer_ok n r \<longleftrightarrow> bitset_wf (pr_bitset r) \<and> bs_size (pr_bitset r) = n \<and> (\<forall>q \<in> set (pr_queue r). piece_ok n q)"

text \<open>An even number of pieces keeps \<open>bitset::count\<close> inside its array.\<close>

definition fm_ok :: "torrent_meta \<Rightarrow> file_manager \<Rightarrow> bool" where
  "fm_ok meta fm \<longleftrightarrow> fm_wf fm \<and> geometry meta fm \<and> even (length (fm_pieces fm)) \<and> tm_pieceLength meta < 2 ^ 32"

abbreviation pieces :: "client \<Rightarrow> nat" where
  "pieces c \<equiv> length (fm_pieces (cl_fileManager c))"

definition client_ok :: "client \<Rightarrow> bool" where
  "client_ok c \<longleftrightarrow> fm_ok (cl_meta c) (cl_fileManager c) \<and> (\<forall>p < cl_next c. peer_ok (pieces c) (cl_store c p))"

text \<open>A later state of the same client.\<close>

definition later :: "client \<Rightarrow> client \<Rightarrow> bool" where
  "later c c' \<longleftrightarrow> client_ok c' \<and> cl_next c' = cl_next c \<and> cl_meta c' = cl_meta c \<and> pieces c' = pieces c"

definition steps :: "client \<Rightarrow> client res \<Rightarrow> bool" where
  "steps c r \<longleftrightarrow> (\<exists>c'. r = Inr c' \<and> later c c')"

definition answers :: "client \<Rightarrow> (bool \<times> client) res \<Rightarrow> bool" where
  "answers c r \<longleftrightarrow> (\<exists>b c'. r = Inr (b, c') \<and> later c c')"

named_theorems ok_intros "operations that keep the client in a good state"

lemma later_ok: "later c c' \<Longrightarrow> client_ok c'"
  by (simp add: later_def)

lemma later_refl: "client_ok c \<Longrightarrow> later c c"
  by (simp add: later_def)

lemma later_trans: "later c c1 \<Longrightarrow> later c1 c2 \<Longrightarrow> later c c2"
  by (simp add: later_def)

lemma steps_Inr [ok_intros]: "later c c' \<Longrightarrow> steps c (Inr c')"
  by (simp add: steps_def)

lemma answers_Inr [ok_intros]: "later c c' \<Longrightarrow> answers c (Inr (b, c'))"
  by (simp add: answers_def)

lemma steps_bind:
  assumes "steps c r" "\<And>c'. later c c' \<Longrightarrow> steps c' (f c')"
  shows "steps c (rbind r f)"
  using assms later_trans by (fastforce simp: steps_def)

lemma steps_after: "later c c1 \<Longrightarrow> steps c1 r \<Longrightarrow> steps c r"
  using later_trans by (auto simp: steps_def)

lemma answers_after: "later c c1 \<Longrightarrow> answers c1 r \<Longrightarrow> answers c r"
  using later_trans by (auto simp: answers_def)

lemma answers_bind:
  assumes "steps c r" "\<And>c'. later c c' \<Longrightarrow> answers c' (f c')"
  shows "answers c (rbind r f)"
  using assms later_trans by (fastforce simp: steps_def answers_def)

lemma answers_bind2:
  assumes "answers c r" "\<And>b c'. later c c' \<Longrightarrow> answers c' (f (b, c'))"
  shows "answers c (rbind r f)"
  using assms later_trans by (fastforce simp: answers_def)

lemma goes_on_answers: "steps c r \<Longrightarrow> answers c (goes_on r)"
  by (rule answers_bind) (auto intro: ok_intros later_refl dest: later_ok)

lemma steps_fold:
  assumes "client_ok c" "\<And>x c'. x \<in> set xs \<Longrightarrow> later c c' \<Longrightarrow> steps c' (f x c')"
  shows "steps c (rfold f xs c)"
proof -
  have "later c c' \<Longrightarrow> set ys \<subseteq> set xs \<Longrightarrow> steps c' (rfold f ys c')" for ys c'
  proof (induction ys arbitrary: c')
    case Nil
    then show ?case using later_refl later_ok by (auto simp: steps_def)
  next
    case (Cons y ys)
    show ?case
      unfolding rfold.simps
    proof (rule steps_bind)
      show "steps c' (f y c')" using assms(2) Cons.prems by simp
      show "steps c1 (rfold f ys c1)" if "later c' c1" for c1
        using Cons.IH later_trans [OF Cons.prems(1) that] Cons.prems(2) by simp
    qed
  qed
  then show ?thesis using later_refl [OF assms(1)] by blast
qed

section \<open>Primitive updates\<close>

lemma upd_peer_sel [simp]:
  "cl_meta (upd_peer p f c) = cl_meta c" "cl_fileManager (upd_peer p f c) = cl_fileManager c"
  "cl_next (upd_peer p f c) = cl_next c" "cl_peers (upd_peer p f c) = cl_peers c" "cl_net (upd_peer p f c) = cl_net c"
  "cl_store (upd_peer p f c) q = (if q = p then f (cl_store c p) else cl_store c q)"
  by (simp_all add: upd_peer_def)

lemma write_bytes_sel [simp]:
  "cl_meta (write_bytes p bs c) = cl_meta c" "cl_fileManager (write_bytes p bs c) = cl_fileManager c"
  "cl_next (write_bytes p bs c) = cl_next c" "cl_peers (write_bytes p bs c) = cl_peers c"
  "cl_store (write_bytes p bs c) = cl_store c"
  by (simp_all add: write_bytes_def)

lemma later_write_bytes: "client_ok c \<Longrightarrow> later c (write_bytes p bs c)"
  by (simp add: later_def client_ok_def)

lemma later_upd_peer:
  "client_ok c \<Longrightarrow> (p < cl_next c \<Longrightarrow> peer_ok (pieces c) (cl_store c p) \<Longrightarrow> peer_ok (pieces c) (f (cl_store c p))) \<Longrightarrow>
    later c (upd_peer p f c)"
  by (auto simp: later_def client_ok_def)

lemma later_set_state: "client_ok c \<Longrightarrow> later c (set_state p f c)"
  unfolding set_state_def by (rule later_upd_peer) (simp_all add: peer_ok_def)

lemma later_net [simp]: "later c (c\<lparr>cl_net := nt\<rparr>) = client_ok c"
  by (simp add: later_def client_ok_def)

lemma later_peers [simp]: "later c (c\<lparr>cl_peers := ps\<rparr>) = client_ok c"
  by (simp add: later_def client_ok_def)

lemma later_file_manager:
  "client_ok c \<Longrightarrow> fm_ok (cl_meta c) fm \<Longrightarrow> length (fm_pieces fm) = pieces c \<Longrightarrow> later c (c\<lparr>cl_fileManager := fm\<rparr>)"
  by (simp add: later_def client_ok_def)

lemma later_handleError: "client_ok c \<Longrightarrow> later c (peer_handleError env p c)"
  by (simp add: later_def client_ok_def peer_handleError_def removePeer_def disconnect_def)

lemma later_read: "client_ok c \<Longrightarrow> later c (peer_read p n cb c)"
  by (simp add: peer_read_def)

lemmas later_intros = later_refl later_write_bytes later_set_state later_handleError later_read

lemma later_set_write: "client_ok c \<Longrightarrow> later c (set_state p f (write_bytes p bs c))"
  by (rule later_trans [OF later_write_bytes later_set_state [OF later_ok [OF later_write_bytes]]])

lemma later_sends:
  assumes "client_ok c"
  shows "later c (sendChoke p c)" "later c (sendUnchoke p c)" "later c (sendInterested p c)"
  using later_set_write [OF assms] by (simp_all add: sendChoke_def sendUnchoke_def sendInterested_def)

lemma steps_sendRequest: "client_ok c \<Longrightarrow> steps c (sendRequest p i b l c)"
  by (simp add: sendRequest_bytes steps_def later_write_bytes)

lemma steps_sendCancel: "client_ok c \<Longrightarrow> steps c (sendCancel p i b l c)"
  by (simp add: sendCancel_bytes steps_def later_write_bytes)

lemma ok_pieceSize:
  assumes "client_ok c" "i < pieces c"
  shows "pieceSize (cl_meta c) (cl_fileManager c) i = Inr (piece_bytes (cl_meta c) i)"
    "0 < piece_bytes (cl_meta c) i" "piece_bytes (cl_meta c) i < 2 ^ 32"
proof -
  have fm: "fm_wf (cl_fileManager c)" "geometry (cl_meta c) (cl_fileManager c)" "tm_pieceLength (cl_meta c) < 2 ^ 32"
    using assms(1) by (simp_all add: client_ok_def fm_ok_def)
  show "pieceSize (cl_meta c) (cl_fileManager c) i = Inr (piece_bytes (cl_meta c) i)"
    using pieceSize_bytes [OF fm(2) assms(2)] fm(1) by (simp add: fm_wf_def)
  show "0 < piece_bytes (cl_meta c) i" using piece_bytes_range(1) [OF fm(2) assms(2)] .
  show "piece_bytes (cl_meta c) i < 2 ^ 32" using piece_bytes_range(2) [OF fm(2) assms(2)] fm(3) by simp
qed

lemma steps_requestPiece:
  assumes "client_ok c" "i < pieces c"
  shows "steps c (peer_requestPiece env p i c)"
proof (cases "isRemoteChoked p c")
  case True
  then show ?thesis using assms(1) by (simp add: peer_requestPiece_def steps_def later_handleError)
next
  case False
  have "steps c (rfold (\<lambda>(b, l). sendRequest p (of_nat i) (of_nat b) (of_nat l)) bs c)" for bs
    by (rule steps_fold [OF assms(1)]) (auto intro: steps_sendRequest dest: later_ok)
  then show ?thesis using False ok_pieceSize(1) [OF assms] by (simp add: peer_requestPiece_def)
qed

lemma steps_cancelPiece:
  assumes "client_ok c" "qp_index q < pieces c"
  shows "steps c (cancelPiece p q c)"
proof -
  have "steps c (rfold (\<lambda>(b, l). sendCancel p (of_nat (qp_index q)) (of_nat b) (of_nat l)) bs c)" for bs
    by (rule steps_fold [OF assms(1)]) (auto intro: steps_sendCancel dest: later_ok)
  then show ?thesis using ok_pieceSize(1) [OF assms] by (simp add: cancelPiece_def)
qed

section \<open>Choosing and asking for a piece\<close>

lemma num_blocks_range:
  assumes "0 < n" "n < 2 ^ 32"
  shows "0 < num_blocks (of_nat n)" "num_blocks (of_nat n) \<le> 2 ^ 18"
proof -
  have n: "unat (of_nat n :: u32) = n" using assms(2) by (simp add: unat_of_nat)
  have "1 * maxRequestSize \<le> n + (maxRequestSize - 1)" using assms(1) by (simp add: maxRequestSize_def)
  then show "0 < num_blocks (of_nat n)"
    unfolding num_blocks_def n by (simp add: div_greater_zero_iff maxRequestSize_def)
  have "(n + (maxRequestSize - 1)) div maxRequestSize \<le> (2 ^ 32 + 16382) div maxRequestSize"
    using assms(2) by (intro div_le_mono) (simp add: maxRequestSize_def)
  then show "num_blocks (of_nat n) \<le> 2 ^ 18" unfolding num_blocks_def n by (simp add: maxRequestSize_def)
qed

lemma steps_sendPieceRequest:
  assumes ok: "client_ok c" and i: "unat i < pieces c"
  shows "steps c (sendPieceRequest env p i c)"
proof -
  let ?c = "sendInterested p c" and ?n = "piece_bytes (cl_meta c) (unat i)"
  have c: "client_ok ?c" "later c ?c" using later_sends(3) [OF ok] later_ok by blast+
  then have eqs: "cl_meta ?c = cl_meta c" "pieces ?c = pieces c" by (simp_all add: later_def)
  note size = ok_pieceSize [OF c(1), of "unat i", unfolded eqs, OF i]
  define q where "q = \<lparr>qp_index = unat i, qp_currentBlocks = 0, qp_numBlocks = num_blocks (of_nat ?n),
      qp_blocks = replicate (num_blocks (of_nat ?n)) new_block\<rparr>"
  define d where "d = upd_peer p (\<lambda>r. r\<lparr>pr_queue := pr_queue r @ [q]\<rparr>) ?c"
  have "piece_ok (pieces c) q"
    using i num_blocks_range [OF size(2,3)] by (auto simp: piece_ok_def q_def block_ok_def new_block_def)
  then have d: "later ?c d"
    unfolding d_def by (intro later_upd_peer [OF c(1)]) (auto simp: peer_ok_def eqs)
  have "steps d (if \<not> isRemoteChoked p d then peer_requestPiece env p (unat i) d else Inr d)"
    using steps_requestPiece [OF later_ok [OF d], of "unat i"] later_refl [OF later_ok [OF d]] i d eqs
    by (auto simp: later_def steps_def)
  then have "steps c (if \<not> isRemoteChoked p d then peer_requestPiece env p (unat i) d else Inr d)"
    by (rule steps_after [OF c(2) steps_after [OF d]])
  moreover have "sendPieceRequest env p i c = (if \<not> isRemoteChoked p d then peer_requestPiece env p (unat i) d else Inr d)"
    using size(1) by (simp add: sendPieceRequest_def eqs Let_def q_def d_def)
  ultimately show ?thesis by simp
qed

lemma hasPiece_ok:
  assumes "client_ok c" "p < cl_next c" "i < pieces c"
  shows "succeeds (hasPiece p c i)"
proof -
  have "peer_ok (pieces c) (cl_store c p)" "pieces c < 2 ^ 31"
    using assms by (simp_all add: client_ok_def fm_ok_def fm_wf_def)
  then have "i < bitset_cap (pr_bitset (cl_store c p))"
    using cap_of_size [of "pr_bitset (cl_store c p)" i] assms(3) by (simp add: peer_ok_def)
  then show ?thesis by (simp add: hasPiece_def bits.test_total)
qed

lemma set_pri_ok:
  assumes "fm_ok meta fm" "0 \<le> v" "v \<le> INT32_MAX"
  shows "fm_ok meta (set_pri fm i v)"
proof -
  have "\<forall>p \<in> set (fm_pieces (set_pri fm i v)). 0 \<le> pc_pri p \<and> pc_pri p \<le> INT32_MAX"
    using assms set_update_subset_insert [of "fm_pieces fm" i "(fm_pieces fm ! i)\<lparr>pc_pri := v\<rparr>"]
    by (fastforce simp: set_pri_def fm_ok_def fm_wf_def)
  then show ?thesis using assms(1) by (simp add: fm_ok_def fm_wf_def set_pri_frame geometry_def)
qed

lemma steps_torrent_requestPiece:
  assumes ok: "client_ok c" and p: "p < cl_next c"
  shows "steps c (requestPiece env p c)"
proof -
  let ?fm = "cl_fileManager c"
  have fm: "fm_ok (cl_meta c) ?fm" "fm_wf ?fm" using ok by (simp_all add: client_ok_def fm_ok_def)
  have "(\<exists>i. first_least ?fm (hasPiece p c) (pieces c) i \<and>
      get_next_piece ?fm (hasPiece p c) = Inr (i, set_pri ?fm i (pri ?fm i + 1))) \<or>
    none_left ?fm (hasPiece p c) (pieces c) \<and> get_next_piece ?fm (hasPiece p c) = Inr (SIZE_MAX, ?fm)"
    by (rule get_next_piece_result [OF fm(2)]) (rule hasPiece_ok [OF ok p])
  then show ?thesis
  proof (elim disjE exE conjE)
    fix i
    assume i: "first_least ?fm (hasPiece p c) (pieces c) i"
      "get_next_piece ?fm (hasPiece p c) = Inr (i, set_pri ?fm i (pri ?fm i + 1))"
    define d where "d = c\<lparr>cl_fileManager := set_pri ?fm i (pri ?fm i + 1)\<rparr>"
    have lt: "i < pieces c" "pri ?fm i + 1 \<le> INT32_MAX" "0 \<le> pri ?fm i + 1"
      using i(1) fm_wf_pri [OF fm(2), of i] by (auto simp: first_least_def)
    have d: "later c d"
      unfolding d_def using set_pri_ok [OF fm(1) lt(3,2)] by (intro later_file_manager [OF ok]) (simp_all add: set_pri_frame)
    have "pieces c < 2 ^ 31" using fm(2) by (simp add: fm_wf_def)
    then have "unat (of_nat i :: u32) = i" "i \<noteq> SIZE_MAX"
      using lt(1) by (simp_all add: unat_of_nat SIZE_MAX_def)
    then show ?thesis
      using i(2) steps_after [OF d steps_sendPieceRequest [OF later_ok [OF d], of "of_nat i"]] lt(1) d
      by (simp add: requestPiece_def Let_def d_def later_def)
  next
    assume "get_next_piece ?fm (hasPiece p c) = Inr (SIZE_MAX, ?fm)"
    then show ?thesis using ok by (simp add: requestPiece_def steps_def later_refl)
  qed
qed

lemma isFinished_ok:
  assumes "client_ok c"
  shows "succeeds (isFinished c)"
proof -
  have "fm_wf (cl_fileManager c)" "even (pieces c)" using assms by (simp_all add: client_ok_def fm_ok_def)
  then have "succeeds (completed_pieces (cl_fileManager c))"
    using bitset_count_result [of "fm_completedBits (cl_fileManager c)"]
    by (simp add: completed_pieces_def fm_wf_def)
  then show ?thesis by (auto simp: isFinished_def succeeds_iff)
qed


section \<open>Messages as bytes\<close>

text \<open>An input message on initialised bytes, at a position.\<close>

definition msg_at :: "u8 list \<Rightarrow> nat \<Rightarrow> input_message" where
  "msg_at bs k = \<lparr>im_data = map Some bs, im_size = length bs, im_pos = of_nat k, im_order = BigEndian\<rparr>"

lemma msg_at_sel [simp]:
  "im_size (msg_at bs k) = length bs" "im_data (msg_at bs k) = map Some bs" "im_order (msg_at bs k) = BigEndian"
  by (simp_all add: msg_at_def)

lemma InputMessage_msg: "InputMessage (map Some bs) (length bs) BigEndian = msg_at bs 0"
  by (simp add: msg_at_def InputMessage_def)

lemma msg_pos: "k < 2 ^ 32 \<Longrightarrow> unat (im_pos (msg_at bs k)) = k"
  by (simp add: msg_at_def unat_of_nat)

lemma getU32_msg:
  assumes "k + 4 \<le> length bs" "length bs < 2 ^ 32"
  shows "getU32 (msg_at bs k) = Inr (word_at bs k, msg_at bs (k + 4))"
  using assms readBE32_word_at [of k bs] msg_pos [of k bs]
  by (simp add: getU32_def im_advance_def) (simp add: msg_at_def)

lemma get_three_msg:
  assumes "length bs = 12"
  shows "get_three (msg_at bs 0) = Inr (word_at bs 0, word_at bs 4, word_at bs 8)"
  using assms by (simp add: get_three_def getU32_msg)

lemma getBuffer_msg: "k < 2 ^ 32 \<Longrightarrow> getBuffer (msg_at bs k) = map Some (drop k bs)"
  by (simp add: getBuffer_def msg_pos drop_map)

lemma getBuffer_copy_msg:
  assumes "k + n = length bs" "length bs < 2 ^ 32"
  shows "getBuffer_copy (msg_at bs k) n = Inr (Some (map Some (drop k bs)))"
  using assms by (simp add: getBuffer_copy_def msg_pos slice_def add64_small drop_map)

section \<open>Assembling a piece\<close>

definition block_bytes :: "block \<Rightarrow> u8 list" where
  "block_bytes b = (case pb_data b of None \<Rightarrow> [] | Some d \<Rightarrow> map the (take (pb_size b) d))"

lemma block_ok_bytes:
  assumes "block_ok b"
  shows "length (block_bytes b) = pb_size b" "pb_size b \<le> maxRequestSize"
    "y < pb_size b \<Longrightarrow> (case pb_data b of None \<Rightarrow> Inl OutOfBounds | Some d \<Rightarrow> load d y) = Inr (block_bytes b ! y)"
  using assms by (auto simp: block_ok_def block_bytes_def split: option.splits)

lemma db_add_unchecked_holds:
  assumes "db_holds b xs" "length xs < db_capacity b"
  shows "\<exists>b'. db_add_unchecked b v = Inr b' \<and> db_holds b' (xs @ [v]) \<and> db_capacity b' = db_capacity b"
  using assms db_holds_size [OF assms(1)]
  by (auto simp: db_add_unchecked_def db_raw_assign_def db_holds_def db_wf_def db_cells_def take_Suc_conv_app_nth)

lemma copy_block_holds:
  assumes b: "block_ok b" and buf: "db_holds buf xs" "length xs + pb_size b \<le> db_capacity buf"
  shows "\<exists>buf'. copy_block b buf = Inr buf' \<and> db_holds buf' (xs @ block_bytes b) \<and> db_capacity buf' = db_capacity buf"
proof -
  let ?get = "\<lambda>y. case pb_data b of None \<Rightarrow> Inl OutOfBounds | Some d \<Rightarrow> load d y"
  have "\<exists>buf'. rfold (\<lambda>y buf. rbind (?get y) (db_add_unchecked buf)) [0..<k] buf = Inr buf' \<and>
      db_holds buf' (xs @ take k (block_bytes b)) \<and> db_capacity buf' = db_capacity buf"
    if "k \<le> pb_size b" for k
    using that
  proof (induction k)
    case 0
    then show ?case using buf(1) by simp
  next
    case (Suc k)
    then obtain buf1 where buf1: "rfold (\<lambda>y buf. rbind (?get y) (db_add_unchecked buf)) [0..<k] buf = Inr buf1"
      "db_holds buf1 (xs @ take k (block_bytes b))" "db_capacity buf1 = db_capacity buf" by auto
    have "length (xs @ take k (block_bytes b)) < db_capacity buf1"
      using buf(2) buf1(3) Suc.prems by simp
    then obtain buf2 where "db_add_unchecked buf1 (block_bytes b ! k) = Inr buf2"
      "db_holds buf2 ((xs @ take k (block_bytes b)) @ [block_bytes b ! k])" "db_capacity buf2 = db_capacity buf"
      using db_add_unchecked_holds [OF buf1(2)] buf1(3) by metis
    then show ?case
      using buf1(1) Suc.prems block_ok_bytes [OF b] by (simp add: rfold_append take_Suc_conv_app_nth)
  qed
  from this [of "pb_size b"] show ?thesis
    using block_ok_bytes(1) [OF b] by (simp add: copy_block_def)
qed

definition piece_data :: "queued_piece \<Rightarrow> u8 list" where
  "piece_data q = concat (map block_bytes (qp_blocks q))"

lemma assemble_holds:
  assumes len: "length (qp_blocks q) = qp_numBlocks q" "qp_numBlocks q \<le> 2 ^ 18"
    and ok: "\<forall>b \<in> set (qp_blocks q). block_ok b"
  shows "\<exists>buf. assemble q = Inr buf \<and> db_holds buf (piece_data q)"
proof -
  let ?n = "qp_numBlocks q" and ?bs = "qp_blocks q"
  have "mul64 ?n maxRequestSize = ?n * maxRequestSize"
    using len(2) by (intro mul64_small) (simp add: maxRequestSize_def)
  then obtain buf where buf: "db_reserve (db_new 64) (mul64 ?n maxRequestSize) = Inr buf" "db_holds buf ([] :: u8 list)"
    "?n * maxRequestSize \<le> db_capacity buf"
    using that [of "db_new 64"] that [of "db_new (?n * maxRequestSize)"]
    by (cases "64 < ?n * maxRequestSize"; cases "?n = 0")
      (simp_all add: db_reserve_def db_new_def db_holds_def db_wf_def db_cells_def maxRequestSize_def)
  have "\<exists>buf'. rfold (\<lambda>x buf. if x < length ?bs then copy_block (?bs ! x) buf else Inl OutOfBounds) [0..<k] buf = Inr buf' \<and>
      db_holds buf' (concat (map block_bytes (take k ?bs))) \<and> db_capacity buf' = db_capacity buf \<and>
      length (concat (map block_bytes (take k ?bs))) \<le> k * maxRequestSize"
    if "k \<le> ?n" for k
    using that
  proof (induction k)
    case 0
    then show ?case using buf(2) by simp
  next
    case (Suc k)
    let ?xs = "concat (map block_bytes (take k ?bs))"
    obtain buf1 where buf1: "rfold (\<lambda>x buf. if x < length ?bs then copy_block (?bs ! x) buf else Inl OutOfBounds) [0..<k] buf = Inr buf1"
      "db_holds buf1 ?xs" "db_capacity buf1 = db_capacity buf" "length ?xs \<le> k * maxRequestSize"
      using Suc by auto
    have k: "k < length ?bs" "block_ok (?bs ! k)" using Suc.prems len(1) ok by simp_all
    have "Suc k * maxRequestSize \<le> ?n * maxRequestSize" using Suc.prems by (rule mult_le_mono1)
    then have "length ?xs + pb_size (?bs ! k) \<le> db_capacity buf1"
      using buf1(3,4) buf(3) block_ok_bytes(2) [OF k(2)] by simp
    then obtain buf2 where "copy_block (?bs ! k) buf1 = Inr buf2" "db_holds buf2 (?xs @ block_bytes (?bs ! k))"
      "db_capacity buf2 = db_capacity buf"
      using copy_block_holds [OF k(2) buf1(2)] buf1(3) by metis
    then show ?case
      using buf1(1,4) k block_ok_bytes [OF k(2)] by (simp add: rfold_append take_Suc_conv_app_nth)
  qed
  from this [of ?n] show ?thesis
    using buf(1) len(1) by (auto simp: assemble_def piece_data_def)
qed

lemma db_holds_bytes:
  assumes "db_holds b xs"
  shows "db_bytes b = Inr xs"
  using assms db_holds_size [OF assms]
  by (auto simp: db_bytes_def db_addr_def db_holds_def db_wf_def db_cells_def slice_def)

section \<open>Every handler answers\<close>

lemma answers_fail: "client_ok c \<Longrightarrow> answers c (fail env p c)"
  by (simp add: answers_Inr later_handleError)

lemma steps_set_peer_bit:
  assumes "client_ok c" "p < cl_next c" "i < pieces c"
  shows "steps c (set_peer_bit p i c)"
proof -
  have r: "peer_ok (pieces c) (cl_store c p)" "pieces c < 2 ^ 31"
    using assms by (simp_all add: client_ok_def fm_ok_def fm_wf_def)
  then have cap: "i < bitset_cap (pr_bitset (cl_store c p))"
    using cap_of_size [of "pr_bitset (cl_store c p)" i] assms(3) by (simp add: peer_ok_def)
  then obtain b where b: "bitset_set (pr_bitset (cl_store c p)) i = Inr b"
    using bits.put_total by (auto simp: succeeds_iff)
  have "later c (upd_peer p (\<lambda>r. r\<lparr>pr_bitset := b\<rparr>) c)"
    using bitset_set_frame [OF b cap] by (intro later_upd_peer [OF assms(1)]) (simp add: peer_ok_def)
  then show ?thesis by (simp add: set_peer_bit_def b steps_def)
qed

lemma queue_ok: "client_ok c \<Longrightarrow> p < cl_next c \<Longrightarrow> q \<in> set (pr_queue (cl_store c p)) \<Longrightarrow> piece_ok (pieces c) q"
  by (auto simp: client_ok_def peer_ok_def)

lemma answers_unchoke:
  assumes ok: "client_ok c" and p: "p < cl_next c"
  shows "answers c (on_unchoke env p m c)"
proof (cases "im_size m = 0")
  case True
  let ?c = "set_state p (\<lambda>s. s AND NOT PS_PeerChoked) c"
  have c: "later c ?c" using ok by (rule later_set_state)
  have "steps ?c (rfold (\<lambda>piece. peer_requestPiece env p (qp_index piece)) (pr_queue (the_peer p ?c)) ?c)"
  proof (rule steps_fold [OF later_ok [OF c]])
    fix q d
    assume q: "q \<in> set (pr_queue (the_peer p ?c))" and d: "later ?c d"
    have "piece_ok (pieces ?c) q" using queue_ok [OF later_ok [OF c] _ q] p c by (simp add: later_def)
    then show "steps d (peer_requestPiece env p (qp_index q) d)"
      using d by (intro steps_requestPiece [OF later_ok [OF d]]) (simp add: piece_ok_def later_def)
  qed
  then show ?thesis
    using True answers_after [OF c goes_on_answers] by (simp add: on_unchoke_def Let_def)
qed (use ok in \<open>simp add: on_unchoke_def answers_fail\<close>)

lemma answers_simple:
  assumes ok: "client_ok c"
  shows "answers c (on_choke env p m c)" "answers c (on_interested env p m c)" "answers c (on_not_interested env p m c)"
proof -
  show "answers c (on_choke env p m c)" "answers c (on_not_interested env p m c)"
    using ok by (auto simp: on_choke_def on_not_interested_def intro!: answers_Inr later_intros)
  let ?c = "set_state p (\<lambda>s. s OR PS_PeerInterested) c"
  have c: "later c ?c" using ok by (rule later_set_state)
  have "later c (if isLocalChoked p ?c then sendUnchoke p ?c else ?c)"
    using c later_trans [OF c later_sends(2) [OF later_ok [OF c]]] by simp
  then show "answers c (on_interested env p m c)"
    using ok by (auto simp: on_interested_def Let_def intro!: answers_Inr later_handleError)
qed

lemma finished_then_request:
  assumes "client_ok c" "p < cl_next c"
  shows "answers c (rbind (isFinished c) (\<lambda>fin. goes_on (if \<not> fin then requestPiece env p c else Inr c)))"
proof -
  obtain fin where "isFinished c = Inr fin" using isFinished_ok [OF assms(1)] by (auto simp: succeeds_iff)
  moreover have "steps c (if \<not> fin then requestPiece env p c else Inr c)"
    using steps_torrent_requestPiece [OF assms] assms(1) by (simp add: steps_Inr later_refl)
  ultimately show ?thesis using goes_on_answers by simp
qed

lemma answers_have:
  assumes ok: "client_ok c" and p: "p < cl_next c"
  shows "answers c (on_have env p (msg_at bs 0) c)"
proof (cases "length bs = 4")
  case True
  have "bs_size (pr_bitset (the_peer p c)) = pieces c" using ok p by (simp add: client_ok_def peer_ok_def)
  then have "steps c (if unat (word_at bs 0) < bs_size (pr_bitset (the_peer p c))
      then set_peer_bit p (unat (word_at bs 0)) c else Inr c)"
    using steps_set_peer_bit [OF ok p] ok by (simp add: steps_Inr later_refl)
  then show ?thesis using True goes_on_answers by (simp add: on_have_def getU32_msg)
qed (use ok in \<open>simp add: on_have_def answers_fail\<close>)

lemma answers_bitfield:
  assumes ok: "client_ok c" and p: "p < cl_next c" and len: "length bs < 2 ^ 32"
  shows "answers c (on_bitfield env p (msg_at bs 0) c)"
proof (cases "bs = []")
  case False
  have bits: "steps c (rfold (bitfield_step (map Some bs) p) (List.product [0..<length bs] [0..<8]) c)"
  proof (rule steps_fold [OF ok])
    fix x d
    assume "x \<in> set (List.product [0..<length bs] [0..<8])" and d: "later c d"
    then have "x \<in> {0..<length bs} \<times> {0..<8}" by (simp only: set_product set_upt)
    then obtain i k where x: "x = (i, k)" "i < length bs" by auto
    show "steps d (bitfield_step (map Some bs) p x d)"
      using steps_set_peer_bit [OF later_ok [OF d], of p "i * 8 + k"] later_refl [OF later_ok [OF d]] p d x
      by (auto simp: bitfield_step_def total_pieces_def later_def steps_def)
  qed
  have "answers c (rbind (rfold (bitfield_step (map Some bs) p) (List.product [0..<length bs] [0..<8]) c) (\<lambda>c.
        rbind (isFinished c) (\<lambda>fin. goes_on (if \<not> fin then requestPiece env p c else Inr c))))"
    by (rule answers_bind [OF bits]) (rule finished_then_request, use p in \<open>auto simp: later_def\<close>)
  then show ?thesis using False by (simp add: on_bitfield_def getBuffer_msg Suc_le_eq)
qed (use ok in \<open>simp add: on_bitfield_def answers_fail\<close>)


lemma requestPieceBlock_ok:
  assumes "fm_ok meta fm"
  shows "\<exists>b fm'. requestPieceBlock meta fm i from begin n = Inr (b, fm') \<and> fm_ok meta fm' \<and>
    length (fm_pieces fm') = length (fm_pieces fm)"
proof (cases "i < length (fm_pieces fm)")
  case True
  have fm: "fm_wf fm" "geometry meta fm" "length (fm_pieces fm) < 2 ^ 31"
    using assms by (simp_all add: fm_ok_def fm_wf_def)
  have "fm_ok meta (push_read (fm\<lparr>fm_rid := fm_rid fm + 1\<rparr>) r)" for r
    using assms by (simp add: fm_ok_def fm_wf_def geometry_def push_read_def)
  then show ?thesis
    using True assms fm_test(1) [OF fm(1) True] piece_length_bytes [OF fm(2) True fm(3)]
    by (auto simp: requestPieceBlock_def intact_def is_read_eligible_def push_read_def Let_def)
next
  case False
  then show ?thesis using assms by (intro exI [of _ False] exI [of _ fm]) (simp add: requestPieceBlock_def intact_def)
qed

lemma writePieceBlock_ok:
  assumes fm: "fm_ok meta fm" and bs: "db_bytes data = Inr bs"
  shows "\<exists>b fm'. writePieceBlock sha1 fm i from data = Inr (b, fm') \<and> fm_ok meta fm' \<and>
    length (fm_pieces fm') = length (fm_pieces fm)"
proof (cases "i < length (fm_pieces fm)")
  case True
  have wf: "fm_wf fm" using fm by (simp add: fm_ok_def)
  note cap = fm_wf_cap(2) [OF wf True]
  obtain b where b: "bitset_set (fm_pendingBits fm) i = Inr b"
    using bits.put_total [OF cap] by (auto simp: succeeds_iff)
  have "fm_ok meta (fm\<lparr>fm_writeRequests := ws, fm_pendingBits := b\<rparr>)" for ws
    using fm bitset_set_frame [OF b cap] by (simp add: fm_ok_def fm_wf_def geometry_def)
  moreover have "\<exists>ok fm'. writePieceBlock sha1 fm i from data = Inr (ok, fm') \<and>
      (fm' = fm \<or> (\<exists>ws. fm' = fm\<lparr>fm_writeRequests := ws, fm_pendingBits := b\<rparr>))"
    using True bs b fm_test(2) [OF wf True]
    by (auto simp: writePieceBlock_def intact_def is_write_eligible_def push_write_def)
  ultimately show ?thesis using fm by fastforce
next
  case False
  then show ?thesis using fm by (intro exI [of _ False] exI [of _ fm]) (simp add: writePieceBlock_def intact_def)
qed

lemma answers_request:
  assumes ok: "client_ok c"
  shows "answers c (on_request env p (msg_at bs 0) c)"
proof (cases "length bs = 12 \<and> isRemoteInterested p c \<and> \<not> isLocalChoked p c \<and> unat (word_at bs 8) \<le> maxRequestSize")
  case False
  then show ?thesis using answers_fail [OF ok] by (auto simp: on_request_def get_three_msg)
next
  case True
  obtain b fm where b: "requestPieceBlock (cl_meta c) (cl_fileManager c) (unat (word_at bs 0)) (peer_ip env p c)
      (unat (word_at bs 4)) (unat (word_at bs 8)) = Inr (b, fm)"
    and fm: "fm_ok (cl_meta c) fm" "length (fm_pieces fm) = pieces c"
    using requestPieceBlock_ok ok by (metis client_ok_def)
  have d: "later c (c\<lparr>cl_fileManager := fm\<rparr>)" using ok fm by (rule later_file_manager)
  note d_ok = later_ok [OF d]
  have "later (c\<lparr>cl_fileManager := fm\<rparr>) (upd_peer p (\<lambda>r. r\<lparr>pr_requestedBlocks := pr_requestedBlocks r @ x\<rparr>) (c\<lparr>cl_fileManager := fm\<rparr>))" for x
    by (rule later_upd_peer [OF d_ok]) (simp add: peer_ok_def)
  then show ?thesis
    using True b later_trans [OF d] later_sends(1) [OF d_ok]
    by (cases b) (auto simp: on_request_def get_three_msg handleRequestBlock_def intro!: answers_Inr)
qed

lemma answers_cancel:
  assumes ok: "client_ok c"
  shows "answers c (on_cancel env p (msg_at bs 0) c)"
proof (cases "length bs = 12")
  case True
  have "later c (upd_peer p (\<lambda>r. r\<lparr>pr_requestedBlocks := f (pr_requestedBlocks r)\<rparr>) c)" for f
    by (rule later_upd_peer [OF ok]) (simp add: peer_ok_def)
  then show ?thesis using True by (simp add: on_cancel_def get_three_msg answers_Inr)
qed (use ok in \<open>simp add: on_cancel_def answers_fail\<close>)

lemma answers_port:
  assumes ok: "client_ok c"
  shows "answers c (on_port env p (msg_at bs 0) c)"
proof (cases "length bs = 2")
  case True
  then obtain a b where bs: "bs = [a, b]" by (auto simp: length_Suc_conv numeral_2_eq_2)
  have "readBE16 (map Some bs) 0 = Inr (push_bit 8 (ucast a) OR ucast b)"
    by (simp add: readBE16_def load_def bs or.commute)
  then show ?thesis
    using True ok by (simp add: on_port_def getU16_def msg_pos answers_Inr later_refl)
qed (use ok in \<open>simp add: on_port_def answers_fail\<close>)

section \<open>Blocks of a piece\<close>

lemma find_piece_Some:
  assumes "find_piece i q = Some r"
  shows "r \<in> set q" "qp_index r = i"
  using assms by (auto simp: find_piece_def find_Some_iff)

lemma erase_piece_subset: "set (erase_piece i q) \<subseteq> set q"
  by (induction q) auto

lemma replace_piece_subset: "set (replace_piece r q) \<subseteq> insert r (set q)"
  by (induction q) auto

lemma later_set_queue:
  assumes "client_ok c" "p < cl_next c \<Longrightarrow> (\<forall>q \<in> set (pr_queue (cl_store c p)). piece_ok (pieces c) q) \<Longrightarrow>
    (\<forall>q \<in> set (f (pr_queue (cl_store c p))). piece_ok (pieces c) q)"
  shows "later c (set_queue p f c)"
  unfolding set_queue_def using assms by (intro later_upd_peer) (simp_all add: peer_ok_def)

lemma later_erase_piece: "client_ok c \<Longrightarrow> later c (set_queue p (erase_piece i) c)"
  using erase_piece_subset by (intro later_set_queue) blast+

lemma put_block_ok:
  assumes "piece_ok n q" "k < qp_numBlocks q" "d \<noteq> []" "length d \<le> maxRequestSize"
  shows "\<forall>b \<in> set (qp_blocks (put_block k (length d) (Some (map Some d)) q)). block_ok b"
    "length (qp_blocks (put_block k (length d) (Some (map Some d)) q)) = qp_numBlocks q"
    "qp_currentBlocks (put_block k (length d) (Some (map Some d)) q) \<noteq> qp_numBlocks q \<Longrightarrow>
      piece_ok n (put_block k (length d) (Some (map Some d)) q)"
proof -
  have new: "block_ok \<lparr>pb_size = length d, pb_data = Some (map Some d)\<rparr>"
    using assms(4) by (auto simp: block_ok_def)
  show blocks: "\<forall>b \<in> set (qp_blocks (put_block k (length d) (Some (map Some d)) q)). block_ok b"
    using assms(1) new set_update_subset_insert by (fastforce simp: put_block_def piece_ok_def)
  show "length (qp_blocks (put_block k (length d) (Some (map Some d)) q)) = qp_numBlocks q"
    using assms(1) by (simp add: put_block_def piece_ok_def)
  show "piece_ok n (put_block k (length d) (Some (map Some d)) q)"
    if "qp_currentBlocks (put_block k (length d) (Some (map Some d)) q) \<noteq> qp_numBlocks q"
    using assms(1) that blocks by (simp add: piece_ok_def put_block_def)
qed

lemma answers_finish_piece:
  assumes ok: "client_ok c" and p: "p < cl_next c"
    and q: "length (qp_blocks q) = qp_numBlocks q" "qp_numBlocks q \<le> 2 ^ 18" "\<forall>b \<in> set (qp_blocks q). block_ok b"
  shows "answers c (finish_piece env p i q c)"
proof -
  obtain buf where buf: "assemble q = Inr buf" "db_bytes buf = Inr (piece_data q)"
    using assemble_holds [OF q] db_holds_bytes by blast
  define d where "d = set_queue p (erase_piece (unat i)) c"
  have d: "later c d" unfolding d_def using ok by (rule later_erase_piece)
  note d_ok = later_ok [OF d]
  obtain b fm where b: "writePieceBlock (en_sha1 env) (cl_fileManager d) (unat i) (peer_ip env p d) buf = Inr (b, fm)"
    and fm: "fm_ok (cl_meta d) fm" "length (fm_pieces fm) = pieces d"
    using writePieceBlock_ok [OF _ buf(2)] d_ok by (metis client_ok_def)
  have d1: "later d (d\<lparr>cl_fileManager := fm\<rparr>)" using d_ok fm by (rule later_file_manager)
  have d2: "later d (d\<lparr>cl_fileManager := fm, cl_wastedBytes := w, cl_hashMisses := h\<rparr>)" for w h
    using d1 fm(2) by (simp add: later_def client_ok_def)
  have "answers d (rbind (handlePieceCompleted env p i buf d) (\<lambda>(ok, c).
       if \<not> ok then Inr (True, sendChoke p c)
       else rbind (isFinished c) (\<lambda>fin. goes_on (if \<not> fin then requestPiece env p c else Inr c))))"
  proof (cases b)
    case True
    then show ?thesis
      using b answers_after [OF d1 finished_then_request [OF later_ok [OF d1]]] p d
      by (simp add: handlePieceCompleted_def later_def)
  next
    case False
    then show ?thesis
      using b later_trans [OF d2 later_sends(1) [OF later_ok [OF d2]]]
      by (simp add: handlePieceCompleted_def answers_Inr)
  qed
  then show ?thesis
    using answers_after [OF d] buf(1) by (simp add: finish_piece_def d_def)
qed

lemma on_piece_block_msg:
  assumes "9 \<le> length bs" "length bs - 8 \<le> maxRequestSize" "length bs < 2 ^ 32"
  shows "on_piece_block env p (msg_at bs 0) c =
    (let i = word_at bs 0; b = unat (word_at bs 4) div maxRequestSize; d = drop 8 bs in
     case find_piece (unat i) (pr_queue (the_peer p c)) of
       None \<Rightarrow> fail env p c
     | Some piece \<Rightarrow>
         if b \<ge> qp_numBlocks piece then fail env p c
         else rbind (piece_done (cl_fileManager c) (unat i)) (\<lambda>have.
           if have then
             rbind (cancelPiece p piece c) (\<lambda>c. Inr (True, set_queue p (erase_piece (unat i)) c))
           else if \<not> b < length (qp_blocks piece) then Inl OutOfBounds
           else
             let piece = put_block b (length d) (Some (map Some d)) piece in
             if qp_currentBlocks piece = qp_numBlocks piece then finish_piece env p i piece c
             else Inr (True, set_queue p (replace_piece piece) c)))"
  using assms getBuffer_copy_msg [of 8 "length bs - 8" bs]
  by (simp add: on_piece_block_def getU32_msg Let_def split: option.split cong: if_cong)

lemma answers_piece_block:
  assumes ok: "client_ok c" and p: "p < cl_next c" and len: "length bs < 2 ^ 32"
  shows "answers c (on_piece_block env p (msg_at bs 0) c)"
proof (cases "9 \<le> length bs \<and> length bs - 8 \<le> maxRequestSize")
  case False
  then show ?thesis using answers_fail [OF ok] len
    by (cases "length bs < 9") (auto simp: on_piece_block_def getU32_msg)
next
  case True
  let ?i = "word_at bs 0" and ?b = "unat (word_at bs 4) div maxRequestSize"
  let ?d = "drop 8 bs" and ?q = "pr_queue (the_peer p c)"
  have "9 \<le> length bs" "length bs - 8 \<le> maxRequestSize" using True by simp_all
  note start = on_piece_block_msg [OF this len, of env p c, unfolded Let_def]
  show ?thesis
  proof (cases "find_piece (unat ?i) ?q")
    case None
    then show ?thesis unfolding start using ok by (simp add: answers_fail)
  next
    case (Some piece)
    note piece = find_piece_Some [OF Some]
    have pok: "piece_ok (pieces c) piece" using queue_ok [OF ok p piece(1)] .
    have i: "unat ?i < pieces c" using pok piece(2) by (simp add: piece_ok_def)
    show ?thesis
    proof (cases "?b < qp_numBlocks piece")
      case False
      then show ?thesis unfolding start using Some ok by (simp add: answers_fail)
    next
      case bk: True
      have "fm_wf (cl_fileManager c)" using ok by (simp add: client_ok_def fm_ok_def)
      then obtain got where h: "piece_done (cl_fileManager c) (unat ?i) = Inr got"
        using fm_test(1) i by (auto simp: piece_done_def)
      define r where "r = put_block ?b (length ?d) (Some (map Some ?d)) piece"
      have d: "?d \<noteq> []" "length ?d \<le> maxRequestSize" using True by auto
      have r_eq: "put_block ?b (length bs - 8) (Some (map Some ?d)) piece = r" by (simp add: r_def)
      note r = put_block_ok [OF pok bk d, folded r_def]
      have rn: "qp_numBlocks r = qp_numBlocks piece" "qp_index r = qp_index piece" by (simp_all add: r_def put_block_def)
      have cancel: "answers c (rbind (cancelPiece p piece c) (\<lambda>c. Inr (True, set_queue p (erase_piece (unat ?i)) c)))"
      proof (rule answers_bind)
        show "steps c (cancelPiece p piece c)" using steps_cancelPiece [OF ok] i piece(2) by simp
        show "answers d (Inr (True, set_queue p (erase_piece (unat ?i)) d))" if "later c d" for d
          by (rule answers_Inr [OF later_erase_piece [OF later_ok [OF that]]])
      qed
      have finish: "answers c (finish_piece env p ?i r c)"
        using r(1,2) rn pok by (intro answers_finish_piece [OF ok p]) (simp_all add: piece_ok_def)
      have keep: "answers c (Inr (True, set_queue p (replace_piece r) c))" if "qp_currentBlocks r \<noteq> qp_numBlocks r"
      proof -
        have "piece_ok (pieces c) r" using r(3) that rn by simp
        then have "later c (set_queue p (replace_piece r) c)"
          using replace_piece_subset by (intro later_set_queue [OF ok]) fastforce
        then show ?thesis by (rule answers_Inr)
      qed
      show ?thesis
        unfolding start using Some bk h cancel finish keep pok
        by (cases got) (simp_all add: Let_def r_eq piece_ok_def)
    qed
  qed
qed

lemma answers_dispatch:
  assumes "client_ok c" "p < cl_next c" "length bs < 2 ^ 32"
  shows "answers c (dispatch env p t (msg_at bs 0) c)"
  using assms unfolding dispatch_def
  by (simp add: answers_simple answers_unchoke answers_have answers_bitfield answers_request answers_piece_block
      answers_cancel answers_port answers_Inr later_refl)

lemma steps_handle_body:
  assumes ok: "client_ok c" and p: "p < cl_next c" and data: "data \<noteq> []" "length data < 2 ^ 32"
  shows "steps c (handle_body env p data c)"
proof -
  obtain t bs where bs: "data = t # bs" using data(1) by (cases data) auto
  have len: "length bs < 2 ^ 32" "sub64 (length data) 1 = length bs"
    using data(2) by (simp_all add: bs sub64_small)
  obtain go c' where "dispatch env p t (msg_at bs 0) c = Inr (go, c')" "later c c'"
    using answers_dispatch [OF ok p len(1), of env t] unfolding answers_def by blast
  then show ?thesis
    using later_trans [OF _ later_read [OF later_ok]] len(2)
    by (auto simp: handle_body_def handleMessage_def bs InputMessage_msg steps_def load_def)
qed

section \<open>Handshakes\<close>

lemma bitfield_bytes_ok:
  assumes "fm_wf fm" "i + k \<le> length (fm_pieces fm)"
  shows "\<exists>bs. bitfield_bytes env (fm_completedBits fm) i k = Inr bs \<and> length bs = k"
  using assms(2)
proof (induction k arbitrary: i)
  case 0
  then show ?case by simp
next
  case (Suc k)
  have "i < length (fm_pieces fm)" using Suc.prems by simp
  then have "bitset_test (fm_completedBits fm) i = Inr (i \<in> completed fm)"
    "bitsAt (fm_completedBits fm) i = Inr (bs_bits (fm_completedBits fm) ! (i div 8))"
    using fm_test(1) [OF assms(1)] bitsAt_in fm_wf_cap(1) [OF assms(1)] by auto
  moreover obtain bs where "bitfield_bytes env (fm_completedBits fm) (i + 1) k = Inr bs" "length bs = k"
    using Suc.IH [of "i + 1"] Suc.prems by auto
  ultimately show ?case by simp
qed

lemma steps_sendBitfield:
  assumes ok: "client_ok c"
  shows "steps c (sendBitfield env p c)"
proof -
  let ?b = "fm_completedBits (cl_fileManager c)"
  have fm: "fm_wf (cl_fileManager c)" "even (pieces c)" "0 < pieces c"
    using ok geometry_pos(2) by (auto simp: client_ok_def fm_ok_def)
  then obtain n where n: "bitset_count ?b = Inr n"
    using bitset_count_result [of ?b] by (simp add: fm_wf_def)
  obtain bs where bs: "bitfield_bytes env ?b 0 (bs_size ?b) = Inr bs" "length bs = pieces c"
    using bitfield_bytes_ok [OF fm(1), of 0 "pieces c"] fm(1) by (auto simp: fm_wf_def)
  then have "bs \<noteq> []" using fm(3) by auto
  then show ?thesis
    using n bs(1) ok
    by (simp add: sendBitfield_def peer_sendBitfield_bytes steps_def later_write_bytes later_refl Let_def)
qed

lemma later_peerId: "client_ok c \<Longrightarrow> later c (upd_peer p (\<lambda>r. r\<lparr>pr_peerId := i\<rparr>) c)"
  by (rule later_upd_peer) (simp_all add: peer_ok_def)

lemma steps_then_read:
  assumes "steps c r"
  shows "steps c (rbind r (\<lambda>c. Inr (peer_read p n cb c)))"
  using assms by (rule steps_bind) (auto intro: steps_Inr later_read dest: later_ok)

lemma steps_connect_handshake:
  assumes ok: "client_ok c"
  shows "steps c (connect_handshake env p h c)"
proof -
  let ?c = "upd_peer p (\<lambda>r. r\<lparr>pr_peerId := handshake_id h\<rparr>) c"
  have c: "later c ?c" using ok by (rule later_peerId)
  have "later ?c (addPeer env p ?c)"
    using later_ok [OF c] by (simp add: addPeer_def Let_def later_def client_ok_def)
  then have d: "later c (addPeer env p ?c)" by (rule later_trans [OF c])
  then have "steps c (rbind (sendBitfield env p (addPeer env p ?c)) (\<lambda>c. Inr (peer_read p 4 OnLength c)))"
    by (intro steps_after [OF d] steps_then_read steps_sendBitfield later_ok [OF d])
  then show ?thesis
    using ok by (simp add: connect_handshake_def Let_def steps_Inr later_handleError)
qed

lemma steps_verify_handshake:
  assumes ok: "client_ok c"
  shows "steps c (verify_handshake env p h c)"
proof -
  let ?c = "upd_peer p (\<lambda>r. r\<lparr>pr_peerId := handshake_id h\<rparr>) c"
  let ?d = "write_bytes p (cl_handshake c) ?c"
  have c: "later c ?c" using ok by (rule later_peerId)
  have d: "later c ?d" by (rule later_trans [OF c later_write_bytes [OF later_ok [OF c]]])
  have e: "later ?d (if b then ?d\<lparr>cl_peers := x\<rparr> else ?d)" for b x
    using later_ok [OF d] by (simp add: later_refl)
  have "steps ?d (handleNewPeer env p ?d)"
    unfolding handleNewPeer_def Let_def by (rule steps_after [OF e steps_sendBitfield [OF later_ok [OF e]]])
  then have "steps c (rbind (handleNewPeer env p ?d) (\<lambda>c. Inr (peer_read p 4 OnLength c)))"
    by (intro steps_after [OF d] steps_then_read)
  then show ?thesis
    using ok by (simp add: verify_handshake_def Let_def steps_Inr later_handleError)
qed

lemma steps_handle:
  assumes ok: "client_ok c"
  shows "steps c (handle env p data c)"
proof (cases "length data = 4")
  case True
  then have "readBE32 (map Some data) 0 = Inr (word_at data 0)" by (simp add: readBE32_word_at)
  then show ?thesis using True ok by (simp add: handle_def steps_Inr later_read)
qed (use ok in \<open>simp add: handle_def steps_Inr later_handleError\<close>)

lemma steps_on_read:
  assumes "client_ok c" "p < cl_next c" "length data < 2 ^ 32" "cb = OnMessage \<longrightarrow> data \<noteq> []"
  shows "steps c (on_read env p cb data c)"
  using assms steps_connect_handshake steps_verify_handshake steps_handle steps_handle_body
  by (cases cb) (simp_all add: on_read_def)



text \<open>A client of the sample torrent with one peer.\<close>

definition sample_client :: client where
  "sample_client = \<lparr>cl_meta = sample_meta, cl_fileManager = sample_fm, cl_peers = [], cl_blacklisted = [],
     cl_uploadedBytes = 0, cl_downloadedBytes = 0, cl_wastedBytes = 0, cl_hashMisses = 0,
     cl_handshake = replicate 68 0, cl_peerId = replicate 20 0,
     cl_store = (\<lambda>_. \<lparr>pr_bitset = bitset_construct 2, pr_queue = [], pr_requestedBlocks = [], pr_peerId = [], pr_state = 5\<rparr>),
     cl_next = 1, cl_net = upd_conn 0 (\<lambda>k. k\<lparr>cn_open := True\<rparr>) net_start\<rparr>"

definition sample_env :: env where
  "sample_env = \<lparr>en_sha1 = (\<lambda>_. [7]), en_remote = (\<lambda>_. 1), en_stack = (\<lambda>_. 0xAA)\<rparr>"

lemma sample_client_ok: "client_ok sample_client"
proof -
  have "fm_wf sample_fm" "geometry sample_meta sample_fm" "length (fm_pieces sample_fm) = 2"
    using sample_inv sample_pieces(1) by (simp_all add: fm_inv_def)
  then show ?thesis
    by (simp add: client_ok_def fm_ok_def peer_ok_def sample_client_def)
      (simp add: sample_meta_def bitset_construct_def)
qed


end
