(* ===== verification/Swarm.thy ===== *)
theory Swarm
  imports Robust
begin

text \<open>
  src/ctorrent/torrent.cpp, lines 213 to 289 and 310 to 315: connecting to the peers a tracker reports, in
  the compact form (six bytes a peer) and as dictionaries, and leaving the swarm.
\<close>

section \<open>New peers\<close>

text \<open>\<open>std::make_shared<Peer>(this)\<close>, with its new \<open>Connection\<close>.\<close>

definition make_peer :: "client \<Rightarrow> nat \<times> client" where
  "make_peer c =
     (cl_next c,
      c\<lparr>cl_store := (cl_store c)(cl_next c := Peer c), cl_next := cl_next c + 1,
        cl_net := upd_conn (cl_next c) (\<lambda>_. Connection) (cl_net c)\<rparr>)"

text \<open>\<open>m_blacklisted\<close> is a set, kept as a list without repetitions.\<close>

definition add_blacklisted :: "u32 \<Rightarrow> client \<Rightarrow> client" where
  "add_blacklisted ip c = c\<lparr>cl_blacklisted := List.insert ip (cl_blacklisted c)\<rparr>"

definition knows :: "client \<Rightarrow> u32 \<Rightarrow> bool" where
  "knows c ip \<longleftrightarrow> ip \<in> set (cl_blacklisted c) \<or> map_find ip (cl_peers c) \<noteq> None"

section \<open>The compact form\<close>

definition raw_connect_one :: "mem \<Rightarrow> nat \<Rightarrow> client \<Rightarrow> client res" where
  "raw_connect_one peers i c =
     rbind (readLE32 peers i) (\<lambda>ip.
       if ip = 0 \<or> ip \<in> set (cl_blacklisted c) then Inr c
       else if map_find ip (cl_peers c) \<noteq> None then Inr c
       else
         let (p, c) = make_peer c in
         rbind (readBE16 peers (i + 4)) (\<lambda>port.
           Inr (add_blacklisted ip (peer_connect p (ip2str ip) (to_string (unat port)) c))))"

text \<open>\<open>for (size_t i = 0; i < size; i += 6)\<close>.\<close>

function raw_connect_loop :: "mem \<Rightarrow> nat \<Rightarrow> nat \<Rightarrow> client \<Rightarrow> client res" where
  "raw_connect_loop peers n i c =
     (if i < n then rbind (raw_connect_one peers i c) (raw_connect_loop peers n (i + 6)) else Inr c)"
  by auto
termination by (relation "measure (\<lambda>(_, n, i, _). n - i)") auto

declare raw_connect_loop.simps [simp del]

definition rawConnectPeers :: "mem \<Rightarrow> nat \<Rightarrow> client \<Rightarrow> client res" where
  "rawConnectPeers peers n c = raw_connect_loop peers n 0 c"

section \<open>The dictionary form\<close>

text \<open>\<open>boost::any_cast<T>\<close> throws when the dynamic type is not \<open>T\<close>.\<close>

definition any_string :: "any \<Rightarrow> string res" where
  "any_string a = (case a of AString s \<Rightarrow> Inr s | _ \<Rightarrow> Inl BadAnyCast)"

definition any_int64 :: "any \<Rightarrow> u64 res" where
  "any_int64 a = (case a of AInt64 i \<Rightarrow> Inr i | _ \<Rightarrow> Inl BadAnyCast)"

definition any_dictionary :: "any \<Rightarrow> dictionary res" where
  "any_dictionary a = (case a of ADict d \<Rightarrow> Inr d | _ \<Rightarrow> Inl BadAnyCast)"

definition rawConnectPeer :: "dictionary \<Rightarrow> client \<Rightarrow> client res" where
  "rawConnectPeer peerInfo c =
     rbind (any_string (dict_at peerInfo ''peer id'')) (\<lambda>peerId.
     rbind (any_string (dict_at peerInfo ''ip'')) (\<lambda>ip.
     rbind (any_int64 (dict_at peerInfo ''port'')) (\<lambda>port.
     rbind (str2ip ip) (\<lambda>strip.
       if knows c strip then Inr c
       else
         let (p, c) = make_peer c;
             c = upd_peer p (\<lambda>r. r\<lparr>pr_peerId := peerId\<rparr>) c
         in Inr (add_blacklisted strip (peer_connect p ip (to_string_int (sint port)) c))))))"

text \<open>The loops over a dictionary or a list of peers; an exception ends them, and what was done before it
  stays done.\<close>

fun connect_infos :: "any list \<Rightarrow> client \<Rightarrow> client res" where
  "connect_infos [] c = Inr c"
| "connect_infos (v # vs) c =
     (case rbind (any_dictionary v) (\<lambda>peerInfo. rawConnectPeer peerInfo c) of
        Inl e \<Rightarrow> if e = BadAnyCast then Inr c else Inl e
      | Inr c \<Rightarrow> connect_infos vs c)"

definition connectToPeers :: "any \<Rightarrow> client \<Rightarrow> client res" where
  "connectToPeers peers c =
     rbind (isFinished c) (\<lambda>fin.
       if fin then Inr c
       else case peers of
           AString s \<Rightarrow> rawConnectPeers (map (Some \<circ> byte_of_char) s @ [Some 0]) (length s) c
         | ADict d \<Rightarrow> connect_infos (map snd d) c
         | AVec vs \<Rightarrow> connect_infos vs c
         | _ \<Rightarrow> Inr c)"

definition disconnectPeers :: "client \<Rightarrow> client" where
  "disconnectPeers c = (fold (\<lambda>(_, p). disconnect p) (cl_peers c) c)\<lparr>cl_peers := []\<rparr>"

section \<open>Lemmas\<close>

lemma make_peer_sel [simp]:
  "fst (make_peer c) = cl_next c" "cl_meta (snd (make_peer c)) = cl_meta c"
  "cl_fileManager (snd (make_peer c)) = cl_fileManager c" "cl_peers (snd (make_peer c)) = cl_peers c"
  "cl_blacklisted (snd (make_peer c)) = cl_blacklisted c" "cl_next (snd (make_peer c)) = Suc (cl_next c)"
  by (simp_all add: make_peer_def)

lemma add_blacklisted_sel [simp]:
  "cl_meta (add_blacklisted ip c) = cl_meta c" "cl_fileManager (add_blacklisted ip c) = cl_fileManager c"
  "cl_peers (add_blacklisted ip c) = cl_peers c" "cl_next (add_blacklisted ip c) = cl_next c"
  "cl_store (add_blacklisted ip c) = cl_store c" "cl_net (add_blacklisted ip c) = cl_net c"
  "set (cl_blacklisted (add_blacklisted ip c)) = insert ip (set (cl_blacklisted c))"
  by (simp_all add: add_blacklisted_def)

lemma peer_connect_sel [simp]:
  "cl_meta (peer_connect p h q c) = cl_meta c" "cl_fileManager (peer_connect p h q c) = cl_fileManager c"
  "cl_peers (peer_connect p h q c) = cl_peers c" "cl_next (peer_connect p h q c) = cl_next c"
  "cl_store (peer_connect p h q c) = cl_store c" "cl_blacklisted (peer_connect p h q c) = cl_blacklisted c"
  by (simp_all add: peer_connect_def)

lemma peer_connect_conns:
  "nt_conns (cl_net (peer_connect p h q c)) r =
    (let k = nt_conns (cl_net c) r in if r = p then k\<lparr>cn_eh := Some (), cn_connectTimer := timer_cancel (cn_connectTimer k),
       cn_cb := Some (), cn_resolving := cn_resolving k @ [(h, q)]\<rparr> else k)"
  by (simp add: peer_connect_def conn_connect_def setErrorCallback_def Let_def)

text \<open>One more peer, asked to connect.\<close>

definition dialled :: "string \<Rightarrow> string \<Rightarrow> u32 \<Rightarrow> client \<Rightarrow> client" where
  "dialled host port ip c = add_blacklisted ip (peer_connect (cl_next c) host port (snd (make_peer c)))"

lemma dialled_sel [simp]:
  "cl_meta (dialled h q ip c) = cl_meta c" "cl_fileManager (dialled h q ip c) = cl_fileManager c"
  "cl_peers (dialled h q ip c) = cl_peers c" "cl_next (dialled h q ip c) = Suc (cl_next c)"
  "set (cl_blacklisted (dialled h q ip c)) = insert ip (set (cl_blacklisted c))"
  by (simp_all add: dialled_def)

lemma dialled_conns:
  "nt_conns (cl_net (dialled h q ip c)) r =
    (if r = cl_next c then Connection\<lparr>cn_eh := Some (), cn_cb := Some (), cn_resolving := [(h, q)]\<rparr>
     else nt_conns (cl_net c) r)"
  by (auto simp: dialled_def peer_connect_conns make_peer_def Let_def Connection_def timer_cancel_def)

lemma Peer_ok:
  assumes "fm_ok (cl_meta c) (cl_fileManager c)"
  shows "peer_ok (pieces c) (Peer c)"
proof -
  have "bs_size (bitset_construct n) = n" for n by (simp add: bitset_construct_def Let_def)
  then show ?thesis using assms by (simp add: Peer_def peer_ok_def fm_ok_def fm_wf_def total_pieces_def)
qed

lemma dialled_ok:
  assumes "client_ok c"
  shows "client_ok (dialled h q ip c)"
  using assms Peer_ok [of c]
  by (auto simp: client_ok_def dialled_def make_peer_def less_Suc_eq)


section \<open>The peers of a compact list\<close>

text \<open>The entries for addresses that are not in \<open>seen\<close>, each address once.\<close>

fun new_entries :: "u32 set \<Rightarrow> (u32 \<times> u16) list \<Rightarrow> (u32 \<times> u16) list" where
  "new_entries seen [] = []"
| "new_entries seen ((ip, port) # es) =
     (if ip \<in> seen then new_entries seen es else (ip, port) # new_entries (insert ip seen) es)"

definition known :: "client \<Rightarrow> u32 set" where
  "known c = insert 0 (set (cl_blacklisted c) \<union> fst ` set (cl_peers c))"

definition compact_bytes :: "(u32 \<times> u16) list \<Rightarrow> u8 list" where
  "compact_bytes es = concat (map (\<lambda>(ip, port). le32 ip @ be16 port) es)"

fun dial_all :: "(u32 \<times> u16) list \<Rightarrow> client \<Rightarrow> client" where
  "dial_all [] c = c"
| "dial_all ((ip, port) # es) c = dial_all es (dialled (ip2str ip) (to_string (unat port)) ip c)"

lemma distinct_new_entries: "distinct (map fst (new_entries seen es)) \<and> fst ` set (new_entries seen es) = fst ` set es - seen"
  by (induction seen es rule: new_entries.induct) auto

lemma dial_all_sel [simp]:
  "cl_meta (dial_all es c) = cl_meta c" "cl_fileManager (dial_all es c) = cl_fileManager c"
  "cl_peers (dial_all es c) = cl_peers c" "cl_next (dial_all es c) = cl_next c + length es"
  "set (cl_blacklisted (dial_all es c)) = fst ` set es \<union> set (cl_blacklisted c)"
  by (induction es c rule: dial_all.induct) auto

lemma dial_all_ok: "client_ok c \<Longrightarrow> client_ok (dial_all es c)"
  by (induction es c rule: dial_all.induct) (simp_all add: dialled_ok)

lemma dial_all_old: "r < cl_next c \<Longrightarrow> nt_conns (cl_net (dial_all es c)) r = nt_conns (cl_net c) r"
  by (induction es c rule: dial_all.induct) (simp_all add: dialled_conns)

lemma dial_all_conns:
  "k < length es \<Longrightarrow> cn_resolving (nt_conns (cl_net (dial_all es c)) (cl_next c + k)) =
    [(ip2str (fst (es ! k)), to_string (unat (snd (es ! k))))]"
proof (induction es c arbitrary: k rule: dial_all.induct)
  case (2 ip port es c)
  show ?case
  proof (cases k)
    case 0
    then show ?thesis by (simp add: dial_all_old dialled_conns)
  next
    case (Suc j)
    then show ?thesis using "2.IH" [of j] "2.prems" by simp
  qed
qed simp

lemma known_dialled: "known (dialled h q ip c) = insert ip (known c)"
  by (auto simp: known_def)

lemma raw_connect_entry:
  assumes "length xs = i"
  shows "raw_connect_one (xs @ map Some (le32 ip @ be16 port) @ ys) i c =
    Inr (if ip \<in> known c then c else dialled (ip2str ip) (to_string (unat port)) ip c)"
proof -
  let ?peers = "xs @ map Some (le32 ip @ be16 port) @ ys"
  have ip: "readLE32 ?peers i = Inr ip" by (rule LE32.get_at) (simp add: assms [symmetric])
  have port: "readBE16 ?peers (i + 4) = Inr port" by (rule BE16.get_at) (simp add: assms [symmetric])
  have "map_find ip (cl_peers c) \<noteq> None \<longleftrightarrow> ip \<in> fst ` set (cl_peers c)"
    by (simp add: map_find_def map_of_eq_None_iff)
  then show ?thesis
    using ip port by (auto simp: raw_connect_one_def known_def dialled_def split_beta)
qed

lemma length_compact [simp]: "length (compact_bytes es) = 6 * length es"
  by (induction es) (auto simp: compact_bytes_def)

lemma raw_connect_entries:
  "length xs = i \<Longrightarrow> i + 6 * length es \<le> n \<Longrightarrow> raw_connect_loop (xs @ map Some (compact_bytes es) @ ys) n i c =
    raw_connect_loop (xs @ map Some (compact_bytes es) @ ys) n (i + 6 * length es) (dial_all (new_entries (known c) es) c)"
proof (induction es arbitrary: xs i c)
  case (Cons e es)
  obtain ip port where e: "e = (ip, port)" by (cases e)
  let ?c = "if ip \<in> known c then c else dialled (ip2str ip) (to_string (unat port)) ip c"
  let ?xs = "xs @ map Some (le32 ip @ be16 port)"
  let ?m = "xs @ map Some (compact_bytes (e # es)) @ ys"
  have m: "?m = xs @ map Some (le32 ip @ be16 port) @ map Some (compact_bytes es) @ ys"
    by (simp add: compact_bytes_def e)
  have "raw_connect_loop ?m n i c = raw_connect_loop ?m n (i + 6) ?c"
    using raw_connect_entry [of xs i ip port "map Some (compact_bytes es) @ ys" c] Cons.prems
    by (subst raw_connect_loop.simps) (simp only: m, simp)
  also have "\<dots> = raw_connect_loop ?m n (i + 6 + 6 * length es) (dial_all (new_entries (known ?c) es) ?c)"
    using Cons.IH [of ?xs "i + 6" ?c] Cons.prems by (simp add: m)
  finally show ?case by (auto simp: e known_dialled add.assoc)
qed simp

lemma rawConnectPeers_compact:
  "rawConnectPeers (map Some (compact_bytes es) @ ys) (6 * length es) c = Inr (dial_all (new_entries (known c) es) c)"
  using raw_connect_entries [of "[]" 0 es "6 * length es" ys c]
  by (simp add: rawConnectPeers_def raw_connect_loop.simps)

lemma byte_of_char_of_byte [simp]: "byte_of_char (char_of_byte b) = b"
proof -
  have "of_char (char_of (unat b) :: char) = (of_nat (unat b mod 256) :: u8)"
    by (metis of_char_of of_nat_of_char)
  moreover have "unat b mod 256 = unat b" using unsigned_less [of b, where ?'a = nat] by simp
  ultimately show ?thesis by (simp add: byte_of_char_def char_of_byte_def)
qed

text \<open>
  Property C18. The compact list of peers: if the download is not finished, the client makes one connection,
  to the address and port of the entry, for every address of the list that is not zero, not connected and
  not being connected to already; an address that occurs twice is dialled once, at the port given first;
  all of them are put on the black list until they answer.
\<close>

theorem compact_peers_are_dialled_once:
  fixes es :: "(u32 \<times> u16) list"
  assumes "client_ok c" "isFinished c = Inr False"
  defines "dial \<equiv> new_entries (known c) es"
  shows "\<exists>c'. connectToPeers (AString (map char_of_byte (compact_bytes es))) c = Inr c' \<and> client_ok c' \<and>
    cl_peers c' = cl_peers c \<and> cl_next c' = cl_next c + length dial \<and>
    set (cl_blacklisted c') = fst ` set dial \<union> set (cl_blacklisted c) \<and>
    (\<forall>k < length dial. cn_resolving (nt_conns (cl_net c') (cl_next c + k)) =
      [(ip2str (fst (dial ! k)), to_string (unat (snd (dial ! k))))]) \<and>
    distinct (map fst dial) \<and> fst ` set dial = fst ` set es - known c"
proof -
  have "connectToPeers (AString (map char_of_byte (compact_bytes es))) c = Inr (dial_all dial c)"
    using assms(2) rawConnectPeers_compact [of es "[Some 0]" c]
    by (simp add: connectToPeers_def dial_def comp_def)
  then show ?thesis
    using dial_all_ok [OF assms(1), of dial] dial_all_conns [of _ dial c] distinct_new_entries [of "known c" es]
    by (simp add: dial_def)
qed

text \<open>
  The compact list is read to the end of its last entry even if that is not all there: if one or
  two bytes follow the complete entries, the address of the last peer is read outside of the string.
\<close>

theorem ragged_peers_are_overread:
  assumes "isFinished c = Inr False" "rest \<noteq> []" "length rest \<le> 2"
  shows "connectToPeers (AString (map char_of_byte (compact_bytes es @ rest))) c = Inl OutOfBounds"
proof -
  let ?m = "[] @ map Some (compact_bytes es) @ map Some rest @ [Some 0]"
  let ?n = "6 * length es + length rest" and ?d = "dial_all (new_entries (known c) es) c"
  have "raw_connect_loop ?m ?n 0 c = raw_connect_loop ?m ?n (0 + 6 * length es) ?d"
    by (rule raw_connect_entries) simp_all
  also have "readLE32 ?m (0 + 6 * length es) = Inl OutOfBounds"
    using assms(3) by (intro LE32.get_out) simp
  then have "raw_connect_loop ?m ?n (0 + 6 * length es) ?d = Inl OutOfBounds"
    using assms(2) by (subst raw_connect_loop.simps) (simp add: raw_connect_one_def)
  finally show ?thesis
    using assms(1) by (simp add: connectToPeers_def rawConnectPeers_def comp_def)
qed

section \<open>Peers as dictionaries\<close>

text \<open>The decoder never makes a signed integer.\<close>

fun unsigned_only :: "any \<Rightarrow> bool" where
  "unsigned_only (AInt64 i) = False"
| "unsigned_only (ADict d) = list_all (\<lambda>(k, v). unsigned_only v) d"
| "unsigned_only (AVec vs) = list_all unsigned_only vs"
| "unsigned_only _ = True"

abbreviation unsigned_entries :: "dictionary \<Rightarrow> bool" where
  "unsigned_entries d \<equiv> list_all (\<lambda>(k, v). unsigned_only v) d"

lemma unsigned_map_put: "unsigned_entries d \<Longrightarrow> unsigned_only v \<Longrightarrow> unsigned_entries (map_put k v d)"
  by (induction k v d rule: map_put.induct) auto

lemma unsigned_dict_item:
  assumes "dict_item V D b byte p = Inr (v, p')"
    and "\<And>vs q. V p = Inr (vs, q) \<Longrightarrow> list_all unsigned_only vs"
    and "\<And>d q. D p = Inr (d, q) \<Longrightarrow> unsigned_entries d"
  shows "unsigned_only v"
  using assms by (auto simp: dict_item_def elim!: rbindE split: if_splits)

lemma readers_unsigned:
  "(readVector n b vs pos = Inr (ws, p) \<longrightarrow> list_all unsigned_only vs \<longrightarrow> list_all unsigned_only ws) \<and>
   (readDictionary n b d pos = Inr (e, q) \<longrightarrow> unsigned_entries d \<longrightarrow> unsigned_entries e)"
proof (induction n arbitrary: vs d pos ws p e q)
  case (Suc n)
  have V: "readVector n b us r = Inr (ws, p) \<Longrightarrow> list_all unsigned_only us \<Longrightarrow> list_all unsigned_only ws" for us ws p r
    using Suc.IH by blast
  have D: "readDictionary n b us r = Inr (ws, p) \<Longrightarrow> unsigned_entries us \<Longrightarrow> unsigned_entries ws" for us ws p r
    using Suc.IH by blast
  have vec: "list_all unsigned_only ws" if "readVector (Suc n) b vs pos = Inr (ws, p)" "list_all unsigned_only vs"
  proof -
    have app: "readVector n b (us @ [x]) r = Inr (ws, p) \<Longrightarrow> list_all unsigned_only us \<Longrightarrow> unsigned_only x \<Longrightarrow>
      list_all unsigned_only ws" for us x r
      using V [of "us @ [x]"] by simp
    show ?thesis
      using that by (auto elim!: rbindE split: option.splits if_splits elim!: app dest!: V [of "[]"] D [of "[]"])
  qed
  have dict: "unsigned_entries e" if r: "readDictionary (Suc n) b d pos = Inr (e, q)" and d: "unsigned_entries d"
  proof -
    have "unsigned_entries f" if "dict_next (readDictionary n b) b (map_put k v d) r = Inr (f, s)"
      "dict_item (readVector n b []) (readDictionary n b []) b byte r' = Inr (v, r)" for k v byte r r' f s
    proof -
      have "unsigned_only v" by (rule unsigned_dict_item [OF that(2)]) (auto dest: V D)
      then show ?thesis
        using that(1) D unsigned_map_put [OF d] by (auto simp: dict_next_def elim!: rbindE split: option.splits if_splits)
    qed
    then show ?thesis
      using r unfolding readDictionary_unfold by (auto elim!: rbindE split: option.splits if_splits)
  qed
  from vec dict show ?case by blast
qed simp


lemma decode_unsigned:
  assumes "decode bc data n = Inr (d, bc')"
  shows "unsigned_entries d"
proof -
  have D: "readDictionary m b [] p = Inr (d, q) \<Longrightarrow> unsigned_entries d" for m b p q
    using readers_unsigned [THEN conjunct2, THEN mp, THEN mp] by fastforce
  show ?thesis
    using assms by (auto simp: decode_def elim!: rbindE split: if_splits dest: D simp del: readDictionary.simps)
qed

lemma dict_at_unsigned: "unsigned_entries d \<Longrightarrow> unsigned_only (dict_at d k)"
  by (auto simp: dict_at_def map_find_def list_all_iff split: option.splits dest!: map_of_SomeD)

lemma rawConnectPeer_unsigned:
  assumes "unsigned_entries d"
  shows "rawConnectPeer d c = Inl BadAnyCast"
proof -
  have "any_int64 (dict_at d ''port'') = Inl BadAnyCast"
    using dict_at_unsigned [OF assms, of "''port''"] by (cases "dict_at d ''port''") (simp_all add: any_int64_def)
  then show ?thesis
    by (simp add: rawConnectPeer_def any_string_def split: any.split)
qed

lemma connect_infos_unsigned: "list_all unsigned_only vs \<Longrightarrow> connect_infos vs c = Inr c"
  by (cases vs) (auto simp: any_dictionary_def rawConnectPeer_unsigned split: any.split)

text \<open>
  The other form never connects anybody: the decoder makes every integer unsigned and
  \<open>rawConnectPeer\<close> insists on a signed port, so the first peer of a decoded list or dictionary throws, the
  exception is logged, and the client is as before.
\<close>

theorem dictionary_peers_are_never_dialled:
  assumes "decode bc data n = Inr (d, bc')" "isFinished c = Inr fin"
    and "dict_at d ''peers'' = AVec vs \<or> dict_at d ''peers'' = ADict ps"
  shows "connectToPeers (dict_at d ''peers'') c = Inr c"
proof -
  have "unsigned_only (dict_at d ''peers'')" using decode_unsigned [OF assms(1)] by (rule dict_at_unsigned)
  then show ?thesis
    using assms(2,3)
    by (auto simp: connectToPeers_def list_all_iff split_beta intro!: connect_infos_unsigned)
qed


text \<open>A tracker's answer with one peer as a dictionary.\<close>

definition listed_peer :: dictionary where
  "listed_peer = [(''peers'', AVec [ADict [(''ip'', AString ''1.2.3.4''), (''peer id'', AString ''x''), (''port'', AInt64 9)]])]"

lemma dictionary_peers_are_never_dialled_witness:
  "\<exists>d bc'. decode Bencode (map Some (benc (ADict listed_peer))) (length (benc (ADict listed_peer))) = Inr (d, bc') \<and>
    (\<exists>peer. dict_at d ''peers'' = AVec [peer]) \<and> connectToPeers (dict_at d ''peers'') sample_client = Inr sample_client"
proof -
  have "length (benc (ADict listed_peer)) < 100" by code_simp
  moreover have "encodable (ADict listed_peer)" by (simp add: listed_peer_def map_ordered_def)
  ultimately obtain bc where d: "decode Bencode (map Some (benc (ADict listed_peer))) (length (benc (ADict listed_peer)))
      = Inr (norm_entries listed_peer, bc)"
    using decode_benc [of listed_peer "[]" Bencode] by (auto simp: Bencode_def)
  have p: "dict_at (norm_entries listed_peer) ''peers'' =
      AVec [ADict [(''ip'', AString ''1.2.3.4''), (''peer id'', AString ''x''), (''port'', AUint64 9)]]"
    by (simp add: listed_peer_def dict_at_def map_find_def)
  obtain fin where fin: "isFinished sample_client = Inr fin"
    using isFinished_ok [OF sample_client_ok] by (auto simp: succeeds_iff)
  show ?thesis
    using d p dictionary_peers_are_never_dialled [OF d fin disjI1 [OF p]] by blast
qed

lemma sample_client_unfinished: "isFinished sample_client = Inr False"
  by (simp add: sample_client_def isFinished_def) code_simp

lemma compact_peers_are_dialled_once_witness:
  "\<exists>c'. connectToPeers (AString (map char_of_byte (compact_bytes [(1, 80), (2, 81), (1, 82)]))) sample_client = Inr c' \<and>
    cl_next c' = 3 \<and> cn_resolving (nt_conns (cl_net c') 2) = [(ip2str 2, ''81'')]"
proof -
  let ?es = "[(1, 80), (2, 81), (1, 82)] :: (u32 \<times> u16) list"
  have new: "new_entries (known sample_client) ?es = [(1, 80), (2, 81)]" "cl_next sample_client = 1"
    by (simp_all add: known_def sample_client_def)
  obtain c' where c': "connectToPeers (AString (map char_of_byte (compact_bytes ?es))) sample_client = Inr c'"
    "cl_next c' = 3" "cn_resolving (nt_conns (cl_net c') (1 + 1)) = [(ip2str 2, to_string (unat (81 :: u16)))]"
    using compact_peers_are_dialled_once [OF sample_client_ok sample_client_unfinished, of ?es] unfolding new
    by (auto simp: numeral_2_eq_2)
  have "to_string 81 = ''81''" "unat (81 :: u16) = 81" "(1 :: nat) + 1 = 2" by code_simp+
  then have "cn_resolving (nt_conns (cl_net c') 2) = [(ip2str 2, ''81'')]"
    using c'(3) by (simp only:)
  with c'(1,2) show ?thesis by blast
qed

lemma ragged_peers_are_overread_witness:
  "connectToPeers (AString (map char_of_byte (compact_bytes [(1, 80)] @ [9]))) sample_client = Inl OutOfBounds"
  by (rule ragged_peers_are_overread [OF sample_client_unfinished]) simp_all

end
