(* ===== verification/Tracker.thy ===== *)
theory Tracker
  imports Swarm
begin

text \<open>
  src/ctorrent/tracker.{h,cpp}: announcing to a tracker by HTTP and by UDP. The network is a parameter: what
  resolving, connecting and sending report, and the bytes and packets that come back as functions of those
  that were sent. Times are milliseconds since the epoch; \<open>now\<close> is the clock.
\<close>

section \<open>State\<close>

datatype tracker_event = EvNone | EvCompleted | EvStarted | EvStopped

fun event_code :: "tracker_event \<Rightarrow> u32" where
  "event_code EvNone = 0"
| "event_code EvCompleted = 1"
| "event_code EvStarted = 2"
| "event_code EvStopped = 3"

record tracker_query =
  tq_event :: tracker_event
  tq_downloaded :: nat
  tq_uploaded :: nat
  tq_remaining :: nat

datatype tracker_type = TrackerHTTP | TrackerUDP

record tracker =
  tk_timeToNextRequest :: nat
  tk_type :: tracker_type
  tk_tport :: u16
  tk_host :: string
  tk_port :: string

definition Tracker :: "string \<Rightarrow> string \<Rightarrow> string \<Rightarrow> u16 \<Rightarrow> tracker" where
  "Tracker host port proto tport =
     \<lparr>tk_timeToNextRequest = 0, tk_type = (if proto = ''http'' then TrackerHTTP else TrackerUDP),
      tk_tport = tport, tk_host = host, tk_port = port\<rparr>"

definition timeUp :: "nat \<Rightarrow> tracker \<Rightarrow> bool" where
  "timeUp now t \<longleftrightarrow> now \<ge> tk_timeToNextRequest t"

text \<open>The network. The \<open>bool\<close>s say whether the call succeeded; a TCP answer is the list of pieces in which
  it arrives until the server closes the connection; an empty datagram is one that did not arrive.\<close>

record network =
  nw_resolve :: "string \<Rightarrow> string \<Rightarrow> bool"
  nw_connect :: "string \<Rightarrow> string \<Rightarrow> bool"
  nw_answer :: "string \<Rightarrow> string list"
  nw_tx :: u32
  nw_send :: "u8 list \<Rightarrow> bool"
  nw_first :: "u8 list \<Rightarrow> nat \<Rightarrow> u8 list"
  nw_second :: "u8 list \<Rightarrow> nat \<Rightarrow> u8 list"

section \<open>HTTP\<close>

abbreviation crlf :: string where
  "crlf \<equiv> [CHR 0x0D, CHR 0x0A]"

definition event_text :: "tracker_event \<Rightarrow> string" where
  "event_text e =
     (case e of EvNone \<Rightarrow> '''' | EvCompleted \<Rightarrow> ''event=completed&'' | EvStopped \<Rightarrow> ''event=stopped&''
      | EvStarted \<Rightarrow> ''event=started&'')"

definition http_request :: "tracker \<Rightarrow> u8 list \<Rightarrow> u8 list \<Rightarrow> tracker_query \<Rightarrow> string" where
  "http_request t handshake peerId r =
     ''GET /announce?'' @ event_text (tq_event r) @ ''info_hash='' @
     urlencode (map char_of_byte (take 20 (drop 28 handshake))) @ ''&port='' @ to_string (unat (tk_tport t)) @
     ''&compact=1&key=1337T0RRENT'' @ ''&peer_id='' @ urlencode (map char_of_byte peerId) @
     ''&downloaded='' @ to_string (tq_downloaded r) @ ''&uploaded='' @ to_string (tq_uploaded r) @
     ''&left='' @ to_string (tq_remaining r) @ '' HTTP/1.0'' @ crlf @ ''Host: '' @ tk_host t @ crlf @ crlf"

text \<open>\<open>asio::read_until\<close>: reads until the buffer contains the delimiter, and throws at the end of the
  stream. What is left in the buffer may go beyond the delimiter.\<close>

fun read_until :: "string \<Rightarrow> string \<Rightarrow> string list \<Rightarrow> (string \<times> string list) option" where
  "read_until delim buf [] = (if search delim buf \<noteq> None then Some (buf, []) else None)"
| "read_until delim buf (c # cs) =
     (if search delim buf \<noteq> None then Some (buf, c # cs) else read_until delim (buf @ c) cs)"

text \<open>\<open>rbuf >> word\<close>, and \<open>rbuf >> status\<close> for an uninitialised \<open>int\<close>: skipping white space to the end of
  the buffer leaves it unassigned.\<close>

definition read_word :: "string \<Rightarrow> string \<times> string" where
  "read_word s = (let s = dropWhile is_space s in (takeWhile (\<lambda>c. \<not> is_space c) s, dropWhile (\<lambda>c. \<not> is_space c) s))"

definition read_status :: "string \<Rightarrow> (int \<times> string) res" where
  "read_status s =
     (let s = dropWhile is_space s in
      if s = [] then Inl Uninitialised
      else
        let (neg, ds) = split_sign s; n = int (of_digits (takeWhile is_digit ds)) in
        Inr (if neg then max (- (2 ^ 31)) (- n) else min (2 ^ 31 - 1) n, dropWhile is_digit ds))"

lemma shorter_tl: "dropWhile P s \<noteq> [] \<Longrightarrow> length (tl (dropWhile P s)) < length s"
  using length_dropWhile_le [of P s] by (cases "dropWhile P s") auto

text \<open>\<open>while (std::getline(rbuf, header) && header != "\r")\<close>: the text behind the empty line, if the stream
  is still good.\<close>

function skip_headers :: "string \<Rightarrow> string option" where
  "skip_headers s =
     (if s = [] then None
      else
        let header = takeWhile (\<lambda>c. c \<noteq> CHR 0x0A) s; rest = dropWhile (\<lambda>c. c \<noteq> CHR 0x0A) s in
        if header = [CHR 0x0D] then Some (tl rest)
        else if rest = [] then None
        else skip_headers (tl rest))"
  by auto
termination by (relation "measure length") (simp_all only: wf_measure in_measure shorter_tl not_False_eq_True)

declare skip_headers.simps [simp del]

text \<open>The body, as the C string that \<open>decode\<close> gets.\<close>

definition announce_response :: "nat \<Rightarrow> string \<Rightarrow> tracker \<Rightarrow> client \<Rightarrow> (bool \<times> tracker \<times> client) res" where
  "announce_response now body t c =
     rbind (decode Bencode (map Some body @ [Some (CHR 0x00)]) (length body)) (\<lambda>(dict, _).
       if dict = [] then Inr (False, t, c)
       else if map_count ''failure reason'' dict then Inr (False, t, c)
       else
         let t = t\<lparr>tk_timeToNextRequest := now + 1000 * unat (cast_uint64 (dict_at dict ''interval''))\<rparr> in
         rbind (connectToPeers (dict_at dict ''peers'') c) (\<lambda>c. Inr (True, t, c)))"

definition http_response ::
  "nat \<Rightarrow> string list \<Rightarrow> tracker \<Rightarrow> client \<Rightarrow> (bool \<times> tracker \<times> client) res" where
  "http_response now answer t c =
     (case read_until crlf [] answer of
        None \<Rightarrow> Inr (False, t, c)
      | Some (response, answer) \<Rightarrow>
          let (httpVersion, response) = read_word response in
          if take 5 httpVersion \<noteq> ''HTTP/'' then Inr (False, t, c)
          else rbind (read_status response) (\<lambda>(status, response).
            if status \<noteq> 200 then Inr (False, t, c)
            else case read_until (crlf @ crlf) response answer of
                None \<Rightarrow> Inr (False, t, c)
              | Some (buf, _) \<Rightarrow>
                  (case (if response = [] then None else skip_headers buf) of
                     None \<Rightarrow> Inr (False, t, c)
                   | Some body \<Rightarrow> announce_response now body t c)))"

definition httpRequest ::
  "network \<Rightarrow> nat \<Rightarrow> tracker_query \<Rightarrow> tracker \<Rightarrow> client \<Rightarrow> (bool \<times> tracker \<times> client) res" where
  "httpRequest nw now r t c =
     (if \<not> nw_resolve nw (tk_host t) (tk_port t) then Inr (False, t, c)
      else if \<not> nw_connect nw (tk_host t) (tk_port t) then Inr (False, t, c)
      else http_response now (nw_answer nw (http_request t (cl_handshake c) (cl_peerId c) r)) t c)"

section \<open>UDP\<close>

definition connect_packet :: "u32 \<Rightarrow> mem res" where
  "connect_packet tx =
     rbind (writeBE64 (replicate 16 None) 0 0x41727101980) (\<lambda>buf.
     rbind (writeBE32 buf 8 0) (\<lambda>buf.
       writeBE32 buf 12 tx))"

definition announce_packet ::
  "u64 \<Rightarrow> u32 \<Rightarrow> u8 list \<Rightarrow> u8 list \<Rightarrow> tracker_query \<Rightarrow> u16 \<Rightarrow> mem res" where
  "announce_packet cid tx handshake peerId r tport =
     rbind (writeBE64 (replicate 98 None) 0 cid) (\<lambda>re.
     rbind (writeBE32 re 8 1) (\<lambda>re.
     rbind (writeBE32 re 12 tx) (\<lambda>re.
     rbind (blit re 16 (map Some (take 20 (drop 28 handshake)))) (\<lambda>re.
     rbind (blit re 36 (map Some (take 20 peerId))) (\<lambda>re.
     rbind (writeBE64 re 56 (of_nat (tq_downloaded r))) (\<lambda>re.
     rbind (writeBE64 re 64 (of_nat (tq_remaining r))) (\<lambda>re.
     rbind (writeBE64 re 72 (of_nat (tq_uploaded r))) (\<lambda>re.
     rbind (writeBE32 re 80 (event_code (tq_event r))) (\<lambda>re.
     rbind (writeBE32 re 84 0) (\<lambda>re.
     rbind (writeBE32 re 88 0) (\<lambda>re.
     rbind (writeBE32 re 92 (- 1)) (\<lambda>re.
       writeBE16 re 96 tport))))))))))))"

text \<open>The receive loops. A datagram longer than the buffer is cut off.\<close>

fun receive_connect :: "(nat \<Rightarrow> u8 list) \<Rightarrow> nat \<Rightarrow> nat \<Rightarrow> mem \<Rightarrow> mem" where
  "receive_connect net tries 0 buf = buf"
| "receive_connect net tries (Suc k) buf =
     (let d = take 16 (net tries); buf = map Some d @ drop (length d) buf in
      if length d \<noteq> 16 then receive_connect net (tries + 1) k buf else buf)"

fun receive_announce :: "(nat \<Rightarrow> u8 list) \<Rightarrow> nat \<Rightarrow> nat \<Rightarrow> mem \<Rightarrow> nat \<Rightarrow> mem \<times> nat" where
  "receive_announce net tries 0 response len = (response, len)"
| "receive_announce net tries (Suc k) response len =
     (let d = take (length response - len) (net tries) in
      receive_announce net (tries + 1) k
        (take len response @ map Some d @ drop (len + length d) response) (len + length d))"

definition udp_announce_response ::
  "nat \<Rightarrow> u32 \<Rightarrow> mem \<Rightarrow> nat \<Rightarrow> tracker \<Rightarrow> client \<Rightarrow> (bool \<times> tracker \<times> client) res" where
  "udp_announce_response now tx response len t c =
     (if len < 20 then Inr (False, t, c)
      else rbind (readBE32 response 0) (\<lambda>action. if action \<noteq> 1 then Inr (False, t, c)
      else rbind (readBE32 response 4) (\<lambda>tx'. if tx' \<noteq> tx then Inr (False, t, c)
      else rbind (readBE32 response 8) (\<lambda>interval.
        rbind (rawConnectPeers (drop 20 response) (len - 20) c) (\<lambda>c.
          Inr (True, t\<lparr>tk_timeToNextRequest := now + 1000 * unat interval\<rparr>, c))))))"

definition udpRequest ::
  "network \<Rightarrow> nat \<Rightarrow> tracker_query \<Rightarrow> tracker \<Rightarrow> client \<Rightarrow> (bool \<times> tracker \<times> client) res" where
  "udpRequest nw now r t c =
     (if \<not> nw_resolve nw (tk_host t) (tk_port t) then Inr (False, t, c)
      else
       let tx = nw_tx nw in
       rbind (connect_packet tx) (\<lambda>buf.
       rbind (values_of buf) (\<lambda>packet.
         if \<not> nw_send nw packet then Inr (False, t, c)
         else
           let buf = receive_connect (nw_first nw packet) 0 10 buf in
           rbind (readBE32 buf 0) (\<lambda>action. if action \<noteq> 0 then Inr (False, t, c)
           else rbind (readBE32 buf 4) (\<lambda>tx'. if tx' \<noteq> tx then Inr (False, t, c)
           else rbind (readBE64 buf 8) (\<lambda>cid.
             rbind (announce_packet cid tx (cl_handshake c) (cl_peerId c) r (tk_tport t)) (\<lambda>re.
             rbind (values_of re) (\<lambda>packet.
               if \<not> nw_send nw packet then Inr (False, t, c)
               else
                 let (response, len) = receive_announce (nw_second nw packet) 0 15 (replicate 1500 None) 0 in
                 udp_announce_response now tx response len t c))))))))"

section \<open>Tracker::query\<close>

definition tracker_request ::
  "network \<Rightarrow> nat \<Rightarrow> tracker_query \<Rightarrow> tracker \<Rightarrow> client \<Rightarrow> (bool \<times> tracker \<times> client) res" where
  "tracker_request nw now req t c =
     rbind (if tk_type t = TrackerHTTP then httpRequest nw now req t c else udpRequest nw now req t c)
       (\<lambda>(ret, t, c). Inr (ret, if \<not> ret then t\<lparr>tk_timeToNextRequest := now + 100\<rparr> else t, c))"

section \<open>The packets\<close>

context byte_codec
begin

text \<open>Filling a fresh block from its start.\<close>

lemma put_next:
  assumes "length xs = p" "width \<le> k"
  shows "put (map Some xs @ replicate k None) p v = Inr (map Some (xs @ image v) @ replicate (k - width) None)"
proof -
  have "replicate k None = replicate width None @ replicate (k - width) (None :: u8 option)"
    using assms(2) by (simp flip: replicate_add)
  then show ?thesis
    using put_mid [of "map Some xs" p "replicate width None" "replicate (k - width) None" v] assms(1) by simp
qed

end

lemma blit_next:
  assumes "length xs = p" "length ys \<le> k"
  shows "blit (map Some xs @ replicate k None) p (map Some ys) = Inr (map Some (xs @ ys) @ replicate (k - length ys) None)"
  using assms by simp

lemma connect_packet_bytes: "connect_packet tx = Inr (map Some (be64 0x41727101980 @ be32 0 @ be32 tx))"
  using BE64.put_next [of "[]" 0 16 "0x41727101980"]
  by (simp add: connect_packet_def BE32.put_next del: map_append)

definition announce_bytes :: "u64 \<Rightarrow> u32 \<Rightarrow> u8 list \<Rightarrow> u8 list \<Rightarrow> tracker_query \<Rightarrow> u16 \<Rightarrow> u8 list" where
  "announce_bytes cid tx infoHash peerId r port =
     be64 cid @ be32 1 @ be32 tx @ infoHash @ peerId @ be64 (of_nat (tq_downloaded r)) @
     be64 (of_nat (tq_remaining r)) @ be64 (of_nat (tq_uploaded r)) @ be32 (event_code (tq_event r)) @
     be32 0 @ be32 0 @ be32 (- 1) @ be16 port"

lemma announce_packet_bytes:
  assumes "length handshake = 68" "length peerId = 20"
  shows "announce_packet cid tx handshake peerId r port =
    Inr (map Some (announce_bytes cid tx (take 20 (drop 28 handshake)) peerId r port))"
  using BE64.put_next [of "[]" 0 98 cid] assms
  by (simp add: announce_packet_def BE32.put_next BE64.put_next BE16.put_next blit_next announce_bytes_def
      del: map_append blit_in)

section \<open>The receive loops\<close>

lemma receive_connect_reply:
  "length d = 16 \<Longrightarrow> length buf = 16 \<Longrightarrow> j < k \<Longrightarrow> (\<forall>i < j. net (t + i) = []) \<Longrightarrow> net (t + j) = d \<Longrightarrow>
    receive_connect net t k buf = map Some d"
proof (induction k arbitrary: t j)
  case (Suc k)
  show ?case
  proof (cases j)
    case 0
    then show ?thesis using Suc.prems by simp
  next
    case (Suc i)
    have "net t = []" using Suc.prems(4) Suc by (metis add_0_right zero_less_Suc)
    moreover have "\<forall>l < i. net (t + 1 + l) = []"
    proof (intro allI impI)
      fix l
      assume "l < i"
      then show "net (t + 1 + l) = []" using Suc.prems(4) [rule_format, of "Suc l"] Suc by simp
    qed
    ultimately show ?thesis using Suc.IH [of i "t + 1"] Suc.prems Suc by simp
  qed
qed simp

lemma receive_connect_silent: "(\<forall>i. net i = []) \<Longrightarrow> receive_connect net t k buf = buf"
  by (induction k arbitrary: t) simp_all

lemma receive_announce_bytes:
  "receive_announce net t k (map Some xs @ replicate m None) (length xs) =
    (let ys = take m (concat (map net [t..<t + k])) in
     (map Some (xs @ ys) @ replicate (m - length ys) None, length xs + length ys))"
proof (induction k arbitrary: t xs m)
  case (Suc k)
  let ?d = "take m (net t)" and ?tl = "concat (map net [t + 1..<t + 1 + k])"
  have "drop (length ?d) (replicate m None) = replicate (m - length ?d) None" by simp
  then have "receive_announce net t (Suc k) (map Some xs @ replicate m None) (length xs) =
      receive_announce net (t + 1) k (map Some (xs @ ?d) @ replicate (m - length ?d) None) (length (xs @ ?d))"
    by (simp add: Let_def)
  also have "\<dots> = (let ys = take (m - length ?d) ?tl in (map Some ((xs @ ?d) @ ys) @
      replicate (m - length ?d - length ys) None, length (xs @ ?d) + length ys))"
    by (rule Suc.IH)
  also have "take m (concat (map net [t..<t + Suc k])) = ?d @ take (m - length ?d) ?tl"
    by (cases "length (net t) \<le> m") (simp_all add: upt_conv_Cons del: upt_Suc)
  ultimately show ?case by (simp add: Let_def)
qed (simp add: Let_def)

section \<open>UDP announcements\<close>

definition connect_bytes :: "u32 \<Rightarrow> u8 list" where
  "connect_bytes tx = be64 0x41727101980 @ be32 0 @ be32 tx"

lemma udp_announce_response_ok:
  assumes "length counts = 8"
  shows "udp_announce_response now tx
      (map Some (be32 1 @ be32 tx @ be32 interval @ counts @ compact_bytes es) @ ys) (20 + 6 * length es) t c =
    Inr (True, t\<lparr>tk_timeToNextRequest := now + 1000 * unat interval\<rparr>, dial_all (new_entries (known c) es) c)"
proof -
  let ?m = "map Some (be32 1 @ be32 tx @ be32 interval @ counts @ compact_bytes es) @ ys"
  have "readBE32 ?m 0 = Inr 1" "readBE32 ?m 4 = Inr tx" "readBE32 ?m 8 = Inr interval"
    by (rule BE32.get_at, simp)+
  moreover have "drop 20 ?m = map Some (compact_bytes es) @ ys" using assms by simp
  ultimately show ?thesis
    using rawConnectPeers_compact [of es ys c] by (simp add: udp_announce_response_def)
qed

text \<open>
  Property C16. The UDP tracker protocol: if one of the first ten packets answers the connect packet with the
  same transaction, and the answers to the announcement, which carries the info hash, the peer id, the
  counters, the event and the port at their places, are a well-formed response that fits 1500 bytes, then the
  request succeeds, the next one is due after the interval of the response, and the client dials the peers of
  the response that it does not know.
\<close>

theorem udp_announce_dials:
  assumes "tk_type t = TrackerUDP" "nw_resolve nw (tk_host t) (tk_port t)" "\<forall>p. nw_send nw p"
    and "length (cl_handshake c) = 68" "length (cl_peerId c) = 20"
    and "j < 10" "\<forall>i < j. nw_first nw (connect_bytes (nw_tx nw)) i = []"
    and "nw_first nw (connect_bytes (nw_tx nw)) j = be32 0 @ be32 (nw_tx nw) @ be64 cid"
    and "concat (map (nw_second nw (announce_bytes cid (nw_tx nw) (take 20 (drop 28 (cl_handshake c))) (cl_peerId c) r (tk_tport t)))
        [0..<15]) = be32 1 @ be32 (nw_tx nw) @ be32 interval @ counts @ compact_bytes es"
    and "length counts = 8" "20 + 6 * length es \<le> 1500"
  shows "tracker_request nw now r t c =
    Inr (True, t\<lparr>tk_timeToNextRequest := now + 1000 * unat interval\<rparr>, dial_all (new_entries (known c) es) c)"
proof -
  let ?tx = "nw_tx nw" and ?reply = "be32 0 @ be32 (nw_tx nw) @ be64 cid"
  let ?resp = "be32 1 @ be32 ?tx @ be32 interval @ counts @ compact_bytes es"
  let ?an = "announce_bytes cid ?tx (take 20 (drop 28 (cl_handshake c))) (cl_peerId c) r (tk_tport t)"
  have first: "receive_connect (nw_first nw (connect_bytes ?tx)) 0 10 (map Some (connect_bytes ?tx)) = map Some ?reply"
    using assms(6-8) by (intro receive_connect_reply [where j = j]) (simp_all add: connect_bytes_def)
  have fields: "readBE32 (map Some ?reply) 0 = Inr 0" "readBE32 (map Some ?reply) 4 = Inr ?tx"
    "readBE64 (map Some ?reply) 8 = Inr cid"
    by (rule BE32.get_at BE64.get_at, simp)+
  have len: "length ?resp = 20 + 6 * length es" using assms(10) by simp
  then have "take 1500 (concat (map (nw_second nw ?an) [0..<0 + 15])) = ?resp"
    using assms(9,11) by simp
  then have second: "receive_announce (nw_second nw ?an) 0 15 (replicate 1500 None) 0 =
      (map Some ?resp @ replicate (1500 - length ?resp) None, 20 + 6 * length es)"
    using receive_announce_bytes [of "nw_second nw ?an" 0 15 "[]" 1500] len by (simp add: Let_def)
  have "udpRequest nw now r t c = udp_announce_response now ?tx (map Some ?resp @ replicate (1500 - length ?resp) None)
      (20 + 6 * length es) t c"
    using assms(2,3) first fields second
    by (simp add: udpRequest_def connect_packet_bytes connect_bytes_def [symmetric]
        announce_packet_bytes [OF assms(4,5)] Let_def del: map_append)
  then show ?thesis
    using assms(1) udp_announce_response_ok [OF assms(10)] by (simp add: tracker_request_def del: map_append)
qed

text \<open>
  A UDP tracker that never answers: after ten tries the request fails, its own connect packet,
  still in the buffer, being taken for the answer; the client is unchanged and the tracker is due again
  after 100 ms.
\<close>

theorem silent_udp_tracker_fails:
  assumes "tk_type t = TrackerUDP" "\<forall>p i. nw_first nw p i = []"
  shows "tracker_request nw now r t c = Inr (False, t\<lparr>tk_timeToNextRequest := now + 100\<rparr>, c)"
proof -
  let ?buf = "map Some (connect_bytes (nw_tx nw))"
  have "readBE32 ?buf 0 = Inr 0x417" by (rule BE32.get_at) (simp add: connect_bytes_def byte_images)
  then have "udpRequest nw now r t c = Inr (False, t, c)"
    using assms(2)
    by (simp add: udpRequest_def connect_packet_bytes connect_bytes_def [symmetric] receive_connect_silent Let_def del: map_append)
  then show ?thesis using assms(1) by (simp add: tracker_request_def)
qed

section \<open>HTTP announcements\<close>

lemma search_mid: "search pat (a @ pat @ b) \<noteq> None"
proof (induction a)
  case Nil
  have "take (length pat) (pat @ b) = pat" by simp
  then show ?case by (cases "pat @ b") (auto simp del: append_eq_conv_conj take_append)
qed auto

text \<open>A response with status 200: the version, a reason, header lines.\<close>

definition http_head :: "string \<Rightarrow> string \<Rightarrow> string list \<Rightarrow> string" where
  "http_head version reason hs =
     version @ '' 200 '' @ reason @ crlf @ concat (map (\<lambda>h. h @ crlf) hs) @ crlf"

definition plain_head :: "string \<Rightarrow> string \<Rightarrow> string list \<Rightarrow> bool" where
  "plain_head version reason hs \<longleftrightarrow> take 5 version = ''HTTP/'' \<and> list_all (\<lambda>c. \<not> is_space c) version \<and>
     CHR 0x0A \<notin> set reason \<and> list_all (\<lambda>h. h \<noteq> [] \<and> CHR 0x0A \<notin> set h) hs"

lemma read_word_head:
  assumes "w \<noteq> []" "list_all (\<lambda>c. \<not> is_space c) w" "is_space c"
  shows "read_word (w @ c # s) = (w, c # s)"
proof -
  have "dropWhile is_space (w @ c # s) = w @ c # s" using assms(1,2) by (cases w) simp_all
  moreover have "takeWhile (\<lambda>c. \<not> is_space c) (w @ c # s) = w" "dropWhile (\<lambda>c. \<not> is_space c) (w @ c # s) = c # s"
    using assms(2,3) by (induction w) simp_all
  ultimately show ?thesis by (simp add: read_word_def)
qed

lemma read_status_200: "read_status ('' 200 '' @ s) = Inr (200, CHR '' '' # s)"
  by (simp add: read_status_def is_space_def is_digit_def split_sign_def of_digits_def digit_value_def)

lemma skip_headers_line:
  "CHR 0x0A \<notin> set l \<Longrightarrow> skip_headers (l @ CHR 0x0A # s) = (if l = [CHR 0x0D] then Some s else skip_headers s)"
  by (subst skip_headers.simps) (simp add: takeWhile_stop dropWhile_stop Let_def)

lemma skip_headers_head:
  "list_all (\<lambda>h. h \<noteq> [] \<and> CHR 0x0A \<notin> set h) hs \<Longrightarrow> skip_headers (concat (map (\<lambda>h. h @ crlf) hs) @ crlf @ body) = Some body"
proof (induction hs)
  case Nil
  then show ?case using skip_headers_line [of "[CHR 0x0D]" body] by simp
next
  case (Cons h hs)
  then show ?case
    using skip_headers_line [of "h @ [CHR 0x0D]" "concat (map (\<lambda>h. h @ crlf) hs) @ crlf @ body"] by simp
qed

lemma head_ends: "\<exists>a. reason @ crlf @ concat (map (\<lambda>h. h @ crlf) hs) @ crlf = a @ crlf @ crlf"
proof (cases hs rule: rev_cases)
  case (snoc gs g)
  then show ?thesis by (intro exI [of _ "reason @ crlf @ concat (map (\<lambda>h. h @ crlf) gs) @ g"]) simp
qed auto

text \<open>Only the piece of the answer that completes the headers is used.\<close>

lemma http_response_first_piece:
  assumes "plain_head version reason hs"
  shows "http_response now ((http_head version reason hs @ body) # later_pieces) t c = announce_response now body t c"
proof -
  let ?tail = "reason @ crlf @ concat (map (\<lambda>h. h @ crlf) hs) @ crlf @ body"
  let ?all = "http_head version reason hs @ body"
  have all: "?all = version @ '' 200 '' @ ?tail" by (simp add: http_head_def)
  have v: "version \<noteq> []" "take 5 version = ''HTTP/''" "list_all (\<lambda>c. \<not> is_space c) version"
    and r: "CHR 0x0A \<notin> set reason" and hs: "list_all (\<lambda>h. h \<noteq> [] \<and> CHR 0x0A \<notin> set h) hs"
    using assms by (auto simp: plain_head_def)
  have "search crlf ?all \<noteq> None"
    unfolding all using search_mid [of crlf "version @ '' 200 '' @ reason" "concat (map (\<lambda>h. h @ crlf) hs) @ crlf @ body"]
    by simp
  then have first: "read_until crlf [] (?all # later_pieces) = Some (?all, later_pieces)" by (cases later_pieces) simp_all
  have word: "read_word ?all = (version, '' 200 '' @ ?tail)"
    unfolding all using read_word_head [OF v(1,3), of "CHR '' ''"] by (simp add: is_space_def)
  obtain a where "reason @ crlf @ concat (map (\<lambda>h. h @ crlf) hs) @ crlf = a @ crlf @ crlf"
    using head_ends by blast
  then have "CHR '' '' # ?tail = (CHR '' '' # a) @ (crlf @ crlf) @ body" by (metis append.assoc append_Cons)
  then have "search (crlf @ crlf) (CHR '' '' # ?tail) \<noteq> None"
    using search_mid [of "crlf @ crlf" "CHR '' '' # a" body] by (rule ssubst [where P = "\<lambda>s. search (crlf @ crlf) s \<noteq> None"])
  then have second: "read_until (crlf @ crlf) (CHR '' '' # ?tail) later_pieces = Some (CHR '' '' # ?tail, later_pieces)"
    by (cases later_pieces) simp_all
  have "skip_headers ((CHR '' '' # reason @ [CHR 0x0D]) @ CHR 0x0A # concat (map (\<lambda>h. h @ crlf) hs) @ crlf @ body) = Some body"
    using r skip_headers_head [OF hs, of body] by (subst skip_headers_line) simp_all
  then have "skip_headers (CHR '' '' # ?tail) = Some body" by simp
  then show ?thesis
    using v(2) unfolding http_response_def first option.case prod.case word Let_def read_status_200 rbind.simps second
    by simp
qed

lemma decode_terminated: "xs \<noteq> [] \<Longrightarrow> decode bc (xs @ ys) (length xs) = decode bc xs (length xs)"
proof (cases xs)
  case (Cons x as)
  have "db_setData b (as @ ys) (length as) = db_setData b as (length as)" for b :: "char data_buffer"
    by (simp add: db_setData_def)
  moreover have "load (xs @ ys) 0 = load xs 0" by (simp add: Cons load_def)
  ultimately show ?thesis by (simp add: decode_def Cons cong: if_cong)
qed simp


text \<open>
  The body of an HTTP answer is not read to its end: when it comes in another piece than the
  headers, the socket is closed before, whatever the body is, and the request fails.
\<close>

theorem http_body_in_second_piece_is_lost:
  assumes "tk_type t = TrackerHTTP"
    and "nw_answer nw (http_request t (cl_handshake c) (cl_peerId c) r) = http_head version reason hs # later_pieces"
    and "plain_head version reason hs"
  shows "tracker_request nw now r t c = Inr (False, t\<lparr>tk_timeToNextRequest := now + 100\<rparr>, c)"
proof -
  have "announce_response now [] t c = Inr (False, t, c)" by (simp add: announce_response_def decode_def load_def)
  then show ?thesis
    using assms http_response_first_piece [OF assms(3), of now "[]" later_pieces t c]
    by (simp add: tracker_request_def httpRequest_def)
qed

section \<open>Witnesses\<close>

definition tracker_answer :: dictionary where
  "tracker_answer = [(''interval'', AUint64 60), (''peers'', AString (map char_of_byte (compact_bytes [(1, 80)])))]"

definition sample_network :: network where
  "sample_network = \<lparr>nw_resolve = (\<lambda>_ _. True), nw_connect = (\<lambda>_ _. True),
     nw_answer = (\<lambda>_. [http_head ''HTTP/1.0'' ''OK'' [''A: b''] @ benc (ADict tracker_answer)]), nw_tx = 7,
     nw_send = (\<lambda>_. True), nw_first = (\<lambda>_ i. if i = 1 then be32 0 @ be32 7 @ be64 9 else []),
     nw_second = (\<lambda>_ i. if i = 2 then be32 1 @ be32 7 @ be32 60 @ replicate 8 0 @ compact_bytes [(1, 80)] else [])\<rparr>"

definition sample_query :: tracker_query where
  "sample_query = \<lparr>tq_event = EvStarted, tq_downloaded = 0, tq_uploaded = 0, tq_remaining = 3\<rparr>"

lemma sample_heads: "plain_head ''HTTP/1.0'' ''OK'' [''A: b'']" "plain_head ''HTTP/1.0'' ''OK'' []"
  by (simp_all add: plain_head_def is_space_def)


lemma http_body_in_second_piece_is_lost_witness:
  "tracker_request (sample_network\<lparr>nw_answer := \<lambda>_. [http_head ''HTTP/1.0'' ''OK'' [], benc (ADict tracker_answer)]\<rparr>) 5
      sample_query (Tracker ''h'' ''80'' ''http'' 0) sample_client =
    Inr (False, (Tracker ''h'' ''80'' ''http'' 0)\<lparr>tk_timeToNextRequest := 5 + 100\<rparr>, sample_client)"
  by (rule http_body_in_second_piece_is_lost [OF _ _ sample_heads(2)]) (simp_all add: Tracker_def)

lemma udp_announce_dials_witness:
  "tracker_request sample_network 5 sample_query (Tracker ''h'' ''80'' ''udp'' 0) sample_client =
    Inr (True, (Tracker ''h'' ''80'' ''udp'' 0)\<lparr>tk_timeToNextRequest := 5 + 1000 * unat (60 :: u32)\<rparr>,
      dial_all (new_entries (known sample_client) [(1, 80)]) sample_client)"
proof (rule udp_announce_dials [where j = 1 and cid = 9 and counts = "replicate 8 0"])
  have "[0..<15] = [0, 1, 2, 3, 4, 5, 6, 7, 8, 9, 10, 11, 12, 13, 14 :: nat]" by code_simp
  then show "concat (map (nw_second sample_network (announce_bytes 9 (nw_tx sample_network)
      (take 20 (drop 28 (cl_handshake sample_client))) (cl_peerId sample_client) sample_query
      (tk_tport (Tracker ''h'' ''80'' ''udp'' 0)))) [0..<15]) =
    be32 1 @ be32 (nw_tx sample_network) @ be32 60 @ replicate 8 0 @ compact_bytes [(1, 80)]"
    by (simp add: sample_network_def)
qed (simp_all add: Tracker_def sample_network_def sample_client_def)

lemma silent_udp_tracker_fails_witness:
  "tracker_request (sample_network\<lparr>nw_first := \<lambda>_ _. []\<rparr>) 5 sample_query (Tracker ''h'' ''80'' ''udp'' 0) sample_client =
    Inr (False, (Tracker ''h'' ''80'' ''udp'' 0)\<lparr>tk_timeToNextRequest := 5 + 100\<rparr>, sample_client)"
  by (rule silent_udp_tracker_fails) (simp_all add: Tracker_def)

end
