(* ===== verification/Server.thy ===== *)
theory Server
  imports Prelude
begin

text \<open>
  src/net/server.{h,cpp}: the listener of a seeding torrent, a wrapper of an asio acceptor. Which ports can
  be bound is a parameter; asio calls the handler of every \<open>async_accept\<close> once, with an error for those
  that are pending when the acceptor is cancelled.
\<close>

section \<open>State and operations\<close>

record server =
  sv_port :: u16
  sv_open :: bool
  sv_accepts :: nat
  sv_stopped :: "bool option"

text \<open>The constructor binds, or throws; it does not assign \<open>m_stopped\<close>.\<close>

definition Server :: "(u16 \<Rightarrow> bool) \<Rightarrow> u16 \<Rightarrow> server res" where
  "Server can_bind port =
     (if can_bind port then Inr \<lparr>sv_port = port, sv_open = True, sv_accepts = 0, sv_stopped = None\<rparr>
      else Inl SystemError)"

definition server_stopped :: "server \<Rightarrow> bool res" where
  "server_stopped s = (case sv_stopped s of None \<Rightarrow> Inl Uninitialised | Some b \<Rightarrow> Inr b)"

definition server_stop :: "server \<Rightarrow> server" where
  "server_stop s = s\<lparr>sv_open := False, sv_stopped := Some True\<rparr>"

definition server_destroy :: "server \<Rightarrow> server" where
  "server_destroy s = s\<lparr>sv_open := False\<rparr>"

definition server_accept :: "server \<Rightarrow> server" where
  "server_accept s = s\<lparr>sv_accepts := sv_accepts s + 1\<rparr>"

text \<open>The handler of one \<open>async_accept\<close>; \<open>ac\<close> is the callback of the torrent.\<close>

definition accept_handler :: "bool \<Rightarrow> ('a \<Rightarrow> 'a) \<Rightarrow> 'a \<Rightarrow> 'a" where
  "accept_handler error ac x = (if \<not> error then ac x else x)"

section \<open>Lemmas\<close>

text \<open>A server that was never stopped does not know that it runs.\<close>

lemma server_stopped_uninitialised: "Server can_bind port = Inr s \<Longrightarrow> server_stopped s = Inl Uninitialised"
  by (auto simp: Server_def server_stopped_def split: if_splits)

lemma server_stopped_after_stop: "server_stopped (server_stop s) = Inr True"
  by (simp add: server_stopped_def server_stop_def)

end
