(* ===== verification/Torrent.thy ===== *)
theory Torrent
  imports Tracker Server
begin

text \<open>
  src/ctorrent/torrent.{h,cpp}, lines 59 to 211: opening a torrent, its handshake, the queries to its
  trackers, starting and finishing, and accepting peers. The rest of \<open>Torrent\<close> is in \<open>Peer\<close>, \<open>Protocol\<close> and
  \<open>Swarm\<close>, on the record \<open>client\<close>, which the record \<open>torrent\<close> holds. \<open>net host\<close> is the network of a host;
  allocation failures are left out.
\<close>

section \<open>State\<close>

record torrent =
  to_client :: client
  to_listener :: "server option"
  to_activeTrackers :: "tracker list"
  to_startTime :: nat

datatype download_state = DS_None | DS_Completed | DS_TrackerQueryFailure | DS_AlreadyDownloaded | DS_NetworkError

definition no_peer :: peer where
  "no_peer = \<lparr>pr_bitset = bitset_construct 0, pr_queue = [], pr_requestedBlocks = [], pr_peerId = [], pr_state = 0\<rparr>"

definition Torrent :: torrent where
  "Torrent = \<lparr>to_client = \<lparr>cl_meta = TorrentMeta, cl_fileManager = FileManager, cl_peers = [], cl_blacklisted = [],
     cl_uploadedBytes = 0, cl_downloadedBytes = 0, cl_wastedBytes = 0, cl_hashMisses = 0, cl_handshake = [], cl_peerId = [],
     cl_store = (\<lambda>_. no_peer), cl_next = 0, cl_net = net_start\<rparr>,
     to_listener = None, to_activeTrackers = [], to_startTime = 0\<rparr>"

section \<open>Opening a torrent\<close>

definition client_id :: "u8 list" where
  "client_id = map byte_of_char ''-CT11000''"

text \<open>\<open>m_handshake\<close>, an uninitialised array before, and \<open>random\<close> the twelve random bytes.\<close>

definition make_handshake :: "u32 list \<Rightarrow> u8 list \<Rightarrow> mem res" where
  "make_handshake checkSum random =
     rbind (store (replicate 68 None) 0 0x13) (\<lambda>m.
     rbind (blit m 1 (map Some protocol_name)) (\<lambda>m.
     rbind (blit m 20 (replicate 8 (Some 0))) (\<lambda>m.
     rbind (blit m 48 (map Some client_id)) (\<lambda>m.
     rbind (rfold (\<lambda>i m. if i < length checkSum then writeBE32 m (28 + i * 4) (checkSum ! i) else Inl OutOfBounds)
       [0..<5] m) (\<lambda>m.
       rfold (\<lambda>i m. store m (56 + i) (random ! i)) [0..<12] m)))))"

definition make_peerId :: "u8 list \<Rightarrow> mem res" where
  "make_peerId random =
     rbind (blit (replicate 20 None) 0 (map Some client_id)) (\<lambda>m.
       rfold (\<lambda>i m. store m (8 + i) (random ! i)) [0..<12] m)"

definition torrent_open ::
  "(u8 list \<Rightarrow> u32 list) \<Rightarrow> (string \<Rightarrow> string) \<Rightarrow> 's file_system \<Rightarrow> u8 list \<Rightarrow> string option \<Rightarrow> string \<Rightarrow> 's \<Rightarrow> torrent \<Rightarrow>
    (bool \<times> 's \<times> torrent) res" where
  "torrent_open sha1 parent_path fs random file downloadDir s t =
     (let c = to_client t in
      rbind (parse_file sha1 (cl_meta c) file) (\<lambda>(ok, meta).
        let c = c\<lparr>cl_meta := meta\<rparr> in
        if \<not> ok then Inr (False, s, t\<lparr>to_client := c\<rparr>)
        else
          rbind (rbind (make_handshake (tm_checkSum meta) random) values_of) (\<lambda>handshake.
          rbind (rbind (make_peerId random) values_of) (\<lambda>peerId.
            let c = c\<lparr>cl_handshake := handshake, cl_peerId := peerId\<rparr>;
                dir = (if \<not> ends_with downloadDir ''/'' then downloadDir @ ''/'' else downloadDir)
            in rbind (registerFiles sha1 parent_path fs meta dir (tm_files meta) s (cl_fileManager c)) (\<lambda>(ok, s, fm).
              Inr (ok, s, t\<lparr>to_client := c\<lparr>cl_fileManager := fm\<rparr>\<rparr>))))))"

section \<open>Trackers\<close>

definition makeTrackerQuery :: "tracker_event \<Rightarrow> torrent \<Rightarrow> tracker_query res" where
  "makeTrackerQuery event t =
     (let c = to_client t in
      rbind (compute_downloaded (cl_meta c) (cl_fileManager c)) (\<lambda>downloaded.
        Inr \<lparr>tq_event = event, tq_downloaded = downloaded, tq_uploaded = cl_uploadedBytes c,
          tq_remaining = sub64 (tm_totalSize (cl_meta c)) downloaded\<rparr>))"

definition queryTracker ::
  "(string \<Rightarrow> network) \<Rightarrow> nat \<Rightarrow> string \<Rightarrow> tracker_query \<Rightarrow> u16 \<Rightarrow> torrent \<Rightarrow> (bool \<times> torrent) res" where
  "queryTracker net now furl q tport t =
     (let (protocol, host, port) = parseUrl furl in
      if host = [] then Inr (False, t)
      else rbind (tracker_request (net host) now q (Tracker host port protocol tport) (to_client t)) (\<lambda>(ok, tracker, c).
        let t = t\<lparr>to_client := c\<rparr> in
        if \<not> ok then Inr (False, t) else Inr (True, t\<lparr>to_activeTrackers := to_activeTrackers t @ [tracker]\<rparr>)))"

fun query_any ::
  "(string \<Rightarrow> torrent \<Rightarrow> (bool \<times> torrent) res) \<Rightarrow> any list \<Rightarrow> torrent \<Rightarrow> (bool \<times> torrent) res" where
  "query_any query [] t = Inr (False, t)"
| "query_any query (announce # as) t =
     rbind (query (cast_string announce) t) (\<lambda>(ok, t). if ok then Inr (True, t) else query_any query as t)"

text \<open>The loop over the announce list. In the case of a string, \<open>Bencode::cast<std::string>(&s)\<close> makes a new
  \<open>any\<close> from the pointer \<open>&s\<close>, and casts that.\<close>

fun query_tiers ::
  "(string \<Rightarrow> torrent \<Rightarrow> (bool \<times> torrent) res) \<Rightarrow> any list \<Rightarrow> torrent \<Rightarrow> (bool \<times> torrent) res" where
  "query_tiers query [] t = Inr (False, t)"
| "query_tiers query (s # ss) t =
     rbind (case s of AVec vs \<Rightarrow> query_any query vs t
        | AString _ \<Rightarrow> query (cast_string AOther) t
        | _ \<Rightarrow> Inr (False, t))
       (\<lambda>(ok, t). if ok then Inr (True, t) else query_tiers query ss t)"

definition queryTrackers ::
  "(string \<Rightarrow> network) \<Rightarrow> nat \<Rightarrow> tracker_query \<Rightarrow> u16 \<Rightarrow> torrent \<Rightarrow> (bool \<times> torrent) res" where
  "queryTrackers net now q port t =
     (let query = (\<lambda>url. queryTracker net now url q port); meta = cl_meta (to_client t) in
      rbind (query (tm_mainTracker meta) t) (\<lambda>(success, t).
        if success then Inr (True, t) else query_tiers query (tm_trackers meta) t))"

text \<open>\<open>Tracker::query\<close> of the active trackers in turn: for all of them, which are forgotten, or for those
  whose time is up. (The future that \<open>std::async\<close> returns waits for the query in its destructor.)\<close>

definition query_active ::
  "(string \<Rightarrow> network) \<Rightarrow> nat \<Rightarrow> tracker_query \<Rightarrow> tracker \<Rightarrow> client \<Rightarrow> (tracker \<times> client) res" where
  "query_active net now q tracker c =
     rbind (tracker_request (net (tk_host tracker)) now q tracker c) (\<lambda>(_, tracker, c). Inr (tracker, c))"

definition finish :: "(string \<Rightarrow> network) \<Rightarrow> nat \<Rightarrow> torrent \<Rightarrow> (bool \<times> torrent) res" where
  "finish net now t =
     rbind (isFinished (to_client t)) (\<lambda>fin.
       let event = (if fin then EvCompleted else EvStopped) in
       rbind (makeTrackerQuery event t) (\<lambda>q.
       rbind (rfold (\<lambda>tracker c. rbind (query_active net now q tracker c) (\<lambda>(_, c). Inr c))
           (to_activeTrackers t) (to_client t)) (\<lambda>c.
         Inr (event = EvCompleted, t\<lparr>to_client := c, to_activeTrackers := []\<rparr>))))"

definition check_tracker :: "(string \<Rightarrow> network) \<Rightarrow> nat \<Rightarrow> nat \<Rightarrow> torrent \<Rightarrow> torrent res" where
  "check_tracker net now i t =
     (let tracker = to_activeTrackers t ! i in
      if timeUp now tracker
      then rbind (makeTrackerQuery EvNone t) (\<lambda>q.
        rbind (query_active net now q tracker (to_client t)) (\<lambda>(tracker, c).
          Inr (t\<lparr>to_client := c, to_activeTrackers := (to_activeTrackers t)[i := tracker]\<rparr>)))
      else Inr t)"

definition checkTrackers :: "(string \<Rightarrow> network) \<Rightarrow> nat \<Rightarrow> torrent \<Rightarrow> (bool \<times> torrent) res" where
  "checkTrackers net now t =
     rbind (rfold (check_tracker net now) [0..<length (to_activeTrackers t)] t) (\<lambda>t. Inr (True, t))"

section \<open>Starting\<close>

definition prepare ::
  "(string \<Rightarrow> network) \<Rightarrow> nat \<Rightarrow> (u16 \<Rightarrow> bool) \<Rightarrow> u16 \<Rightarrow> bool \<Rightarrow> torrent \<Rightarrow> (download_state \<times> torrent) res" where
  "prepare net now can_bind port seeder t =
     rbind (if seeder
            then if to_listener t = None
              then rbind (Server can_bind port) (\<lambda>listener. Inr (None, t\<lparr>to_listener := Some listener\<rparr>))
              else Inr (None, t)
            else rbind (isFinished (to_client t)) (\<lambda>fin. Inr (if fin then Some DS_AlreadyDownloaded else None, t)))
       (\<lambda>(early, t).
         case early of Some state \<Rightarrow> Inr (state, t)
         | None \<Rightarrow>
             rbind (makeTrackerQuery EvStarted t) (\<lambda>q.
             rbind (queryTrackers net now q (if seeder then port else 0) t) (\<lambda>(ok, t).
               if \<not> ok then Inr (DS_TrackerQueryFailure, t) else Inr (DS_None, t\<lparr>to_startTime := now\<rparr>))))"

text \<open>Every call of \<open>nextConnection\<close> starts one more accept; \<open>on_accept\<close> is the handler of one, and
  \<open>accept_peer\<close> the callback in it.\<close>

definition nextConnection :: "torrent \<Rightarrow> bool \<times> torrent" where
  "nextConnection t =
     (case to_listener t of
        Some listener \<Rightarrow> (True, t\<lparr>to_listener := Some (server_accept listener)\<rparr>)
      | None \<Rightarrow> (False, t))"

definition accept_peer :: "client \<Rightarrow> client" where
  "accept_peer c =
     (let (p, c) = make_peer c;
          c = c\<lparr>cl_net := upd_conn p (\<lambda>k. k\<lparr>cn_open := True\<rparr>) (cl_net c)\<rparr>
      in verify p c)"

definition on_accept :: "bool \<Rightarrow> torrent \<Rightarrow> torrent" where
  "on_accept error t = t\<lparr>to_client := accept_handler error accept_peer (to_client t),
     to_listener := map_option (\<lambda>s. s\<lparr>sv_accepts := sv_accepts s - 1\<rparr>) (to_listener t)\<rparr>"

text \<open>The destructor, and with it the listener's.\<close>

definition torrent_destroy :: "torrent \<Rightarrow> torrent \<times> server option" where
  "torrent_destroy t =
     (t\<lparr>to_activeTrackers := [], to_client := (to_client t)\<lparr>cl_peers := []\<rparr>, to_listener := None\<rparr>,
      map_option (server_destroy \<circ> server_stop) (to_listener t))"

section \<open>Handshakes\<close>

definition handshake_bytes :: "u32 list \<Rightarrow> u8 list \<Rightarrow> u8 list" where
  "handshake_bytes checkSum random =
     0x13 # protocol_name @ replicate 8 0 @ concat (map be32 checkSum) @ client_id @ random"

lemma length_protocol_name [simp]: "length protocol_name = 19" "length client_id = 8"
  by (simp_all add: protocol_name_def client_id_def)

text \<open>The random bytes go in front to back.\<close>

lemma store_random:
  "length pre = k \<Longrightarrow> n \<le> length random \<Longrightarrow> n \<le> length old \<Longrightarrow>
    rfold (\<lambda>i m. store m (k + i) (random ! i)) [0..<n] (pre @ old) = Inr (pre @ map Some (take n random) @ drop n old)"
proof (induction n)
  case (Suc n)
  have "(pre @ map Some (take n random) @ drop n old)[k + n := Some (random ! n)] =
      pre @ map Some (take (Suc n) random) @ drop (Suc n) old"
    using Suc.prems by (simp add: list_update_append take_Suc_conv_app_nth Cons_nth_drop_Suc [symmetric])
  then show ?case using Suc by (simp add: rfold_append)
qed simp

text \<open>And the words of the info hash.\<close>

lemma length_words [simp]: "length (concat (map be32 ws)) = 4 * length ws"
  by (induction ws) simp_all

lemma put_words:
  "length pre = k \<Longrightarrow> n \<le> length ws \<Longrightarrow>
    rfold (\<lambda>i m. if i < length ws then writeBE32 m (k + i * 4) (ws ! i) else Inl OutOfBounds) [0..<n]
      (pre @ replicate (4 * length ws) None @ post) =
    Inr (pre @ map Some (concat (map be32 (take n ws))) @ replicate (4 * (length ws - n)) None @ post)"
proof (induction n)
  case (Suc n)
  let ?done = "pre @ map Some (concat (map be32 (take n ws)))"
  have "4 * (length ws - n) = 4 + 4 * (length ws - Suc n)" using Suc.prems by simp
  then have split: "replicate (4 * (length ws - n)) None = replicate 4 None @ replicate (4 * (length ws - Suc n)) (None :: u8 option)"
    by (simp only: replicate_add)
  have "writeBE32 (?done @ replicate 4 None @ replicate (4 * (length ws - Suc n)) None @ post) (k + n * 4) (ws ! n) =
      Inr (?done @ map Some (be32 (ws ! n)) @ replicate (4 * (length ws - Suc n)) None @ post)"
    using Suc.prems by (intro BE32.put_mid) simp_all
  then show ?case using Suc split by (simp add: rfold_append take_Suc_conv_app_nth)
qed simp

lemma make_peerId_bytes:
  assumes "length random = 12"
  shows "rbind (make_peerId random) values_of = Inr (client_id @ random)"
proof -
  have "values_of (map Some (client_id @ random)) = Inr (client_id @ random)" by (rule values_of_map_Some)
  then show ?thesis
    using store_random [of "map Some client_id" 8 12 random "replicate 12 None"] assms
    by (simp add: make_peerId_def)
qed

lemma make_handshake_bytes:
  assumes "length random = 12" "length checkSum = 5"
  shows "rbind (make_handshake checkSum random) values_of = Inr (handshake_bytes checkSum random)"
proof -
  let ?pre = "map Some (0x13 # protocol_name @ replicate 8 0) :: mem"
  let ?hash = "map Some (concat (map be32 checkSum)) :: mem" and ?id = "map Some client_id :: mem"
  have start: "rbind (store (replicate 68 None) 0 0x13) (\<lambda>m. rbind (blit m 1 (map Some protocol_name)) (\<lambda>m.
      rbind (blit m 20 (replicate 8 (Some 0))) (\<lambda>m. blit m 48 ?id))) =
    Inr (?pre @ replicate 20 None @ ?id @ replicate 12 None)"
  proof -
    have "replicate 68 None = None # replicate 67 (None :: u8 option)" by (simp flip: replicate_Suc)
    then have "store (replicate 68 None) 0 (0x13 :: u8) = Inr (map Some [0x13] @ replicate 67 None)" by simp
    moreover have "blit (map Some [0x13] @ replicate 67 None) 1 (map Some protocol_name) =
        Inr (map Some ([0x13] @ protocol_name) @ replicate 48 None)"
      using blit_next [of "[0x13]" 1 protocol_name 67] by simp
    moreover have "blit (map Some ([0x13] @ protocol_name) @ replicate 48 None) 20 (map Some (replicate 8 0)) =
        Inr (map Some (([0x13] @ protocol_name) @ replicate 8 0) @ replicate 40 None)"
      using blit_next [of "[0x13] @ protocol_name" 20 "replicate 8 0" 48] by simp
    moreover have "blit (map Some (([0x13] @ protocol_name) @ replicate 8 0) @ replicate 40 None) 48 ?id =
        Inr (?pre @ replicate 20 None @ ?id @ replicate 12 None)"
      by simp
    ultimately show ?thesis by simp
  qed
  have "rfold (\<lambda>i m. if i < length checkSum then writeBE32 m (28 + i * 4) (checkSum ! i) else Inl OutOfBounds) [0..<5]
      (?pre @ replicate 20 None @ ?id @ replicate 12 None) = Inr (?pre @ ?hash @ ?id @ replicate 12 None)"
    using put_words [of ?pre 28 5 checkSum "?id @ replicate 12 None"] assms(2) by simp
  moreover have "rfold (\<lambda>i m. store m (56 + i) (random ! i)) [0..<12] ((?pre @ ?hash @ ?id) @ replicate 12 None) =
      Inr ((?pre @ ?hash @ ?id) @ map Some random)"
    using store_random [of "?pre @ ?hash @ ?id" 56 12 random "replicate 12 None"] assms by simp
  moreover have "values_of (map Some (handshake_bytes checkSum random)) = Inr (handshake_bytes checkSum random)"
    by (rule values_of_map_Some)
  ultimately show ?thesis
    using start by (simp add: make_handshake_def handshake_bytes_def)
qed


lemma handshake_fields:
  assumes "length random = 12" "length checkSum = 5"
  shows "length (handshake_bytes checkSum random) = 68" "handshake_bytes checkSum random ! 0 = 0x13"
    "take 20 (drop 28 (handshake_bytes checkSum random)) = concat (map be32 checkSum)"
    "take 20 (drop 48 (handshake_bytes checkSum random)) = client_id @ random"
  using assms by (simp_all add: handshake_bytes_def)

lemma be32_inject: "be32 a = be32 b \<longleftrightarrow> a = b"
  using read32_image(2) by (metis sum.inject(2))

lemma words_inject: "length xs = length ys \<Longrightarrow> concat (map be32 xs) = concat (map be32 ys) \<longleftrightarrow> xs = ys"
proof (induction xs arbitrary: ys)
  case (Cons x xs)
  then show ?case by (cases ys) (simp_all add: be32_inject)
qed simp

text \<open>
  Property C15. Two clients, of torrents with info hashes \<open>theirs\<close> and \<open>mine\<close>, shake hands exactly when the
  hashes are equal: the handshake that the connecting client made is answered with the own one, the peer is
  registered under the id in it and the client waits for the length of its first message; otherwise the
  connection is closed and the peer forgotten.
\<close>

theorem handshake_accepted_iff_same_hash:
  assumes "rbind (make_handshake theirs random) values_of = Inr h" "length theirs = 5" "length random = 12"
    and "rbind (make_handshake mine random') values_of = Inr (cl_handshake c)" "length mine = 5" "length random' = 12"
    and "pr_peerId (the_peer p c) = []"
  shows "verify_handshake env p h c =
    (if theirs = mine
     then rbind (handleNewPeer env p (write_bytes p (cl_handshake c)
         (upd_peer p (\<lambda>r. r\<lparr>pr_peerId := map char_of_byte (client_id @ random)\<rparr>) c))) (\<lambda>c. Inr (peer_read p 4 OnLength c))
     else Inr (peer_handleError env p c))"
proof -
  have h: "h = handshake_bytes theirs random" "cl_handshake c = handshake_bytes mine random'"
    using assms make_handshake_bytes by simp_all
  note fields = handshake_fields [OF assms(3,2)] handshake_fields [OF assms(6,5)]
  have "handshake_refused (cl_handshake c) h \<longleftrightarrow> theirs \<noteq> mine"
    unfolding h handshake_refused_def fields using words_inject [of theirs mine] assms(2,5) by simp
  moreover have "handshake_id h = map char_of_byte (client_id @ random)"
    unfolding h handshake_id_def fields by simp
  ultimately show ?thesis using assms(7) by (simp add: verify_handshake_def Let_def)
qed

lemma handshake_accepted_iff_same_hash_witness:
  "verify_handshake sample_env 0 (handshake_bytes [1, 2, 3, 4, 6] (replicate 12 9))
      (sample_client\<lparr>cl_handshake := handshake_bytes [1, 2, 3, 4, 5] (replicate 12 8)\<rparr>) =
    Inr (peer_handleError sample_env 0 (sample_client\<lparr>cl_handshake := handshake_bytes [1, 2, 3, 4, 5] (replicate 12 8)\<rparr>))"
  by (subst handshake_accepted_iff_same_hash [where theirs = "[1, 2, 3, 4, 6]" and random = "replicate 12 9"
        and mine = "[1, 2, 3, 4, 5]" and random' = "replicate 12 8"])
    (simp_all add: make_handshake_bytes, simp add: sample_client_def)

section \<open>Announcing\<close>

lemma queryTracker_empty: "queryTracker net now [] q port t = Inr (False, t)"
  by (simp add: queryTracker_def parseUrl_def)

text \<open>
  Of an announce list that consists of plain URLs instead of tiers nothing is ever queried: all
  depends on the main tracker (the cast is applied to a pointer, which gives the empty URL).
\<close>

theorem plain_announce_urls_are_ignored:
  assumes "list_all (\<lambda>s. \<exists>url. s = AString url) (tm_trackers (cl_meta (to_client t)))"
  shows "queryTrackers net now q port t = queryTracker net now (tm_mainTracker (cl_meta (to_client t))) q port t"
proof -
  have skip: "query_tiers (\<lambda>url. queryTracker net now url q port) ss u = Inr (False, u)"
    if "list_all (\<lambda>s. \<exists>url. s = AString url) ss" for ss u
    using that by (induction ss) (auto simp: cast_string_def queryTracker_empty)
  show ?thesis
    using skip [OF assms]
    by (cases "queryTracker net now (tm_mainTracker (cl_meta (to_client t))) q port t")
      (auto simp: queryTrackers_def Let_def)
qed

lemma plain_announce_urls_are_ignored_witness:
  "queryTrackers (\<lambda>_. sample_network) 5 sample_query 0
      (Torrent\<lparr>to_client := sample_client\<lparr>cl_meta := sample_meta\<lparr>tm_trackers := [AString ''http://h/'']\<rparr>\<rparr>\<rparr>) =
    Inr (False, Torrent\<lparr>to_client := sample_client\<lparr>cl_meta := sample_meta\<lparr>tm_trackers := [AString ''http://h/'']\<rparr>\<rparr>\<rparr>)"
  by (subst plain_announce_urls_are_ignored)
    (simp_all, simp add: sample_meta_def TorrentMeta_def queryTracker_empty)

section \<open>An opened torrent\<close>

lemma parse_file_layout:
  assumes "parse_file sha1 TorrentMeta (Some bytes) = Inr (True, m)"
    and "decode Bencode (map Some bytes) (length bytes) = Inr (d, bc)" "declared (entries_of (info_of d)) < 2 ^ 63"
  shows "laid_out 0 0 (tm_files m)" "sum_list (map fi_length (tm_files m)) = tm_totalSize m" "tm_totalSize m < 2 ^ 63"
    and "\<exists>bs. tm_checkSum m = sha1 bs"
proof -
  have parsed: "internalParse sha1 TorrentMeta d bc = Inr (True, m)"
    using assms(1,2) by (auto simp: parse_file_def decode_file_def split: if_splits)
  obtain cs where "tm_checkSum m = sha1 (map byte_of_char cs)"
    "declared (entries_of (info_of d)) < 2 ^ 64 \<longrightarrow> meta_layout m \<and> tm_totalSize m = declared (entries_of (info_of d)) \<and>
      length (tm_files m) = length (entries_of (info_of d))"
    by (rule internalParse_success [OF parsed]) (simp_all add: TorrentMeta_def)
  then show "laid_out 0 0 (tm_files m)" "sum_list (map fi_length (tm_files m)) = tm_totalSize m" "tm_totalSize m < 2 ^ 63"
    "\<exists>bs. tm_checkSum m = sha1 bs"
    using assms(3) by (auto simp: meta_layout_def)
qed

text \<open>What the torrent file has to promise.\<close>

definition sound_sizes :: "torrent_meta \<Rightarrow> bool" where
  "sound_sizes m \<longleftrightarrow> (\<forall>f \<in> set (tm_files m). 0 < fi_length f) \<and> tm_pieceLength m < 2 ^ 32 \<and>
     length (tm_sha1sums m) < 2 ^ 31 \<and> even (length (tm_sha1sums m)) \<and>
     (length (tm_sha1sums m) - 1) * tm_pieceLength m < tm_totalSize m \<and>
     tm_totalSize m \<le> length (tm_sha1sums m) * tm_pieceLength m"

lemma opened_ready:
  assumes "torrent_open sha1 parent_path fs random (Some bytes) dir s Torrent = Inr (True, s', t)"
    and "decode Bencode (map Some bytes) (length bytes) = Inr (d, bc)" "declared (entries_of (info_of d)) < 2 ^ 63"
    and "\<forall>bs. length (sha1 bs) = 5" "length random = 12" "\<forall>p u content. fs_open fs p u = Some content \<longrightarrow> content = []"
    and "sound_sizes (cl_meta (to_client t))"
  shows "client_ok (to_client t) \<and> fm_inv sha1 (cl_meta (to_client t)) (cl_fileManager (to_client t)) \<and>
    completed (cl_fileManager (to_client t)) = {} \<and> cl_peers (to_client t) = [] \<and> to_activeTrackers t = [] \<and>
    cl_handshake (to_client t) = handshake_bytes (tm_checkSum (cl_meta (to_client t))) random \<and>
    cl_peerId (to_client t) = client_id @ random"
proof -
  let ?dir = "if \<not> ends_with dir ''/'' then dir @ ''/'' else dir"
  obtain m fm h where m: "parse_file sha1 TorrentMeta (Some bytes) = Inr (True, m)"
    and reg: "registerFiles sha1 parent_path fs m ?dir (tm_files m) s FileManager = Inr (True, s', fm)"
    and h: "rbind (make_handshake (tm_checkSum m) random) values_of = Inr h"
    and t: "t = Torrent\<lparr>to_client := (to_client Torrent)\<lparr>cl_meta := m, cl_handshake := h, cl_peerId := client_id @ random,
      cl_fileManager := fm\<rparr>\<rparr>"
    using assms(1) make_peerId_bytes [OF assms(5)]
    by (auto simp: torrent_open_def Torrent_def Let_def elim!: rbindE split: if_splits)
  note layout = parse_file_layout [OF m assms(2,3)]
  have meta: "cl_meta (to_client t) = m" by (simp add: t)
  note sizes = assms(7) [unfolded meta sound_sizes_def]
  have fm: "fm_inv sha1 m fm" "completed fm = {}" "length (fm_pieces fm) = length (tm_sha1sums m)"
    using registered_new [OF layout(1,2) _ layout(3) _ _ _ _ assms(6) reg] sizes by simp_all
  have "length (tm_checkSum m) = 5" using layout(4) assms(4) by auto
  then have hs: "h = handshake_bytes (tm_checkSum m) random" using make_handshake_bytes [OF assms(5)] h by simp
  have "client_ok (to_client t)"
    using fm(1,3) sizes by (simp add: client_ok_def fm_ok_def fm_inv_def t Torrent_def)
  then show ?thesis using fm hs by (simp add: t Torrent_def)
qed


text \<open>A torrent of one file in two pieces.\<close>

definition two_pieces :: dictionary where
  "two_pieces =
     [(''announce'', AString ''http://t/''),
      (''info'', ADict [(''length'', AUint64 4), (''name'', AString ''n''), (''piece length'', AUint64 2),
        (''pieces'', AString (replicate 40 CHR ''h''))])]"

lemma two_pieces_complete: "complete_torrent two_pieces"
  by (simp add: complete_torrent_def two_pieces_def map_ordered_def map_count_def info_of_def dict_at_def
      map_find_def cast_dictionary_def cast_string_def cast_uint64_def)

lemma two_pieces_size: "length (benc (ADict two_pieces)) + length (benc (ADict (info_of two_pieces))) < 2 ^ 64"
proof -
  have "length (benc (ADict two_pieces)) < 200" "length (benc (ADict (info_of two_pieces))) < 200"
    by code_simp+
  moreover have "200 + 200 < (2 :: nat) ^ 64" by simp
  ultimately show ?thesis by linarith
qed

lemma c_bytes_h: "c_bytes (replicate n CHR ''h'') = replicate n 0x68 @ [0]"
  by (simp add: c_bytes_def byte_of_char_def)

lemma word_at_h: "p + 3 < n \<Longrightarrow> word_at (replicate n 0x68 @ [0]) p = 0x68686868"
proof -
  assume "p + 3 < n"
  then have "take 4 (drop p (replicate n 0x68 @ [0])) = [0x68, 0x68, 0x68, 0x68 :: u8]"
    by (simp add: numeral_nat)
  then show ?thesis by (simp add: word_at_def be_value_def)
qed

lemma hash_at_h: "k < 2 \<Longrightarrow> hash_at (c_bytes (replicate 40 CHR ''h'')) (20 * k) = replicate 5 0x68686868"
  unfolding hash_at_def c_bytes_h by (intro nth_equalityI) (simp_all add: word_at_h)

lemma two_pieces_meta:
  assumes "internalParse sha1 TorrentMeta two_pieces bc = Inr (True, m)"
  shows "tm_files m = [\<lparr>fi_path = ''n'', fi_index = 0, fi_begin = 0, fi_length = 4\<rparr>]" "tm_totalSize m = 4"
    "tm_pieceLength m = 2" "tm_sha1sums m = replicate 2 (replicate 5 0x68686868)"
proof -
  let ?info = "[(''length'', AUint64 4), (''name'', AString ''n''), (''piece length'', AUint64 2),
        (''pieces'', AString (replicate 40 CHR ''h''))]"
  have info: "dict_at two_pieces ''info'' = ADict ?info" "map_count ''announce'' two_pieces"
    by (simp_all add: two_pieces_def dict_at_def map_find_def map_count_def)
  have keys: "map_count ''pieces'' ?info" "map_count ''piece length'' ?info" "\<not> map_count ''files'' ?info"
    "dict_at ?info ''name'' = AString ''n''" "dict_at ?info ''piece length'' = AUint64 2"
    "dict_at ?info ''length'' = AUint64 4" "dict_at ?info ''pieces'' = AString (replicate 40 CHR ''h'')"
    by (simp_all add: dict_at_def map_find_def map_count_def)
  obtain sums m0 where sums: "parse_sums (replicate 40 CHR ''h'') 0 [] = Inr sums"
    and m: "read_files (m0\<lparr>tm_name := ''n'', tm_pieceLength := 2, tm_sha1sums := sums\<rparr>) ?info = (True, m)" "tm_files m0 = []"
    using assms info keys
    by (auto simp: internalParse_def cast_dictionary_def cast_string_def cast_uint64_def Let_def TorrentMeta_def
        rbind_Inr_iff read_strings_keeps)
  have hashes: "map (\<lambda>k. hash_at (c_bytes (replicate 40 CHR ''h'')) (20 * k)) [0..<2] = replicate 2 (replicate 5 0x68686868)"
    by (intro nth_equalityI) (simp_all add: hash_at_h)
  have "sums = map (\<lambda>k. hash_at (c_bytes (replicate 40 CHR ''h'')) (20 * k)) [0..<2]"
    using sums parse_sums_from [of 0 "replicate 40 CHR ''h''" 0 "[]"] by simp
  then have "sums = replicate 2 (replicate 5 0x68686868)" by (simp only: hashes)
  then show "tm_files m = [\<lparr>fi_path = ''n'', fi_index = 0, fi_begin = 0, fi_length = 4\<rparr>]" "tm_totalSize m = 4"
    "tm_pieceLength m = 2" "tm_sha1sums m = replicate 2 (replicate 5 0x68686868)"
    using m keys by (auto simp: read_files_def cast_uint64_def Let_def)
qed

lemma two_pieces_registered:
  assumes "tm_files m = [\<lparr>fi_path = ''n'', fi_index = 0, fi_begin = 0, fi_length = 4\<rparr>]"
  shows "\<exists>s fm. registerFiles sha1 dir_part new_disk m ''d/'' (tm_files m) [] FileManager = Inr (True, s, fm)"
proof -
  let ?fm = "init_pieces m (FileManager\<lparr>fm_files := [\<lparr>tf_data = [], tf_pos = 0,
     tf_info = \<lparr>fi_path = ''n'', fi_index = 0, fi_begin = 0, fi_length = 4\<rparr>\<rparr>]\<rparr>)"
  have "scan_pieces sha1 m ?fm = Inr ?fm" by (rule scan_pieces_short) (simp add: init_pieces_def)
  moreover have "register_loop dir_part new_disk ''d/'' (tm_files m) [''d/''] (init_pieces m FileManager) =
      (True, [''d/n'', ''d/''], ?fm)"
    by (simp add: assms new_disk_def dir_part_def init_pieces_def FileManager_def Let_def)
  ultimately have "registerFiles sha1 dir_part new_disk m ''d/'' (tm_files m) [] FileManager = Inr (True, [''d/n'', ''d/''], ?fm)"
    by (simp add: registerFiles_def Let_def) (simp add: new_disk_def)
  then show ?thesis by blast
qed

lemma two_pieces_opened:
  obtains s t d bc where "torrent_open (\<lambda>_. replicate 5 hash) dir_part new_disk (replicate 12 9)
      (Some (benc (ADict two_pieces))) ''d'' [] Torrent = Inr (True, s, t)"
    "decode Bencode (map Some (benc (ADict two_pieces))) (length (benc (ADict two_pieces))) = Inr (d, bc)"
    "declared (entries_of (info_of d)) < 2 ^ 63" "sound_sizes (cl_meta (to_client t))"
    "length (fm_pieces (cl_fileManager (to_client t))) = 2" "fm_wf (cl_fileManager (to_client t))"
    "tm_sha1sums (cl_meta (to_client t)) = replicate 2 (replicate 5 0x68686868)" "tm_totalSize (cl_meta (to_client t)) = 4"
    "tm_pieceLength (cl_meta (to_client t)) = 2"
proof -
  let ?sha1 = "\<lambda>_. replicate 5 hash :: u32 list" and ?bytes = "benc (ADict two_pieces)"
  obtain m bc where dec: "decode Bencode (map Some ?bytes) (length ?bytes) = Inr (two_pieces, bc)"
    and "parse_data ?sha1 TorrentMeta (map Some ?bytes) (length ?bytes) = Inr (True, m)"
    using parse_complete [OF two_pieces_complete two_pieces_size] by blast
  then have int: "internalParse ?sha1 TorrentMeta two_pieces bc = Inr (True, m)"
    by (auto simp: parse_data_def split: if_splits)
  have parsed: "parse_file ?sha1 TorrentMeta (Some ?bytes) = Inr (True, m)"
    using dec int by (simp add: parse_file_def decode_file_def) (simp add: two_pieces_def)
  note meta = two_pieces_meta [OF int]
  have small: "declared (entries_of (info_of two_pieces)) < 2 ^ 63"
    by (simp add: two_pieces_def info_of_def entries_of_def dict_at_def map_find_def map_count_def cast_dictionary_def
        declared_def cast_uint64_def)
  have "length (tm_checkSum m) = 5" using parse_file_layout(4) [OF parsed dec small] by auto
  note hs = make_handshake_bytes [OF _ this, of "replicate 12 9"]
  obtain s fm where reg: "registerFiles ?sha1 dir_part new_disk m ''d/'' (tm_files m) [] FileManager = Inr (True, s, fm)"
    using two_pieces_registered [OF meta(1)] by blast
  have fm: "fm_inv ?sha1 m fm" "length (fm_pieces fm) = length (tm_sha1sums m)"
    using registered_new [OF _ _ _ _ _ _ _ _ _ reg] meta by (simp_all add: new_disk_def split: if_splits)
  define t where "t = Torrent\<lparr>to_client := (to_client Torrent)\<lparr>cl_meta := m,
    cl_handshake := handshake_bytes (tm_checkSum m) (replicate 12 9), cl_peerId := client_id @ replicate 12 9,
    cl_fileManager := fm\<rparr>\<rparr>"
  have "\<not> ends_with ''d'' ''/''" by (simp add: suffix_def)
  then have opened: "torrent_open ?sha1 dir_part new_disk (replicate 12 9) (Some ?bytes) ''d'' [] Torrent = Inr (True, s, t)"
    using parsed hs make_peerId_bytes [of "replicate 12 9"] reg
    by (simp add: torrent_open_def t_def Let_def Torrent_def)
  have "sound_sizes (cl_meta (to_client t))" using meta by (simp add: t_def sound_sizes_def)
  then show ?thesis
    using that opened dec small fm meta(2-4) by (simp add: t_def fm_inv_def)
qed


end
