(* ===== verification/Download.thy ===== *)
theory Download
  imports Robust
begin

text \<open>
  What the protocol of src/ctorrent/peer.cpp achieves: the requests for a piece, the blocks that come back,
  the handshake, and the bit field.
\<close>

section \<open>The requests for a piece\<close>

lemma blocks_of_tiles:
  assumes "0 < len"
  shows "blocks_of b len = map (\<lambda>j. (b + j * maxRequestSize, min maxRequestSize (len - j * maxRequestSize)))
    [0..<(len + (maxRequestSize - 1)) div maxRequestSize]"
  using assms
proof (induction b len rule: blocks_of.induct)
  case (1 b len)
  let ?m = maxRequestSize
  have m: "0 < ?m" by (simp add: maxRequestSize_def)
  show ?case
  proof (cases "?m < len")
    case True
    define r where "r = len - ?m"
    have r: "len = ?m + r" "0 < r" using True by (simp_all add: r_def)
    have "(len + (?m - 1)) div ?m = (?m + (r + (?m - 1))) div ?m" by (simp only: r(1) add.assoc)
    also have "\<dots> = Suc ((r + (?m - 1)) div ?m)" using m by (simp only: div_add_self1 Suc_eq_plus1 neq0_conv)
    finally have k: "(len + (?m - 1)) div ?m = Suc ((r + (?m - 1)) div ?m)" .
    have "blocks_of b len = (b, ?m) # blocks_of (b + ?m) r"
      using True by (subst blocks_of.simps) (simp add: r_def)
    also have "blocks_of (b + ?m) r = map (\<lambda>j. (b + ?m + j * ?m, min ?m (r - j * ?m))) [0..<(r + (?m - 1)) div ?m]"
      unfolding r_def by (rule 1(1) [OF True]) (use True in simp)
    finally show ?thesis
      unfolding k by (simp add: map_upt_Suc r(1) add.assoc del: upt_Suc)
  next
    case False
    have "len + (?m - 1) = ?m + (len - 1)" using 1(2) m by simp
    then have "(len + (?m - 1)) div ?m = (?m + (len - 1)) div ?m" by (rule arg_cong)
    also have "\<dots> = Suc ((len - 1) div ?m)" using m by (simp only: div_add_self1 Suc_eq_plus1 neq0_conv)
    also have "(len - 1) div ?m = 0" using False 1(2) by simp
    finally show ?thesis using False by (subst blocks_of.simps) simp
  qed
qed

text \<open>The blocks of a piece of \<open>n\<close> bytes: how many, and how long.\<close>

definition block_count :: "nat \<Rightarrow> nat" where
  "block_count n = (n + (maxRequestSize - 1)) div maxRequestSize"

definition block_length :: "nat \<Rightarrow> nat \<Rightarrow> nat" where
  "block_length n j = min maxRequestSize (n - j * maxRequestSize)"

lemma block_in:
  assumes "j < block_count n"
  shows "j * maxRequestSize < n"
proof -
  have "Suc j * maxRequestSize \<le> block_count n * maxRequestSize" using assms by (intro mult_le_mono1) simp
  also have "\<dots> \<le> n + (maxRequestSize - 1)" unfolding block_count_def by (rule div_times_less_eq_dividend)
  finally show ?thesis by (simp add: maxRequestSize_def)
qed

lemma block_length_pos: "j < block_count n \<Longrightarrow> 0 < block_length n j \<and> block_length n j \<le> maxRequestSize"
  using block_in [of j n] by (simp add: block_length_def maxRequestSize_def)

lemma block_count_covers: "n \<le> block_count n * maxRequestSize"
  unfolding block_count_def by (simp add: maxRequestSize_def)

text \<open>Cut into blocks and put together again, a piece is what it was.\<close>

definition chunk :: "'a list \<Rightarrow> nat \<Rightarrow> 'a list" where
  "chunk d j = take maxRequestSize (drop (j * maxRequestSize) d)"

lemma length_chunk: "length (chunk d j) = block_length (length d) j"
  by (simp add: chunk_def block_length_def min.commute)

lemma concat_chunks: "concat (map (chunk d) [0..<k]) = take (k * maxRequestSize) d"
proof (induction k)
  case (Suc k)
  have "Suc k * maxRequestSize = k * maxRequestSize + maxRequestSize" by simp
  with Suc show ?case by (simp only: take_add) (simp add: chunk_def)
qed simp

lemma concat_all_chunks: "concat (map (chunk d) [0..<block_count (length d)]) = d"
  using block_count_covers [of "length d"] by (simp add: concat_chunks)

lemma sum_block_lengths: "(\<Sum>j < block_count n. block_length n j) = n"
proof -
  have "n = length (concat (map (chunk (replicate n ())) [0..<block_count n]))"
    using concat_all_chunks [of "replicate n ()"] by simp
  also have "\<dots> = (\<Sum>j < block_count n. block_length n j)"
    by (simp add: length_concat comp_def length_chunk interv_sum_list_conv_sum_set_nat atLeast0LessThan)
  finally show ?thesis by simp
qed

lemma rfold_writes:
  "rfold (\<lambda>x. \<lambda>c. Inr (write_bytes p (f x) c)) xs c = Inr (fold (\<lambda>x. write_bytes p (f x)) xs c)"
  by (induction xs arbitrary: c) simp_all

lemma fold_write_net: "cl_net (fold (\<lambda>x. write_bytes p (f x)) xs c) = fold (conn_write p) (map f xs) (cl_net c)"
  by (induction xs arbitrary: c) (simp_all add: write_bytes_def)

lemma fold_write_store: "cl_store (fold (\<lambda>x. write_bytes p (f x)) xs c) = cl_store c"
  by (induction xs arbitrary: c) simp_all

lemma peer_is_set_interested:
  "isRemoteChoked p (sendInterested p c) = isRemoteChoked p c"
proof -
  have "test_bit (ucast (s OR 2 :: u8)) (ucast (4 :: u8)) = test_bit (ucast s) (ucast (4 :: u8))" for s :: u8
  proof -
    have "ucast (s OR 2) AND (4 :: u32) = ucast s AND 4"
      by (rule bit_word_eqI) (auto simp: bit_simps)
    then show ?thesis by (simp add: test_bit_def)
  qed
  then show ?thesis
    by (simp add: isRemoteChoked_def peer_is_def sendInterested_def set_state_def state_bits)
qed

lemma isRemoteChoked_queue [simp]:
  "isRemoteChoked p (upd_peer p (\<lambda>r. r\<lparr>pr_queue := f r\<rparr>) c) = isRemoteChoked p c"
  by (simp add: isRemoteChoked_def peer_is_def)

text \<open>A client whose peer has unchoked it.\<close>

definition open_client :: client where
  "open_client = set_state 0 (\<lambda>_. 1) sample_client"

lemma open_client_ok: "client_ok open_client"
  using later_set_state [OF sample_client_ok] by (simp add: open_client_def later_def)

text \<open>
  Property C20. Asking an unchoking peer for piece \<open>i\<close> writes, on its connection and in this order, an
  \<open>interested\<close> message and one \<open>request\<close> per block; the blocks start at the multiples of
  \<open>maxRequestSize\<close>, none is empty or longer than that, and their lengths add up to the size of the piece;
  a piece that expects as many blocks is queued.
\<close>

theorem piece_requests_tile_the_piece:
  assumes ok: "client_ok c" and p: "p < cl_next c" and i: "unat i < pieces c" and choked: "\<not> isRemoteChoked p c"
  defines "n \<equiv> piece_bytes (cl_meta c) (unat i)"
  shows "\<exists>c'. sendPieceRequest env p i c = Inr c' \<and>
    cl_net c' = fold (conn_write p) ([0, 0, 0, 1, MT_Interested] # map (\<lambda>j. request_bytes MT_Request i
      (of_nat (j * maxRequestSize)) (of_nat (block_length n j))) [0..<block_count n]) (cl_net c) \<and>
    pr_queue (the_peer p c') = pr_queue (the_peer p c) @ [\<lparr>qp_index = unat i, qp_currentBlocks = 0,
      qp_numBlocks = block_count n, qp_blocks = replicate (block_count n) new_block\<rparr>] \<and>
    (\<forall>j < block_count n. 0 < block_length n j \<and> block_length n j \<le> maxRequestSize) \<and>
    (\<Sum>j < block_count n. block_length n j) = n"
proof -
  note size = ok_pieceSize [OF ok i, folded n_def]
  have "unat (of_nat n :: u32) = n" using size(3) by (simp add: unat_of_nat)
  then have nb: "num_blocks (of_nat n) = block_count n" by (simp add: num_blocks_def block_count_def)
  let ?q = "\<lparr>qp_index = unat i, qp_currentBlocks = 0, qp_numBlocks = block_count n,
      qp_blocks = replicate (block_count n) new_block\<rparr>"
  define d where "d = upd_peer p (\<lambda>r. r\<lparr>pr_queue := pr_queue r @ [?q]\<rparr>) (sendInterested p c)"
  have d: "cl_meta d = cl_meta c" "cl_fileManager d = cl_fileManager c"
    "cl_net d = conn_write p [0, 0, 0, 1, MT_Interested] (cl_net c)"
    by (simp_all add: d_def sendInterested_def set_state_def write_bytes_def)
  have queue: "pr_queue (the_peer p d) = pr_queue (the_peer p c) @ [?q]"
    by (simp add: d_def sendInterested_def set_state_def)
  have open_d: "\<not> isRemoteChoked p d" using choked by (simp add: d_def peer_is_set_interested)
  let ?req = "\<lambda>(b, l). request_bytes MT_Request (of_nat (unat i)) (of_nat b) (of_nat l)"
  define e where "e = fold (\<lambda>x. write_bytes p (?req x)) (blocks_of 0 n) d"
  have "(\<lambda>(b, l). sendRequest p (of_nat (unat i)) (of_nat b) (of_nat l)) = (\<lambda>x c. Inr (write_bytes p (?req x) c))"
    by (auto simp: fun_eq_iff sendRequest_bytes)
  then have fold: "rfold (\<lambda>(b, l). sendRequest p (of_nat (unat i)) (of_nat b) (of_nat l)) (blocks_of 0 n) d = Inr e"
    unfolding e_def by (simp only: rfold_writes)
  have "peer_requestPiece env p (unat i) d = Inr e"
    using size(1) fold open_d d(1,2) by (simp add: peer_requestPiece_def)
  moreover have inter: "cl_meta (sendInterested p c) = cl_meta c" "cl_fileManager (sendInterested p c) = cl_fileManager c"
    by (simp_all add: sendInterested_def set_state_def)
  have "sendPieceRequest env p i c = (if \<not> isRemoteChoked p d then peer_requestPiece env p (unat i) d else Inr d)"
    using size(1) by (simp add: sendPieceRequest_def Let_def nb d_def inter)
  ultimately have "sendPieceRequest env p i c = Inr e" using open_d by simp
  moreover
  have "cl_net e = fold (conn_write p) ([0, 0, 0, 1, MT_Interested] # map (\<lambda>j. request_bytes MT_Request i
      (of_nat (j * maxRequestSize)) (of_nat (block_length n j))) [0..<block_count n]) (cl_net c)"
    unfolding e_def fold_write_net d(3)
    using blocks_of_tiles [OF size(2), of 0] by (simp add: comp_def block_count_def block_length_def)
  moreover have "the_peer p e = the_peer p d" by (simp add: e_def fold_write_store)
  ultimately show ?thesis
    using queue block_length_pos sum_block_lengths [of n] by auto
qed

lemma piece_requests_tile_the_piece_witness:
  "\<exists>c'. sendPieceRequest sample_env 0 0 open_client = Inr c' \<and>
    cl_net c' = fold (conn_write 0) [[0, 0, 0, 1, 2], request_bytes MT_Request 0 0 2] (cl_net open_client)"
proof -
  have two: "piece_bytes (cl_meta open_client) 0 = 2" "block_count 2 = 1" "block_length 2 0 = 2"
    by (simp_all add: open_client_def set_state_def sample_client_def piece_bytes_def sample_meta_def block_count_def
        block_length_def maxRequestSize_def)
  have "unat (0 :: u32) < pieces open_client" by (simp add: open_client_def set_state_def sample_client_def sample_pieces)
  moreover have "0 < cl_next open_client" by (simp add: open_client_def set_state_def sample_client_def)
  moreover have "\<not> isRemoteChoked 0 open_client" by (simp add: open_client_def) code_simp
  ultimately show ?thesis
    using piece_requests_tile_the_piece [OF open_client_ok, of 0 0 sample_env] two
    by (auto simp: MT_Interested_def)
qed



section \<open>The blocks of a piece\<close>

text \<open>The body of a \<open>piece\<close> message: block \<open>j\<close> of piece \<open>i\<close>, whose bytes are \<open>d\<close>.\<close>

definition block_msg :: "u32 \<Rightarrow> nat \<Rightarrow> u8 list \<Rightarrow> u8 list" where
  "block_msg i j d = be32 i @ be32 (of_nat (j * maxRequestSize)) @ chunk d j"

text \<open>The blocks of a queued piece after the blocks \<open>js\<close> have arrived.\<close>

definition arrived :: "u8 list \<Rightarrow> nat list \<Rightarrow> nat \<Rightarrow> queued_piece" where
  "arrived d js i = \<lparr>qp_index = i, qp_currentBlocks = length js, qp_numBlocks = block_count (length d),
     qp_blocks = map (\<lambda>j. if j \<in> set js then \<lparr>pb_size = length (chunk d j), pb_data = Some (map Some (chunk d j))\<rparr>
       else new_block) [0..<block_count (length d)]\<rparr>"

definition arrived_bytes :: "u8 list \<Rightarrow> nat list \<Rightarrow> u8 list" where
  "arrived_bytes d js = concat (map (\<lambda>j. if j \<in> set js then chunk d j else []) [0..<block_count (length d)])"

lemma piece_data_arrived: "piece_data (arrived d js i) = arrived_bytes d js"
proof -
  have "block_bytes \<lparr>pb_size = length (chunk d j), pb_data = Some (map Some (chunk d j))\<rparr> = chunk d j" for j
    by (simp add: block_bytes_def)
  moreover have "block_bytes new_block = []" by (simp add: block_bytes_def new_block_def)
  ultimately show ?thesis
    by (simp add: piece_data_def arrived_def arrived_bytes_def comp_def if_distrib [of block_bytes] cong: if_cong)
qed

lemma word_at_be32 [simp]: "word_at (be32 i @ x) 0 = i" "word_at (be32 i @ be32 b @ x) 4 = b"
  by (simp_all add: word_at_def be_value_images)

lemma put_block_arrived:
  assumes "j < block_count (length d)"
  shows "put_block j (length (chunk d j)) (Some (map Some (chunk d j))) (arrived d js i) = arrived d (js @ [j]) i"
  using assms by (auto simp: put_block_def arrived_def intro!: nth_equalityI simp: nth_list_update)

lemma find_replace_piece:
  "find_piece i q = Some r \<Longrightarrow> qp_index r' = i \<Longrightarrow> find_piece i (replace_piece r' q) = Some r'"
  by (induction q) (auto simp: find_piece_def split: if_splits)

lemma handle_body_block:
  assumes ok: "client_ok c" and len: "length d = piece_bytes (cl_meta c) (unat i)" and i: "unat i < pieces c"
    and j: "j < block_count (length d)" and new: "unat i \<notin> completed (cl_fileManager c)"
    and q: "find_piece (unat i) (pr_queue (the_peer p c)) = Some (arrived d js (unat i))"
  shows "handle_body env p (MT_PieceBlock # block_msg i j d) c =
    rbind (if Suc (length js) = block_count (length d) then finish_piece env p i (arrived d (js @ [j]) (unat i)) c
      else Inr (True, set_queue p (replace_piece (arrived d (js @ [j]) (unat i))) c))
      (\<lambda>(go, c). Inr (if go then peer_read p 4 OnLength c else c))"
proof -
  let ?bs = "block_msg i j d"
  have small: "length d < 2 ^ 32" using ok_pieceSize(3) [OF ok i] len by simp
  have jn: "j * maxRequestSize < length d" using block_in [OF j] .
  then have b: "unat (of_nat (j * maxRequestSize) :: u32) = j * maxRequestSize"
  proof -
    have "j * maxRequestSize < 2 ^ 32" using jn small by (rule less_trans)
    then show ?thesis by (simp add: unat_of_nat del: of_nat_mult)
  qed
  have m: "0 < maxRequestSize" by (simp add: maxRequestSize_def)
  have bl: "0 < length (chunk d j)" "length (chunk d j) \<le> maxRequestSize"
    using block_length_pos [OF j] by (simp_all add: length_chunk)
  have bs: "9 \<le> length ?bs" "length ?bs - 8 \<le> maxRequestSize" "length ?bs < 2 ^ 32" "drop 8 ?bs = chunk d j"
    using bl(2) by (simp_all add: block_msg_def maxRequestSize_def) (use bl(1) in linarith)
  have w: "word_at ?bs 0 = i" "unat (word_at ?bs 4) div maxRequestSize = j"
    using b m by (simp_all add: block_msg_def)
  have wf: "fm_wf (cl_fileManager c)" using ok by (simp add: client_ok_def fm_ok_def)
  have not_done: "piece_done (cl_fileManager c) (unat i) = Inr False"
    using fm_test(1) [OF wf i] i new by (simp add: piece_done_def)
  have n: "qp_numBlocks (arrived d x k) = block_count (length d)" "qp_currentBlocks (arrived d x k) = length x"
    "length (qp_blocks (arrived d x k)) = block_count (length d)" for x k
    by (simp_all add: arrived_def)
  have "on_piece_block env p (msg_at ?bs 0) c =
      (if Suc (length js) = block_count (length d) then finish_piece env p i (arrived d (js @ [j]) (unat i)) c
       else Inr (True, set_queue p (replace_piece (arrived d (js @ [j]) (unat i))) c))"
    unfolding on_piece_block_msg [OF bs(1-3)] Let_def w bs(4)
    using q j not_done put_block_arrived [OF j, of js "unat i"] by (simp add: n)
  moreover have "sub64 (length (MT_PieceBlock # ?bs)) 1 = length ?bs"
    using bs(3) by (simp add: sub64_small)
  ultimately show ?thesis
    by (simp add: handle_body_def load_def handleMessage_def InputMessage_msg dispatch_def message_types)
qed

definition deliver :: "env \<Rightarrow> nat \<Rightarrow> u32 \<Rightarrow> u8 list \<Rightarrow> nat list \<Rightarrow> client \<Rightarrow> client res" where
  "deliver env p i d js c = rfold (\<lambda>j. handle_body env p (MT_PieceBlock # block_msg i j d)) js c"

lemma block_msg_length:
  assumes "client_ok c" "unat i < pieces c" "length d = piece_bytes (cl_meta c) (unat i)"
  shows "length (MT_PieceBlock # block_msg i j d) < 2 ^ 32"
proof -
  have "length (chunk d j) \<le> maxRequestSize" by (simp add: chunk_def)
  then show ?thesis by (simp add: block_msg_def maxRequestSize_def)
qed

text \<open>All blocks but the last.\<close>

lemma deliver_collects:
  assumes "client_ok c" "p < cl_next c" "length d = piece_bytes (cl_meta c) (unat i)" "unat i < pieces c"
    and "unat i \<notin> completed (cl_fileManager c)"
    and "find_piece (unat i) (pr_queue (the_peer p c)) = Some (arrived d [] (unat i))"
  shows "set js \<subseteq> {..<block_count (length d)} \<Longrightarrow> length js < block_count (length d) \<Longrightarrow>
    \<exists>c'. deliver env p i d js c = Inr c' \<and> later c c' \<and> cl_fileManager c' = cl_fileManager c \<and>
      cl_wastedBytes c' = cl_wastedBytes c \<and> cl_hashMisses c' = cl_hashMisses c \<and>
      find_piece (unat i) (pr_queue (the_peer p c')) = Some (arrived d js (unat i))"
proof (induction js rule: rev_induct)
  case Nil
  then show ?case using assms by (simp add: deliver_def later_refl)
next
  case (snoc j js)
  then obtain c1 where c1: "deliver env p i d js c = Inr c1" "later c c1" "cl_fileManager c1 = cl_fileManager c"
    "cl_wastedBytes c1 = cl_wastedBytes c" "cl_hashMisses c1 = cl_hashMisses c"
    "find_piece (unat i) (pr_queue (the_peer p c1)) = Some (arrived d js (unat i))" by auto
  have ok1: "client_ok c1" "cl_meta c1 = cl_meta c" "cl_next c1 = cl_next c" using c1(2) by (simp_all add: later_def)
  let ?c2 = "peer_read p 4 OnLength (set_queue p (replace_piece (arrived d (js @ [j]) (unat i))) c1)"
  have body: "handle_body env p (MT_PieceBlock # block_msg i j d) c1 = Inr ?c2"
    using handle_body_block [OF ok1(1), of d i j p js env] assms c1 ok1 snoc.prems by simp
  have "steps c1 (handle_body env p (MT_PieceBlock # block_msg i j d) c1)"
    using block_msg_length [OF assms(1,4,3)] assms(2) ok1 by (intro steps_handle_body) simp_all
  then have "later c1 ?c2" by (simp add: body steps_def)
  then have "later c ?c2" by (rule later_trans [OF c1(2)])
  moreover have "cl_fileManager ?c2 = cl_fileManager c1" "cl_wastedBytes ?c2 = cl_wastedBytes c1" "cl_hashMisses ?c2 = cl_hashMisses c1"
    by (simp_all add: peer_read_def set_queue_def upd_peer_def)
  moreover have "find_piece (unat i) (pr_queue (the_peer p ?c2)) = Some (arrived d (js @ [j]) (unat i))"
    using find_replace_piece [OF c1(6)] by (simp add: peer_read_def set_queue_def arrived_def)
  ultimately show ?case
    using c1 body by (simp add: deliver_def rfold_append)
qed

section \<open>The last block\<close>

lemma isLocalChoked_sendChoke: "isLocalChoked p (sendChoke p c)"
proof -
  have "ucast (s OR 1) AND (1 :: u32) = 1" for s :: u8
    by (rule bit_word_eqI) (auto simp: bit_simps)
  then show ?thesis
    by (simp add: isLocalChoked_def peer_is_def sendChoke_def set_state_def state_bits test_bit_def)
qed

lemma sendRequests_frame:
  assumes "rfold (\<lambda>(b, l). sendRequest p x (f b) (g l)) xs c = Inr c'"
  shows "cl_fileManager c' = cl_fileManager c"
  by (rule rfold_inv [OF assms, where P = "\<lambda>c'. cl_fileManager c' = cl_fileManager c"])
    (auto simp: sendRequest_bytes)

lemma sendPieceRequest_fm:
  assumes "sendPieceRequest env p i c = Inr c'"
  shows "cl_fileManager c' = cl_fileManager c"
  using assms sendRequests_frame
  by (fastforce simp: sendPieceRequest_def peer_requestPiece_def Let_def sendInterested_def set_state_def
      peer_handleError_def removePeer_def disconnect_def elim!: rbindE split: if_splits)

text \<open>Asking for another piece changes priorities only.\<close>

lemma requestPiece_fm:
  assumes ok: "client_ok c" and r: "requestPiece env p c = Inr c'"
  shows "cl_fileManager c' = cl_fileManager c \<or> (\<exists>j v. cl_fileManager c' = set_pri (cl_fileManager c) j v)"
proof -
  have wf: "fm_wf (cl_fileManager c)" using ok by (simp add: client_ok_def fm_ok_def)
  obtain j fm where j: "get_next_piece (cl_fileManager c) (hasPiece p c) = Inr (j, fm)" "cl_fileManager c' = fm"
    using r sendPieceRequest_fm by (fastforce simp: requestPiece_def Let_def elim!: rbindE split: if_splits)
  have "fm = cl_fileManager c \<or> (\<exists>k v. fm = set_pri (cl_fileManager c) k v \<and> 0 \<le> v \<and> v \<le> INT32_MAX)"
    by (rule next_piece_loop_pri [OF wf j(1) [unfolded get_next_piece_def]]) simp_all
  then show ?thesis using j(2) by auto
qed

lemma finish_piece_result:
  assumes ok: "client_ok c" and p: "p < cl_next c" and i: "unat i < pieces c"
    and q: "length (qp_blocks q) = qp_numBlocks q" "qp_numBlocks q \<le> 2 ^ 18" "\<forall>b \<in> set (qp_blocks q). block_ok b"
    and new: "unat i \<notin> pending_set (cl_fileManager c)"
  shows "\<exists>c'. finish_piece env p i q c = Inr (True, c') \<and>
    (if memcmp5 (en_sha1 env (piece_data q)) (pc_hash (fm_pieces (cl_fileManager c) ! unat i))
     then unat i \<in> pending_set (cl_fileManager c') \<and>
       (\<exists>w. fm_writeRequests (cl_fileManager c') = fm_writeRequests (cl_fileManager c) @ [w] \<and>
         wr_index w = unat i \<and> db_bytes (wr_data w) = Inr (piece_data q))
     else cl_fileManager c' = cl_fileManager c \<and> isLocalChoked p c' \<and>
       cl_wastedBytes c' = add64 (cl_wastedBytes c) (length (piece_data q)) \<and>
       cl_hashMisses c' = add64 (cl_hashMisses c) 1)"
proof -
  let ?good = "memcmp5 (en_sha1 env (piece_data q)) (pc_hash (fm_pieces (cl_fileManager c) ! unat i))"
  obtain buf where buf: "assemble q = Inr buf" "db_holds buf (piece_data q)" "db_bytes buf = Inr (piece_data q)"
    using assemble_holds [OF q] db_holds_bytes by blast
  define d where "d = set_queue p (erase_piece (unat i)) c"
  have d: "later c d" unfolding d_def using ok by (rule later_erase_piece)
  have same: "cl_fileManager d = cl_fileManager c" "cl_wastedBytes d = cl_wastedBytes c" "cl_hashMisses d = cl_hashMisses c"
    by (simp_all add: d_def set_queue_def upd_peer_def)
  have wf: "fm_wf (cl_fileManager c)" using ok by (simp add: client_ok_def fm_ok_def)
  obtain fm where w: "writePieceBlock (en_sha1 env) (cl_fileManager c) (unat i) (peer_ip env p d) buf = Inr (?good, fm)"
    and fm: "if ?good then pending_set fm = insert (unat i) (pending_set (cl_fileManager c)) \<and>
       fm_writeRequests fm = fm_writeRequests (cl_fileManager c) @ [\<lparr>wr_index = unat i, wr_from = peer_ip env p d, wr_data = buf\<rparr>] \<and>
       fm_readRequests fm = fm_readRequests (cl_fileManager c) \<and> completed fm = completed (cl_fileManager c) \<and>
       fm_stopped fm = fm_stopped (cl_fileManager c)
     else fm = cl_fileManager c"
    using writePieceBlock_result [OF wf i new buf(3), of "en_sha1 env" "peer_ip env p d"] by blast
  obtain b fm2 where "writePieceBlock (en_sha1 env) (cl_fileManager d) (unat i) (peer_ip env p d) buf = Inr (b, fm2)"
    "fm_ok (cl_meta d) fm2" "length (fm_pieces fm2) = pieces d"
    using writePieceBlock_ok [OF _ buf(3)] later_ok [OF d] by (metis client_ok_def)
  then have d1: "later d (d\<lparr>cl_fileManager := fm\<rparr>)"
    using w same(1) by (intro later_file_manager [OF later_ok [OF d]]) simp_all
  show ?thesis
  proof (cases ?good)
    case True
    let ?e = "d\<lparr>cl_fileManager := fm\<rparr>"
    have e: "client_ok ?e" "p < cl_next ?e" using d d1 p by (simp_all add: later_def)
    obtain fin where fin: "isFinished ?e = Inr fin" using isFinished_ok [OF e(1)] by (auto simp: succeeds_iff)
    obtain c' where c': "(if \<not> fin then requestPiece env p ?e else Inr ?e) = Inr c'"
      using steps_torrent_requestPiece [OF e, of env] by (cases fin) (auto simp: steps_def)
    have "cl_fileManager c' = fm \<or> (\<exists>j v. cl_fileManager c' = set_pri fm j v)"
      using c' requestPiece_fm [OF e(1)] by (auto split: if_splits)
    then have "pending_set (cl_fileManager c') = pending_set fm" "fm_writeRequests (cl_fileManager c') = fm_writeRequests fm"
      by (auto simp: set_pri_frame)
    moreover have "finish_piece env p i q c = Inr (True, c')"
      using buf(1) w True fin c' same(1)
      by (simp add: finish_piece_def handlePieceCompleted_def d_def [symmetric])
    ultimately show ?thesis using True fm buf(3) by auto
  next
    case False
    let ?e = "d\<lparr>cl_fileManager := fm, cl_wastedBytes := add64 (cl_wastedBytes c) (length (piece_data q)),
      cl_hashMisses := add64 (cl_hashMisses c) 1\<rparr>"
    have "finish_piece env p i q c = Inr (True, sendChoke p ?e)"
      using buf(1) w False same db_holds_size [OF buf(2)]
      by (simp add: finish_piece_def handlePieceCompleted_def d_def [symmetric])
    moreover have "isLocalChoked p (sendChoke p ?e)" by (rule isLocalChoked_sendChoke)
    ultimately show ?thesis
      using False fm by (simp add: sendChoke_def set_state_def write_bytes_def upd_peer_def)
  qed
qed


section \<open>Properties of the transfer\<close>

lemma deliver_all:
  assumes ok: "client_ok c" "p < cl_next c" and d: "length d = piece_bytes (cl_meta c) (unat i)" and i: "unat i < pieces c"
    and new: "unat i \<notin> completed (cl_fileManager c)" "unat i \<notin> pending_set (cl_fileManager c)"
    and q: "find_piece (unat i) (pr_queue (the_peer p c)) = Some (arrived d [] (unat i))"
    and js: "set js \<subseteq> {..<block_count (length d)}" "length js = block_count (length d)"
  shows "\<exists>c'. deliver env p i d js c = Inr c' \<and>
    (if memcmp5 (en_sha1 env (arrived_bytes d js)) (pc_hash (fm_pieces (cl_fileManager c) ! unat i))
     then unat i \<in> pending_set (cl_fileManager c') \<and>
       (\<exists>w. fm_writeRequests (cl_fileManager c') = fm_writeRequests (cl_fileManager c) @ [w] \<and>
         wr_index w = unat i \<and> db_bytes (wr_data w) = Inr (arrived_bytes d js))
     else cl_fileManager c' = cl_fileManager c \<and> isLocalChoked p c' \<and>
       cl_wastedBytes c' = add64 (cl_wastedBytes c) (length (arrived_bytes d js)) \<and>
       cl_hashMisses c' = add64 (cl_hashMisses c) 1)"
proof -
  have "0 < length d" using ok_pieceSize(2) [OF ok(1) i] d by simp
  then have "0 < block_count (length d)" using block_count_covers [of "length d"] by (intro Nat.gr0I) simp
  then obtain ks j where ks: "js = ks @ [j]" using js(2) by (cases js rule: rev_cases) auto
  obtain c1 where c1: "deliver env p i d ks c = Inr c1" "later c c1" "cl_fileManager c1 = cl_fileManager c"
    "cl_wastedBytes c1 = cl_wastedBytes c" "cl_hashMisses c1 = cl_hashMisses c"
    "find_piece (unat i) (pr_queue (the_peer p c1)) = Some (arrived d ks (unat i))"
    using deliver_collects [OF ok d i new(1) q, of ks env] js by (auto simp: ks)
  have ok1: "client_ok c1" "p < cl_next c1" "cl_meta c1 = cl_meta c" using c1(2) ok(2) by (simp_all add: later_def)
  let ?q = "arrived d js (unat i)"
  have "piece_ok (pieces c1) (arrived d ks (unat i))"
    using queue_ok [OF ok1(1,2) find_piece_Some(1) [OF c1(6)]] .
  then have small: "qp_numBlocks ?q \<le> 2 ^ 18" by (simp add: piece_ok_def arrived_def)
  have blocks: "length (qp_blocks ?q) = qp_numBlocks ?q" "\<forall>b \<in> set (qp_blocks ?q). block_ok b"
    using block_length_pos by (auto simp: arrived_def block_ok_def new_block_def length_chunk)
  obtain c2 where c2: "finish_piece env p i ?q c1 = Inr (True, c2)"
    "if memcmp5 (en_sha1 env (piece_data ?q)) (pc_hash (fm_pieces (cl_fileManager c1) ! unat i))
     then unat i \<in> pending_set (cl_fileManager c2) \<and>
       (\<exists>w. fm_writeRequests (cl_fileManager c2) = fm_writeRequests (cl_fileManager c1) @ [w] \<and>
         wr_index w = unat i \<and> db_bytes (wr_data w) = Inr (piece_data ?q))
     else cl_fileManager c2 = cl_fileManager c1 \<and> isLocalChoked p c2 \<and>
       cl_wastedBytes c2 = add64 (cl_wastedBytes c1) (length (piece_data ?q)) \<and>
       cl_hashMisses c2 = add64 (cl_hashMisses c1) 1"
    using finish_piece_result [OF ok1(1,2) _ blocks(1) small blocks(2), of i env] i new(2) c1(3) by auto
  have "handle_body env p (MT_PieceBlock # block_msg i j d) c1 = Inr (peer_read p 4 OnLength c2)"
    using handle_body_block [OF ok1(1), of d i j p ks env] d i new(1) c1(3,6) js ok1(3) c2(1) by (simp add: ks)
  then have "deliver env p i d js c = Inr (peer_read p 4 OnLength c2)"
    using c1(1) by (simp add: deliver_def ks rfold_append)
  moreover have "isLocalChoked p (peer_read p 4 OnLength c2) = isLocalChoked p c2"
    by (simp add: isLocalChoked_def peer_is_def peer_read_def)
  ultimately show ?thesis
    using c2(2) unfolding piece_data_arrived c1(3-5)
    by (intro exI [of _ "peer_read p 4 OnLength c2"]) (simp add: peer_read_def)
qed

lemma arrived_bytes_all:
  assumes "set js = {..<block_count (length d)}"
  shows "arrived_bytes d js = d"
proof -
  have "map (\<lambda>j. if j \<in> set js then chunk d j else []) [0..<block_count (length d)] = map (chunk d) [0..<block_count (length d)]"
    using assms by (intro map_cong) auto
  then have "arrived_bytes d js = concat (map (chunk d) [0..<block_count (length d)])"
    unfolding arrived_bytes_def by (rule arg_cong)
  then show ?thesis by (simp only: concat_all_chunks)
qed

lemma concat_all_empty: "j \<notin> set xs \<Longrightarrow> concat (map (\<lambda>x. if x = j then y else []) xs) = []"
  by (induction xs) auto

lemma upt_at: "j < (k :: nat) \<Longrightarrow> [0..<k] = [0..<j] @ j # [Suc j..<k]"
  using upt_add_eq_append [of 0 j "k - j"] by (simp add: upt_conv_Cons)

text \<open>A client that has asked its peer for the first piece, of two bytes.\<close>

definition asked_client :: client where
  "asked_client = set_queue 0 (\<lambda>_. [arrived [5, 6] [] 0]) sample_client"

lemma asked_client_ok: "client_ok asked_client"
proof -
  have "piece_ok 2 (arrived [5, 6] [] 0)"
    by (simp add: piece_ok_def arrived_def block_count_def maxRequestSize_def block_ok_def new_block_def)
  then have "later sample_client asked_client"
    unfolding asked_client_def set_queue_def
    by (intro later_upd_peer sample_client_ok) (simp add: peer_ok_def sample_client_def sample_pieces)
  then show ?thesis by (rule later_ok)
qed

lemma asked_client_state:
  "0 < cl_next asked_client" "length [5, 6 :: u8] = piece_bytes (cl_meta asked_client) (unat (0 :: u32))"
  "unat (0 :: u32) < pieces asked_client" "unat (0 :: u32) \<notin> completed (cl_fileManager asked_client)"
  "unat (0 :: u32) \<notin> pending_set (cl_fileManager asked_client)"
  "find_piece (unat (0 :: u32)) (pr_queue (the_peer 0 asked_client)) = Some (arrived [5, 6] [] (unat (0 :: u32)))"
  "pc_hash (fm_pieces (cl_fileManager asked_client) ! unat (0 :: u32)) = [7]"
  "block_count (length [5, 6 :: u8]) = 1"
  by (simp_all add: asked_client_def set_queue_def sample_client_def piece_bytes_def sample_meta_def sample_pieces
      find_piece_def arrived_def block_count_def maxRequestSize_def)

text \<open>
  Property C8. A piece survives the transfer: if a peer sends the blocks of a queued piece in any order,
  each once, and the digest of the piece is the expected one, the message handlers succeed and the piece
  is queued for the disk with exactly its bytes.
\<close>

theorem blocks_in_any_order_reassemble:
  assumes "client_ok c" "p < cl_next c" "length d = piece_bytes (cl_meta c) (unat i)" "unat i < pieces c"
    and "unat i \<notin> completed (cl_fileManager c)" "unat i \<notin> pending_set (cl_fileManager c)"
    and "find_piece (unat i) (pr_queue (the_peer p c)) = Some (arrived d [] (unat i))"
    and "distinct js" "set js = {..<block_count (length d)}"
    and "en_sha1 env d = pc_hash (fm_pieces (cl_fileManager c) ! unat i)"
  shows "\<exists>c' w. deliver env p i d js c = Inr c' \<and> unat i \<in> pending_set (cl_fileManager c') \<and>
    fm_writeRequests (cl_fileManager c') = fm_writeRequests (cl_fileManager c) @ [w] \<and>
    wr_index w = unat i \<and> db_bytes (wr_data w) = Inr d"
proof -
  have "length js = block_count (length d)" using assms(8,9) distinct_card by fastforce
  then show ?thesis
    using deliver_all [OF assms(1-7), of js env] assms(9,10) arrived_bytes_all [OF assms(9)]
    by (auto simp: memcmp5_def)
qed

lemma blocks_in_any_order_reassemble_witness:
  "\<exists>c' w. deliver sample_env 0 0 [5, 6] [0] asked_client = Inr c' \<and> unat (0 :: u32) \<in> pending_set (cl_fileManager c') \<and>
    fm_writeRequests (cl_fileManager c') = fm_writeRequests (cl_fileManager asked_client) @ [w] \<and>
    wr_index w = unat (0 :: u32) \<and> db_bytes (wr_data w) = Inr [5, 6]"
proof (rule blocks_in_any_order_reassemble [OF asked_client_ok asked_client_state(1-6)])
  show "set [0 :: nat] = {..<block_count (length [5, 6 :: u8])}" unfolding asked_client_state(8) by auto
  show "en_sha1 sample_env [5, 6] = pc_hash (fm_pieces (cl_fileManager asked_client) ! unat (0 :: u32))"
    unfolding asked_client_state(7) by (simp add: sample_env_def)
qed simp


text \<open>
  Property C37. Blocks are counted, not checked off: a peer that sends one block of a piece as often as the
  piece has blocks completes it; what is hashed then is that single block, and when its digest is not that
  of the piece the block is thrown away, the miss is counted, and the peer is choked.
\<close>

theorem repeated_block_completes_piece:
  assumes "client_ok c" "p < cl_next c" "length d = piece_bytes (cl_meta c) (unat i)" "unat i < pieces c"
    and "unat i \<notin> completed (cl_fileManager c)" "unat i \<notin> pending_set (cl_fileManager c)"
    and "find_piece (unat i) (pr_queue (the_peer p c)) = Some (arrived d [] (unat i))"
    and "j < block_count (length d)"
    and "\<not> memcmp5 (en_sha1 env (chunk d j)) (pc_hash (fm_pieces (cl_fileManager c) ! unat i))"
  shows "\<exists>c'. deliver env p i d (replicate (block_count (length d)) j) c = Inr c' \<and>
    cl_fileManager c' = cl_fileManager c \<and> isLocalChoked p c' \<and>
    cl_wastedBytes c' = add64 (cl_wastedBytes c) (block_length (length d) j) \<and>
    cl_hashMisses c' = add64 (cl_hashMisses c) 1"
proof -
  let ?k = "block_count (length d)" and ?js = "replicate (block_count (length d)) j"
  have js: "set ?js = {j}" using assms(8) by simp
  have "arrived_bytes d ?js = concat (map (\<lambda>x. if x = j then chunk d j else []) [0..<?k])"
    unfolding arrived_bytes_def js by (intro arg_cong [of _ _ concat] map_cong) auto
  then have "arrived_bytes d ?js = chunk d j"
    unfolding upt_at [OF assms(8)] map_append concat_append by (simp add: concat_all_empty)
  then show ?thesis
    using deliver_all [OF assms(1-7), of ?js env] assms(8,9) js by (auto simp: length_chunk)
qed

lemma repeated_block_completes_piece_witness:
  "\<exists>c'. deliver (sample_env\<lparr>en_sha1 := \<lambda>_. [8]\<rparr>) 0 0 [5, 6] (replicate (block_count (length [5, 6 :: u8])) 0) asked_client = Inr c' \<and>
    cl_fileManager c' = cl_fileManager asked_client \<and> isLocalChoked 0 c' \<and>
    cl_wastedBytes c' = add64 (cl_wastedBytes asked_client) (block_length (length [5, 6 :: u8]) 0) \<and>
    cl_hashMisses c' = add64 (cl_hashMisses asked_client) 1"
proof (rule repeated_block_completes_piece [OF asked_client_ok asked_client_state(1-6)])
  show "0 < block_count (length [5, 6 :: u8])" unfolding asked_client_state(8) by simp
  show "\<not> memcmp5 (en_sha1 (sample_env\<lparr>en_sha1 := \<lambda>_. [8]\<rparr>) (chunk [5, 6] 0))
      (pc_hash (fm_pieces (cl_fileManager asked_client) ! unat (0 :: u32)))"
    unfolding asked_client_state(7) by (simp add: memcmp5_def le32_def be32_def)
qed



section \<open>The messages of one client at another\<close>

lemma handle_length:
  "handle env p (be32 n) c = Inr (if n = 0 then peer_read p 4 OnLength c else peer_read p (unat n) OnMessage c)"
proof -
  have "length (be32 n) = 4" "be32 n = be32 n @ []" by simp_all
  then have "readBE32 (map Some (be32 n)) 0 = Inr n"
    using readBE32_word_at [of 0 "be32 n"] word_at_be32(1) [of n "[]"] by simp
  then show ?thesis by (simp add: handle_def)
qed

lemma three_words [simp]:
  "word_at (be32 i @ be32 b @ be32 l) 0 = i" "word_at (be32 i @ be32 b @ be32 l) 4 = b"
  "word_at (be32 i @ be32 b @ be32 l) 8 = l"
  by (simp_all add: word_at_def be_value_images)

lemma request_split: "take 4 (request_bytes t i b l) = be32 13" "drop 4 (request_bytes t i b l) = t # be32 i @ be32 b @ be32 l"
  by (simp_all add: request_bytes_def) (simp add: be32_def)

text \<open>
  Property C21. A request survives the wire: its first four bytes make the receiver wait for the other
  thirteen, and from those an unchoked, interested peer is served the very block that was asked for: the
  file manager is asked for it, an accepted block is remembered, and a refused one chokes the peer; the
  receiver then waits for the next message.
\<close>

theorem request_is_understood:
  assumes "isRemoteInterested p c" "\<not> isLocalChoked p c" "unat l \<le> maxRequestSize"
  shows "sendRequest q i b l d = Inr (write_bytes q (request_bytes MT_Request i b l) d) \<and>
    handle env p (take 4 (request_bytes MT_Request i b l)) c = Inr (peer_read p 13 OnMessage c) \<and>
    handle_body env p (drop 4 (request_bytes MT_Request i b l)) c =
      rbind (handleRequestBlock env p i b l c) (\<lambda>(accepted, c). Inr (peer_read p 4 OnLength
        (if accepted then upd_peer p (\<lambda>r. r\<lparr>pr_requestedBlocks := pr_requestedBlocks r @
           [\<lparr>bi_index = unat i, bi_begin = unat b, bi_length = unat l\<rparr>]\<rparr>) c
         else sendChoke p c)))"
proof -
  let ?bs = "be32 i @ be32 b @ be32 l"
  have len: "length ?bs = 12" by simp
  have "sub64 (length (MT_Request # ?bs)) 1 = length ?bs" by (simp add: sub64_small)
  then have body: "handle_body env p (MT_Request # ?bs) c = handleMessage env p MT_Request (msg_at ?bs 0) c"
    unfolding InputMessage_msg [symmetric] by (simp add: handle_body_def load_def)
  have "dispatch env p MT_Request (msg_at ?bs 0) c = on_request env p (msg_at ?bs 0) c"
    by (simp add: dispatch_def message_types)
  also have "\<dots> = rbind (handleRequestBlock env p i b l c) (\<lambda>(accepted, c).
      if \<not> accepted then Inr (True, sendChoke p c)
      else Inr (True, upd_peer p (\<lambda>r. r\<lparr>pr_requestedBlocks := pr_requestedBlocks r @
        [\<lparr>bi_index = unat i, bi_begin = unat b, bi_length = unat l\<rparr>]\<rparr>) c))"
    unfolding on_request_def get_three_msg [OF len] three_words using assms len by simp
  finally have "handleMessage env p MT_Request (msg_at ?bs 0) c =
      rbind (handleRequestBlock env p i b l c) (\<lambda>(accepted, c). Inr (peer_read p 4 OnLength
        (if accepted then upd_peer p (\<lambda>r. r\<lparr>pr_requestedBlocks := pr_requestedBlocks r @
           [\<lparr>bi_index = unat i, bi_begin = unat b, bi_length = unat l\<rparr>]\<rparr>) c
         else sendChoke p c)))"
    unfolding handleMessage_def by (cases "handleRequestBlock env p i b l c") (auto split: prod.splits)
  then show ?thesis
    unfolding request_split body by (simp add: sendRequest_bytes handle_length)
qed

lemma request_is_understood_witness:
  "handle sample_env 0 (take 4 (request_bytes MT_Request 1 0 1)) (set_state 0 (\<lambda>_. 8) sample_client) =
    Inr (peer_read 0 13 OnMessage (set_state 0 (\<lambda>_. 8) sample_client))"
proof -
  let ?c = "set_state 0 (\<lambda>_. 8) sample_client"
  have "isRemoteInterested 0 ?c" "\<not> isLocalChoked 0 ?c" "unat (1 :: u32) \<le> maxRequestSize"
    by (simp_all add: isRemoteInterested_def isLocalChoked_def peer_is_def set_state_def state_bits test_bit_def maxRequestSize_def)
  from request_is_understood [OF this, of 0 1 0 sample_client sample_env] show ?thesis by blast
qed

section \<open>The bit field\<close>

lemma bitfield_bytes_stack:
  assumes "fm_wf fm" "i + k \<le> length (fm_pieces fm)" "bitfield_bytes env (fm_completedBits fm) i k = Inr bs"
  shows "\<forall>j < k. i + j \<notin> completed fm \<longrightarrow> bs ! j = en_stack env (i + j)"
  using assms(2,3)
proof (induction k arbitrary: i bs)
  case (Suc k)
  have "i < length (fm_pieces fm)" using Suc.prems by simp
  then have t: "bitset_test (fm_completedBits fm) i = Inr (i \<in> completed fm)"
    using fm_test(1) [OF assms(1)] by simp
  obtain x xs where xs: "bitfield_bytes env (fm_completedBits fm) (i + 1) k = Inr xs" "bs = x # xs"
    "i \<notin> completed fm \<Longrightarrow> x = en_stack env i"
    using Suc.prems(2) t by (cases "i \<in> completed fm") (auto elim!: rbindE)
  then have "\<forall>j < k. i + 1 + j \<notin> completed fm \<longrightarrow> xs ! j = en_stack env (i + 1 + j)"
    using Suc.IH [OF _ xs(1)] Suc.prems(1) by simp
  then show ?case using xs(2,3) by (auto simp: nth_Cons' less_Suc_eq_0_disj)
qed simp

text \<open>
  Property C38. The bit field a client sends is not the one of the protocol: it has a byte, not a bit, per
  piece, and the bytes of the pieces that are not completed are whatever the stack held.
\<close>

theorem bitfield_has_a_byte_per_piece:
  assumes "client_ok c" "bitset_count (fm_completedBits (cl_fileManager c)) \<noteq> Inr 0"
  shows "\<exists>bits. sendBitfield env p c = Inr (write_bytes p (be32 (of_nat (1 + pieces c)) @ MT_Bitfield # bits) c) \<and>
    length bits = pieces c \<and> (\<forall>i < pieces c. i \<notin> completed (cl_fileManager c) \<longrightarrow> bits ! i = en_stack env i)"
proof -
  let ?b = "fm_completedBits (cl_fileManager c)"
  have fm: "fm_wf (cl_fileManager c)" "even (pieces c)" "0 < pieces c"
    using assms(1) geometry_pos(2) by (auto simp: client_ok_def fm_ok_def)
  then have size: "bs_size ?b = pieces c" by (simp add: fm_wf_def)
  obtain n where n: "bitset_count ?b = Inr n" "n \<noteq> 0"
    using bitset_count_result [of ?b] fm assms(2) by (auto simp: fm_wf_def)
  obtain bs where bs: "bitfield_bytes env ?b 0 (pieces c) = Inr bs" "length bs = pieces c"
    using bitfield_bytes_ok [OF fm(1), of 0 "pieces c"] by auto
  then have "bs \<noteq> []" using fm(3) by auto
  then have "sendBitfield env p c = Inr (write_bytes p (be32 (of_nat (1 + pieces c)) @ MT_Bitfield # bs) c)"
    using n bs by (simp add: sendBitfield_def peer_sendBitfield_bytes Let_def size)
  then show ?thesis
    using bitfield_bytes_stack [OF fm(1) _ bs(1)] bs(2) by auto
qed

text \<open>A client that has the first of its two pieces.\<close>

definition half_client :: client where
  "half_client = sample_client\<lparr>cl_fileManager := sample_fm\<lparr>fm_completedBits := \<lparr>bs_bits = [1, 0], bs_size = 2\<rparr>\<rparr>\<rparr>"

lemma half_client_ok: "client_ok half_client"
  using sample_client_ok
  by (simp add: half_client_def client_ok_def fm_ok_def fm_wf_def geometry_def bitset_wf_def sample_client_def sample_pieces)

lemma bitfield_has_a_byte_per_piece_witness:
  "\<exists>bits. sendBitfield sample_env 0 half_client =
      Inr (write_bytes 0 (be32 (of_nat (1 + pieces half_client)) @ MT_Bitfield # bits) half_client) \<and>
    length bits = pieces half_client \<and>
    (\<forall>i < pieces half_client. i \<notin> completed (cl_fileManager half_client) \<longrightarrow> bits ! i = en_stack sample_env i)"
proof (rule bitfield_has_a_byte_per_piece [OF half_client_ok])
  show "bitset_count (fm_completedBits (cl_fileManager half_client)) \<noteq> Inr 0"
    by (simp add: half_client_def) code_simp
qed

end
