(* ===== verification/Session.thy ===== *)
theory Session
  imports Torrent Download
begin

text \<open>
  A running torrent: the network thread (peers, trackers, accepted connections) and the worker of the file
  manager, one event at a time, with the callbacks from the worker to the torrent
  (src/ctorrent/torrentfilemanager.cpp 265 to 299, 330 to 363 and src/ctorrent/torrent.cpp 354 to 374).
\<close>

section \<open>The worker and the torrent\<close>

definition on_event :: "env \<Rightarrow> fm_event \<Rightarrow> client \<Rightarrow> client res" where
  "on_event env e c =
     (case e of
        PieceWriteComplete from index \<Rightarrow> onPieceWriteComplete env from index c
      | PieceReadComplete from index begin block n \<Rightarrow> onPieceReadComplete from index begin block n c)"

text \<open>The loops of \<open>thread\<close>, with the callback that \<open>std::async\<close> runs before \<open>process_write\<close> or
  \<open>process_read\<close> returns.\<close>

fun session_writes :: "env \<Rightarrow> (file_info \<Rightarrow> nat \<Rightarrow> nat) \<Rightarrow> write_request list \<Rightarrow> client \<Rightarrow> client res" where
  "session_writes env accept [] c = Inr c"
| "session_writes env accept (w # ws) c =
     rbind (process_write (cl_meta c) accept (cl_fileManager c) w) (\<lambda>(e, fm).
     rbind (on_event env e (c\<lparr>cl_fileManager := fm\<rparr>)) (\<lambda>c.
       session_writes env accept ws (c\<lparr>cl_fileManager := (cl_fileManager c)\<lparr>fm_writeRequests := ws\<rparr>\<rparr>)))"

fun session_reads :: "env \<Rightarrow> read_request list \<Rightarrow> client \<Rightarrow> client res" where
  "session_reads env [] c = Inr c"
| "session_reads env (r # rs) c =
     rbind (process_read (cl_meta c) (cl_fileManager c) r) (\<lambda>res.
       case res of None \<Rightarrow> Inr c
       | Some (e, fm) \<Rightarrow>
           rbind (on_event env e (c\<lparr>cl_fileManager := fm\<rparr>)) (\<lambda>c.
             session_reads env rs (c\<lparr>cl_fileManager := (cl_fileManager c)\<lparr>fm_readRequests := rs\<rparr>\<rparr>)))"

definition session_worker :: "env \<Rightarrow> (file_info \<Rightarrow> nat \<Rightarrow> nat) \<Rightarrow> client \<Rightarrow> client res" where
  "session_worker env accept c =
     (if fm_stopped (cl_fileManager c) then Inr c
      else rbind (session_writes env accept (fm_writeRequests (cl_fileManager c)) c) (\<lambda>c.
        session_reads env (fm_readRequests (cl_fileManager c)) c))"

section \<open>What the network does to the file manager\<close>

inductive fm_moves :: "(u8 list \<Rightarrow> u32 list) \<Rightarrow> torrent_meta \<Rightarrow> file_manager \<Rightarrow> file_manager \<Rightarrow> bool"
  for sha1 meta where
  Stay: "fm_moves sha1 meta fm fm"
| Block: "fm_moves sha1 meta fm fm1 \<Longrightarrow> requestPieceBlock meta fm1 index from begin n = Inr (b, fm2) \<Longrightarrow>
    fm_moves sha1 meta fm fm2"
| Piece: "fm_moves sha1 meta fm fm1 \<Longrightarrow> writePieceBlock sha1 fm1 index from data = Inr (b, fm2) \<Longrightarrow>
    fm_moves sha1 meta fm fm2"
| Choice: "fm_moves sha1 meta fm fm1 \<Longrightarrow> get_next_piece fm1 f = Inr (i, fm2) \<Longrightarrow> fm_moves sha1 meta fm fm2"

lemma fm_moves_trans:
  assumes "fm_moves sha1 meta fm1 fm2"
  shows "fm_moves sha1 meta fm fm1 \<Longrightarrow> fm_moves sha1 meta fm fm2"
  using assms by (induction rule: fm_moves.induct) (blast intro: fm_moves.intros)+

text \<open>The peers of the swarm exist.\<close>

definition swarm :: "client \<Rightarrow> nat set" where
  "swarm c = snd ` set (cl_peers c)"

definition known_peers :: "client \<Rightarrow> bool" where
  "known_peers c \<longleftrightarrow> swarm c \<subseteq> {..<cl_next c}"

definition moves :: "env \<Rightarrow> client \<Rightarrow> client \<Rightarrow> bool" where
  "moves env c c' \<longleftrightarrow> cl_meta c' = cl_meta c \<and> cl_next c' = cl_next c \<and> (known_peers c \<longrightarrow> known_peers c') \<and>
     fm_moves (en_sha1 env) (cl_meta c) (cl_fileManager c) (cl_fileManager c')"

definition same :: "client \<Rightarrow> client \<Rightarrow> bool" where
  "same c c' \<longleftrightarrow> cl_meta c' = cl_meta c \<and> cl_fileManager c' = cl_fileManager c \<and> cl_next c' = cl_next c \<and>
     swarm c' \<subseteq> swarm c"

lemma same_refl [simp]: "same c c"
  by (simp add: same_def)

lemma same_trans: "same c c1 \<Longrightarrow> same c1 c2 \<Longrightarrow> same c c2"
  by (auto simp: same_def)

lemma moves_same: "same c c' \<Longrightarrow> moves env c c'"
  by (auto simp: same_def moves_def known_peers_def intro: fm_moves.Stay)

lemma moves_refl [simp]: "moves env c c"
  by (simp add: moves_same)

lemma moves_trans: "moves env c c1 \<Longrightarrow> moves env c1 c2 \<Longrightarrow> moves env c c2"
  unfolding moves_def using fm_moves_trans by fastforce

lemma moves_then_same: "moves env c c1 \<Longrightarrow> same c1 c2 \<Longrightarrow> moves env c c2"
  by (rule moves_trans [OF _ moves_same])

lemma same_sel [simp]:
  "same c (upd_peer p f d) = same c d" "same c (write_bytes p bs d) = same c d" "same c (set_state p g d) = same c d"
  "same c (peer_read p n cb d) = same c d"
  "same c (sendChoke p d) = same c d" "same c (sendUnchoke p d) = same c d" "same c (sendInterested p d) = same c d"
  "same c (set_queue p h d) = same c d" "same c (d\<lparr>cl_downloadedBytes := n\<rparr>) = same c d"
  "same c (d\<lparr>cl_uploadedBytes := n\<rparr>) = same c d" "same c (d\<lparr>cl_net := nt\<rparr>) = same c d"
  "same c (disconnect p d) = same c d" "same c (d\<lparr>cl_wastedBytes := n\<rparr>) = same c d" "same c (d\<lparr>cl_hashMisses := n\<rparr>) = same c d"
  by (simp_all add: same_def set_state_def disconnect_def peer_read_def sendChoke_def
      sendUnchoke_def sendInterested_def set_queue_def swarm_def Let_def)

lemma same_handleError [simp]: "same c (peer_handleError env p c)"
  by (auto simp: peer_handleError_def removePeer_def same_def disconnect_def map_erase_def swarm_def)

lemma same_from [simp]:
  "same (upd_peer p f c) d = same c d" "same (set_state p g c) d = same c d" "same (sendInterested p c) d = same c d"
  "same (set_queue p h c) d = same c d" "same (write_bytes p bs c) d = same c d"
  "same (c\<lparr>cl_downloadedBytes := n\<rparr>) d = same c d"
  by (simp_all add: same_def set_state_def sendInterested_def set_queue_def swarm_def Let_def)

lemma known_sel [simp]:
  "known_peers (upd_peer p f c) = known_peers c" "known_peers (write_bytes p bs c) = known_peers c"
  "known_peers (c\<lparr>cl_fileManager := fm\<rparr>) = known_peers c" "known_peers (c\<lparr>cl_net := nt\<rparr>) = known_peers c"
  "swarm (c\<lparr>cl_fileManager := fm\<rparr>) = swarm c"
  by (simp_all add: known_peers_def swarm_def)

lemma moves_sel [simp]:
  "moves env c (upd_peer p f d) = moves env c d"
  "moves env c (sendChoke p d) = moves env c d" "moves env c (peer_read p n cb d) = moves env c d"
  by (simp_all add: moves_def sendChoke_def set_state_def peer_read_def)

lemma moves_handleError [simp]: "moves env c (peer_handleError env' p c)"
  by (simp add: moves_same)

lemma same_write_message: "write_message p m c = Inr c' \<Longrightarrow> same c c'"
  by (auto simp: write_message_def elim!: rbindE)

lemma same_fold:
  assumes "rfold f xs c = Inr c'" "\<And>x d d'. f x d = Inr d' \<Longrightarrow> same d d'"
  shows "same c c'"
  by (rule rfold_inv [OF assms(1), where P = "same c"]) (auto intro: same_trans dest: assms(2))

lemma same_sends:
  "sendRequest p i b l c = Inr c' \<Longrightarrow> same c c'" "sendCancel p i b l c = Inr c' \<Longrightarrow> same c c'"
  "sendHave p i c = Inr c' \<Longrightarrow> same c c'" "sendPieceBlock p i b m n c = Inr c' \<Longrightarrow> same c c'"
  "peer_sendBitfield p bs c = Inr c' \<Longrightarrow> same c c'"
  by (auto simp: sendRequest_def sendCancel_def sendHave_def sendPieceBlock_def peer_sendBitfield_def
      dest: same_write_message split: if_splits)

lemma same_requestPiece: "peer_requestPiece env p i c = Inr c' \<Longrightarrow> same c c'"
  by (auto simp: peer_requestPiece_def elim!: rbindE split: if_splits intro: same_fold same_sends)

lemma same_cancelPiece: "cancelPiece p q c = Inr c' \<Longrightarrow> same c c'"
  by (auto simp: cancelPiece_def elim!: rbindE intro: same_fold same_sends)

lemma same_sendPieceRequest: "sendPieceRequest env p i c = Inr c' \<Longrightarrow> same c c'"
  by (auto simp: sendPieceRequest_def Let_def elim!: rbindE split: if_splits dest!: same_requestPiece)

lemma same_set_peer_bit: "set_peer_bit p i c = Inr c' \<Longrightarrow> same c c'"
  by (auto simp: set_peer_bit_def elim!: rbindE)

lemma same_sendBitfield: "sendBitfield env p c = Inr c' \<Longrightarrow> same c c'"
  by (auto simp: sendBitfield_def Let_def elim!: rbindE split: if_splits dest: same_sends)

lemma moves_request:
  assumes "requestPiece env p c = Inr c'"
  shows "moves env c c'"
proof -
  obtain i fm where fm: "get_next_piece (cl_fileManager c) (hasPiece p c) = Inr (i, fm)"
    "same (c\<lparr>cl_fileManager := fm\<rparr>) c'"
    using assms same_sendPieceRequest
    by (fastforce simp: requestPiece_def Let_def elim!: rbindE split: if_splits)
  then show ?thesis
    using fm_moves.Choice [OF fm_moves.Stay fm(1)] by (auto simp: same_def moves_def known_peers_def)
qed


lemma moves_finish_piece:
  assumes "finish_piece env p i q c = Inr (b, c')"
  shows "moves env c c'"
proof -
  let ?d = "set_queue p (erase_piece (unat i)) c"
  obtain data ok fm where w: "writePieceBlock (en_sha1 env) (cl_fileManager ?d) (unat i) (peer_ip env p ?d) data = Inr (ok, fm)"
    and c': "same (?d\<lparr>cl_fileManager := fm\<rparr>) c' \<or> requestPiece env p (?d\<lparr>cl_fileManager := fm\<rparr>) = Inr c'"
    using assms by (fastforce simp: finish_piece_def handlePieceCompleted_def elim!: rbindE split: if_splits)
  have "cl_meta ?d = cl_meta c" "cl_fileManager ?d = cl_fileManager c" "cl_next ?d = cl_next c"
    "known_peers ?d = known_peers c" by (simp_all add: set_queue_def)
  then have m: "moves env c (?d\<lparr>cl_fileManager := fm\<rparr>)"
    using fm_moves.Piece [OF fm_moves.Stay w] by (simp add: moves_def)
  show ?thesis
    using c' moves_trans [OF m moves_request] moves_trans [OF m moves_same] by blast
qed

lemma same_bits: "rfold (bitfield_step buf p) xs c = Inr c' \<Longrightarrow> same c c'"
  by (erule same_fold) (auto simp: bitfield_step_def elim!: rbindE split: prod.splits if_splits dest: same_set_peer_bit)

lemma moves_from_same: "same c d \<Longrightarrow> moves env d c' \<Longrightarrow> moves env c c'"
  by (auto simp: same_def moves_def known_peers_def)

lemma moves_on_request: "on_request env p m c = Inr (b, c') \<Longrightarrow> moves env c c'"
proof -
  assume r: "on_request env p m c = Inr (b, c')"
  have answered: "moves env c d" if "handleRequestBlock env p i j l c = Inr (ok, d)" for i j l ok d
    using that fm_moves.Block [OF fm_moves.Stay] by (auto simp: handleRequestBlock_def moves_def elim!: rbindE)
  show ?thesis
    using r by (auto simp: on_request_def elim!: rbindE split: if_splits dest!: answered)
qed

lemma moves_on_piece_block:
  assumes "on_piece_block env p m c = Inr (b, c')"
  shows "moves env c c'"
  using assms
  by (auto simp: on_piece_block_def Let_def moves_same elim!: rbindE split: if_splits option.splits
      dest!: same_cancelPiece moves_finish_piece)

lemma moves_dispatch:
  assumes "dispatch env p t m c = Inr (b, c')"
  shows "moves env c c'"
proof -
  have simple: "on_choke env p m c = Inr (b, c') \<Longrightarrow> same c c'" "on_interested env p m c = Inr (b, c') \<Longrightarrow> same c c'"
    "on_not_interested env p m c = Inr (b, c') \<Longrightarrow> same c c'" "on_have env p m c = Inr (b, c') \<Longrightarrow> same c c'"
    "on_cancel env p m c = Inr (b, c') \<Longrightarrow> same c c'" "on_port env p m c = Inr (b, c') \<Longrightarrow> same c c'"
    by (auto simp: on_choke_def on_interested_def on_not_interested_def on_have_def on_cancel_def on_port_def Let_def
        elim!: rbindE split: if_splits dest: same_set_peer_bit)
  have unchoke: "on_unchoke env p m c = Inr (b, c') \<Longrightarrow> same c c'"
    by (auto simp: on_unchoke_def Let_def elim!: rbindE split: if_splits dest!: same_fold intro: same_requestPiece)
  have bits: "on_bitfield env p m c = Inr (b, c') \<Longrightarrow> moves env c c'"
    by (auto simp: on_bitfield_def elim!: rbindE split: if_splits
        dest!: same_bits moves_request intro: moves_same moves_from_same)
  show ?thesis
    using assms simple unchoke bits moves_on_request moves_on_piece_block moves_same
    unfolding dispatch_def by (auto split: if_splits)
qed

lemma snd_umap_put: "snd ` set (umap_put k v d) \<subseteq> insert v (snd ` set d)"
  by (induction k v d rule: umap_put.induct) auto

lemma moves_join:
  assumes "p < cl_next c"
  shows "moves env c (addPeer env' p c)" "moves env c (c\<lparr>cl_peers := umap_put ip p (cl_peers c)\<rparr>)"
proof -
  have put: "swarm (d\<lparr>cl_peers := umap_put k p (cl_peers c)\<rparr>) \<subseteq> insert p (swarm c)" for k d
    using snd_umap_put [of k p "cl_peers c"] by (simp add: swarm_def)
  have keep: "swarm (c\<lparr>cl_blacklisted := b\<rparr>) = swarm c" for b by (simp add: swarm_def)
  show "moves env c (addPeer env' p c)" "moves env c (c\<lparr>cl_peers := umap_put ip p (cl_peers c)\<rparr>)"
    using assms put keep
    by (auto simp: moves_def known_peers_def addPeer_def Let_def intro: fm_moves.Stay dest: subsetD [OF put])
qed

lemma moves_read:
  assumes "on_read env p cb data c = Inr c'" "p < cl_next c"
  shows "moves env c c'"
proof (cases cb)
  case OnConnectHandshake
  let ?d = "upd_peer p (\<lambda>r. r\<lparr>pr_peerId := handshake_id data\<rparr>) c"
  have "moves env c (addPeer env p ?d)"
    using moves_trans [OF moves_same moves_join(1)] assms(2) by simp
  then show ?thesis
    using assms OnConnectHandshake moves_trans [OF _ moves_same]
    by (auto simp: on_read_def connect_handshake_def Let_def elim!: rbindE split: if_splits dest!: same_sendBitfield)
next
  case OnVerifyHandshake
  let ?d = "write_bytes p (cl_handshake c) (upd_peer p (\<lambda>r. r\<lparr>pr_peerId := handshake_id data\<rparr>) c)"
  have d: "moves env c ?d" by (rule moves_same) simp
  have "moves env c (?d\<lparr>cl_peers := umap_put ip p (cl_peers ?d)\<rparr>)" for ip
    by (rule moves_trans [OF d moves_join(2)]) (use assms(2) in simp)
  moreover have "same c c' \<or> (\<exists>e. c' = peer_read p 4 OnLength e \<and> (same ?d e \<or>
      (\<exists>ip. same (?d\<lparr>cl_peers := umap_put ip p (cl_peers ?d)\<rparr>) e)))"
    using assms OnVerifyHandshake
    by (auto simp: on_read_def verify_handshake_def handleNewPeer_def Let_def elim!: rbindE split: if_splits
        dest: same_sendBitfield)
  ultimately show ?thesis
    by (elim disjE exE conjE) (auto simp del: same_from intro: moves_same moves_then_same [OF d] moves_then_same)
next
  case OnLength
  then show ?thesis
    using assms by (auto simp: on_read_def handle_def elim!: rbindE split: if_splits)
next
  case OnMessage
  then show ?thesis
    using assms moves_dispatch
    by (fastforce simp: on_read_def handle_body_def handleMessage_def elim!: rbindE)
qed

section \<open>Moves keep the file manager consistent\<close>

text \<open>Every piece in the write queue has the length of its piece. (Peers decide how long their blocks are;
  what they send is checked by its hash only.)\<close>

definition right_sizes :: "torrent_meta \<Rightarrow> file_manager \<Rightarrow> bool" where
  "right_sizes meta fm \<longleftrightarrow> (\<forall>w \<in> set (fm_writeRequests fm). db_size (wr_data w) = piece_bytes meta (wr_index w))"

lemma requestPieceBlock_queue:
  "requestPieceBlock meta fm i frm b n = Inr (ok, fm') \<Longrightarrow> fm_writeRequests fm' = fm_writeRequests fm"
  by (auto simp: requestPieceBlock_def push_read_def Let_def elim!: rbindE split: if_splits)

lemma writePieceBlock_queue:
  "writePieceBlock sha1 fm i frm data = Inr (ok, fm') \<Longrightarrow>
    fm' = fm \<or> fm_writeRequests fm' = fm_writeRequests fm @ [\<lparr>wr_index = i, wr_from = frm, wr_data = data\<rparr>]"
  by (auto simp: writePieceBlock_def push_write_def elim!: rbindE split: if_splits)

lemma next_piece_queue:
  "next_piece_loop fm f js index p = Inr (i, fm') \<Longrightarrow> fm_writeRequests fm' = fm_writeRequests fm"
  by (induction js arbitrary: index p) (auto simp: set_pri_frame Let_def elim!: rbindE split: if_splits)

lemma fm_moves_inv:
  "fm_moves sha1 meta fm fm' \<Longrightarrow> fm_inv sha1 meta fm \<Longrightarrow>
    set (fm_writeRequests fm) \<subseteq> set (fm_writeRequests fm') \<and>
    (right_sizes meta fm' \<longrightarrow> fm_inv sha1 meta fm' \<and> completed fm' = completed fm)"
proof (induction rule: fm_moves.induct)
  case (Block fm fm1 i frm b n ok fm2)
  then show ?case
    using requestPieceBlock_queue [OF Block.hyps(2)] requestPieceBlock_frame [OF Block.hyps(2)]
    by (auto simp: right_sizes_def)
next
  case (Piece fm fm1 i frm data ok fm2)
  from writePieceBlock_queue [OF Piece.hyps(2)] show ?case
    using Piece.IH [OF Piece.prems] writePieceBlock_inv [OF Piece.hyps(2)]
    by (auto simp: right_sizes_def)
next
  case (Choice fm fm1 f i fm2)
  then have "fm_writeRequests fm2 = fm_writeRequests fm1"
    using next_piece_queue by (simp add: get_next_piece_def)
  then show ?case
    using Choice.IH [OF Choice.prems] get_next_piece_inv [OF Choice.hyps(2)] by (auto simp: right_sizes_def)
qed simp

section \<open>The invariant of a session\<close>

definition session_ok :: "env \<Rightarrow> client \<Rightarrow> bool" where
  "session_ok env c \<longleftrightarrow> client_ok c \<and> known_peers c \<and> fm_inv (en_sha1 env) (cl_meta c) (cl_fileManager c)"

abbreviation got :: "client \<Rightarrow> nat set" where
  "got c \<equiv> completed (cl_fileManager c)"

lemma session_read:
  assumes "session_ok env c" "p < cl_next c" "length data < 2 ^ 32" "cb = OnMessage \<longrightarrow> data \<noteq> []"
    and "on_read env p cb data c = Inr c'" "right_sizes (cl_meta c') (cl_fileManager c')"
  shows "session_ok env c' \<and> got c' = got c"
proof -
  have "client_ok c'"
    using steps_on_read [OF _ assms(2-4), of env] assms(1,5) by (simp add: session_ok_def steps_def later_def)
  then show ?thesis
    using moves_read [OF assms(5,2)] fm_moves_inv assms(1,6) by (auto simp: moves_def session_ok_def)
qed

text \<open>A change that leaves metadata and files alone.\<close>

definition undisturbed :: "client \<Rightarrow> client \<Rightarrow> bool" where
  "undisturbed c c' \<longleftrightarrow> cl_meta c' = cl_meta c \<and> cl_fileManager c' = cl_fileManager c \<and>
     (client_ok c \<longrightarrow> client_ok c') \<and> (known_peers c \<longrightarrow> known_peers c')"

lemma undisturbed_refl [simp]: "undisturbed c c"
  by (simp add: undisturbed_def)

lemma undisturbed_trans: "undisturbed c d \<Longrightarrow> undisturbed d e \<Longrightarrow> undisturbed c e"
  by (simp add: undisturbed_def)

lemma session_undisturbed: "undisturbed c c' \<Longrightarrow> session_ok env c \<Longrightarrow> session_ok env c' \<and> got c' = got c"
  by (simp add: undisturbed_def session_ok_def)

lemma undisturbed_sel [simp]:
  "undisturbed c (write_bytes p bs c)" "undisturbed c (peer_read p n cb c)" "undisturbed c (peer_handleError env p c)"
  "undisturbed c (c\<lparr>cl_net := nt\<rparr>)" "undisturbed c (c\<lparr>cl_uploadedBytes := n\<rparr>)" "undisturbed c (c\<lparr>cl_downloadedBytes := n\<rparr>)"
  by (auto simp: undisturbed_def client_ok_def peer_read_def peer_handleError_def removePeer_def disconnect_def
      known_peers_def swarm_def map_erase_def)

lemma undisturbed_fold:
  assumes "rfold f xs c = Inr c'" "\<And>x d d'. f x d = Inr d' \<Longrightarrow> undisturbed d d'"
  shows "undisturbed c c'"
  by (rule rfold_inv [OF assms(1), where P = "undisturbed c"]) (auto intro: undisturbed_trans dest: assms(2))

lemma undisturbed_event:
  assumes "on_event env e c = Inr c'"
  shows "undisturbed c c'"
proof (cases e)
  case (PieceWriteComplete frm i)
  then obtain n where "rfold (\<lambda>(_, q) c. if peer_ip env q c \<noteq> frm
      then rbind (hasPiece q c i) (\<lambda>h. if h then Inr c else sendHave q (of_nat i) c) else Inr c)
      (cl_peers c) (c\<lparr>cl_downloadedBytes := n\<rparr>) = Inr c'"
    using assms by (auto simp: on_event_def onPieceWriteComplete_def elim!: rbindE)
  then have "undisturbed (c\<lparr>cl_downloadedBytes := n\<rparr>) c'"
    by (rule undisturbed_fold) (auto simp: sendHave_bytes elim!: rbindE split: if_splits)
  then show ?thesis by (rule undisturbed_trans [OF undisturbed_sel(6)])
next
  case (PieceReadComplete frm i b block n)
  then obtain d p bs where "c' = c \<or> d = write_bytes p bs c \<and> c' = d\<lparr>cl_uploadedBytes := add64 (cl_uploadedBytes d) n\<rparr>"
    using assms by (fastforce simp: on_event_def onPieceReadComplete_def sendPieceBlock_def write_message_def
        elim!: rbindE split: option.splits)
  then show ?thesis using undisturbed_trans [OF undisturbed_sel(1) undisturbed_sel(5)] by auto
qed

section \<open>The worker in a session\<close>

lemma session_files:
  assumes "session_ok env c" "fm_inv (en_sha1 env) (cl_meta c) (fm\<lparr>fm_writeRequests := ws\<rparr>)"
    and "fm_pieces fm = fm_pieces (cl_fileManager c)"
  shows "client_ok (c\<lparr>cl_fileManager := fm\<rparr>)" "known_peers (c\<lparr>cl_fileManager := fm\<rparr>)"
proof -
  have "fm_wf fm" "geometry (cl_meta c) fm"
    using assms(2) by (simp_all add: fm_inv_def fm_wf_def geometry_def)
  then show "client_ok (c\<lparr>cl_fileManager := fm\<rparr>)"
    using assms(1,3) by (simp add: session_ok_def client_ok_def fm_ok_def)
  show "known_peers (c\<lparr>cl_fileManager := fm\<rparr>)" using assms(1) by (simp add: session_ok_def)
qed

lemma event_runs:
  assumes "client_ok c" "known_peers c" "i < pieces c"
  shows "succeeds (on_event env (PieceWriteComplete frm i) c)"
proof -
  have "fm_wf (cl_fileManager c)" "even (pieces c)" using assms(1) by (simp_all add: client_ok_def fm_ok_def)
  then have "succeeds (completed_pieces (cl_fileManager c))"
    using bitset_count_result [of "fm_completedBits (cl_fileManager c)"]
    by (simp add: completed_pieces_def fm_wf_def)
  moreover have fold: "succeeds (rfold (\<lambda>(_, q) c. if peer_ip env q c \<noteq> frm
      then rbind (hasPiece q c i) (\<lambda>h. if h then Inr c else sendHave q (of_nat i) c) else Inr c) ps d)"
    if "later c d" "snd ` set ps \<subseteq> swarm c" for ps d
    using that
  proof (induction ps arbitrary: d)
    case Nil
    then show ?case by simp
  next
    case (Cons x ps)
    obtain ip q where x: "x = (ip, q)" by (cases x)
    have d: "client_ok d" "cl_next d = cl_next c" "pieces d = pieces c" using Cons.prems(1) by (simp_all add: later_def)
    have "q < cl_next d" using Cons.prems(2) assms(2) d(2) by (auto simp: x known_peers_def)
    then obtain h where h: "hasPiece q d i = Inr h"
      using hasPiece_ok [OF d(1)] assms(3) d(3) by (auto simp: succeeds_iff)
    have "later d (write_bytes q bs d)" for bs by (rule later_write_bytes [OF d(1)])
    then have "later c (write_bytes q bs d)" for bs using later_trans Cons.prems(1) by blast
    then show ?case
      using Cons.IH Cons.prems h by (auto simp: x sendHave_bytes)
  qed
  have "later c (c\<lparr>cl_downloadedBytes := n\<rparr>)" for n
    using assms(1) by (simp add: later_def client_ok_def)
  from fold [OF this, of "cl_peers c"]
  have "succeeds (rfold (\<lambda>(_, q) c. if peer_ip env q c \<noteq> frm
      then rbind (hasPiece q c i) (\<lambda>h. if h then Inr c else sendHave q (of_nat i) c) else Inr c)
      (cl_peers c) (c\<lparr>cl_downloadedBytes := n\<rparr>))" for n
    by (simp add: swarm_def)
  ultimately show ?thesis
    using ok_pieceSize(1) [OF assms(1,3)]
    by (auto simp: on_event_def onPieceWriteComplete_def succeeds_iff swarm_def)
qed

lemma session_writes_ok:
  assumes "accepts_all accept"
  shows "session_ok env c \<Longrightarrow> fm_writeRequests (cl_fileManager c) = ws \<Longrightarrow>
    \<exists>c'. session_writes env accept ws c = Inr c' \<and> session_ok env c' \<and> cl_meta c' = cl_meta c \<and>
      got c' = got c \<union> set (map wr_index ws) \<and> fm_writeRequests (cl_fileManager c') = []"
proof (induction ws arbitrary: c)
  case Nil
  then show ?case by simp
next
  case (Cons w ws)
  let ?sha1 = "en_sha1 env" and ?meta = "cl_meta c" and ?fm = "cl_fileManager c" and ?i = "wr_index w"
  have inv: "fm_inv ?sha1 ?meta ?fm" using Cons.prems(1) by (simp add: session_ok_def)
  obtain fm where fm: "process_write ?meta accept ?fm w = Inr (PieceWriteComplete (wr_from w) ?i, fm)"
    "fm_inv ?sha1 ?meta (fm\<lparr>fm_writeRequests := ws\<rparr>)" "completed fm = insert ?i (completed ?fm)"
    "fm_pieces fm = fm_pieces ?fm"
    by (rule process_write_queued [OF inv Cons.prems(2) assms]) blast
  note ok = session_files [OF Cons.prems(1) fm(2,4)]
  have "?i < length (fm_pieces fm)" using inv Cons.prems(2) fm(4) by (simp add: fm_inv_def queued_def)
  then obtain d where d: "on_event env (PieceWriteComplete (wr_from w) ?i) (c\<lparr>cl_fileManager := fm\<rparr>) = Inr d"
    using event_runs [OF ok] by (simp add: succeeds_iff) blast
  note q = undisturbed_event [OF d]
  let ?d = "d\<lparr>cl_fileManager := (cl_fileManager d)\<lparr>fm_writeRequests := ws\<rparr>\<rparr>"
  have d_fm: "cl_meta d = ?meta" "cl_fileManager d = fm" "client_ok d" "known_peers d"
    using q ok by (simp_all add: undisturbed_def)
  have "client_ok ?d" using d_fm(3) by (simp add: client_ok_def fm_ok_def fm_wf_def geometry_def)
  then have "session_ok env ?d" using d_fm fm(2) by (simp add: session_ok_def)
  from Cons.IH [OF this] show ?case
    using fm(1,3) d d_fm by auto
qed

lemma session_reads_ok:
  "session_reads env rs c = Inr c' \<Longrightarrow> session_ok env c \<Longrightarrow> session_ok env c' \<and> got c' = got c \<and> cl_meta c' = cl_meta c"
proof (induction rs arbitrary: c)
  case Nil
  then show ?case by simp
next
  case (Cons r rs)
  show ?case
  proof (cases "c' = c")
    case False
    then obtain e fm d where e: "process_read (cl_meta c) (cl_fileManager c) r = Inr (Some (e, fm))"
      "on_event env e (c\<lparr>cl_fileManager := fm\<rparr>) = Inr d"
      "session_reads env rs (d\<lparr>cl_fileManager := (cl_fileManager d)\<lparr>fm_readRequests := rs\<rparr>\<rparr>) = Inr c'"
      using Cons.prems(1) by (auto elim!: rbindE split: option.splits)
    let ?d = "d\<lparr>cl_fileManager := (cl_fileManager d)\<lparr>fm_readRequests := rs\<rparr>\<rparr>"
    from e(1) obtain files where fm: "fm = (cl_fileManager c)\<lparr>fm_files := files\<rparr>" "same_files files (fm_files (cl_fileManager c))"
      by (auto simp: process_read_def Let_def elim!: rbindE split: option.splits dest!: read_from_files_same)
    have inv: "fm_inv (en_sha1 env) (cl_meta c) fm"
      using same_files_inv [OF _ fm(2)] Cons.prems(2) by (simp add: fm session_ok_def)
    have fm_same: "fm_pieces fm = fm_pieces (cl_fileManager c)" "completed fm = got c" by (simp_all add: fm)
    have "fm_inv (en_sha1 env) (cl_meta c) (fm\<lparr>fm_writeRequests := fm_writeRequests fm\<rparr>)" using inv by simp
    note ok = session_files [OF Cons.prems(2) this fm_same(1)]
    have d: "cl_meta d = cl_meta c" "cl_fileManager d = fm" "client_ok d" "known_peers d"
      using undisturbed_event [OF e(2)] ok by (simp_all add: undisturbed_def)
    have "client_ok ?d" using d(3) by (simp add: client_ok_def fm_ok_def fm_wf_def geometry_def)
    then have "session_ok env ?d" using d inv by (simp add: session_ok_def)
    then show ?thesis using Cons.IH [OF e(3)] d fm_same by simp
  qed (use Cons.prems in simp)
qed

lemma session_worker_ok:
  assumes "session_worker env accept c = Inr c'" "session_ok env c" "accepts_all accept"
  shows "session_ok env c' \<and> got c \<subseteq> got c' \<and> cl_meta c' = cl_meta c"
proof (cases "fm_stopped (cl_fileManager c)")
  case True
  then show ?thesis using assms by (simp add: session_worker_def)
next
  case False
  obtain d where d: "session_writes env accept (fm_writeRequests (cl_fileManager c)) c = Inr d" "session_ok env d"
    "cl_meta d = cl_meta c" "got c \<subseteq> got d"
    using session_writes_ok [OF assms(3,2) refl] by blast
  then show ?thesis using assms(1) False session_reads_ok by (fastforce simp: session_worker_def)
qed

section \<open>New peers and trackers\<close>

lemma make_peer_ok:
  assumes "client_ok c" "known_peers c"
  shows "client_ok (snd (make_peer c))" "known_peers (snd (make_peer c))"
proof -
  have "peer_ok (pieces c) (Peer c)"
    by (simp add: peer_ok_def Peer_def total_pieces_def) (simp add: bitset_construct_def)
  then show "client_ok (snd (make_peer c))"
    using assms(1) by (auto simp: client_ok_def make_peer_def less_Suc_eq)
  show "known_peers (snd (make_peer c))"
    using assms(2) by (auto simp: known_peers_def swarm_def)
qed

text \<open>Dialling keeps the session in order.\<close>

definition dials :: "client \<Rightarrow> client \<Rightarrow> bool" where
  "dials c c' \<longleftrightarrow> cl_meta c' = cl_meta c \<and> cl_fileManager c' = cl_fileManager c \<and>
     (client_ok c \<and> known_peers c \<longrightarrow> client_ok c' \<and> known_peers c')"

lemma dials_refl [simp]: "dials c c"
  by (simp add: dials_def)

lemma dials_trans: "dials c d \<Longrightarrow> dials d e \<Longrightarrow> dials c e"
  by (simp add: dials_def)

lemma session_dials: "dials c c' \<Longrightarrow> session_ok env c \<Longrightarrow> session_ok env c' \<and> got c' = got c"
  by (simp add: dials_def session_ok_def)

lemma dials_sel [simp]:
  "dials c (add_blacklisted ip d) = dials c d" "dials c (peer_connect p a b d) = dials c d"
  "dials c (snd (make_peer c))"
  "dials c (d\<lparr>cl_net := nt\<rparr>) = dials c d"
  using make_peer_ok [of c]
  by (simp_all add: dials_def client_ok_def known_peers_def swarm_def)

lemma dials_setId: "dials c d \<Longrightarrow> dials c (upd_peer p (\<lambda>r. r\<lparr>pr_peerId := i\<rparr>) d)"
  using later_peerId [of d p i] by (auto simp: dials_def later_def)

lemma dials_one:
  assumes "raw_connect_one peers i c = Inr c'"
  shows "dials c c'"
proof -
  from assms consider "c' = c"
    | ip p h q where "c' = add_blacklisted ip (peer_connect p h q (snd (make_peer c)))"
    by (auto simp: raw_connect_one_def case_prod_beta Let_def elim!: rbindE split: if_splits)
  then show ?thesis by cases simp_all
qed

lemma dials_loop: "raw_connect_loop peers n i c = Inr c' \<Longrightarrow> dials c c'"
proof (induction peers n i c arbitrary: c' rule: raw_connect_loop.induct)
  case (1 peers n i c)
  show ?case
  proof (cases "i < n")
    case True
    then obtain d where d: "raw_connect_one peers i c = Inr d" "raw_connect_loop peers n (i + 6) d = Inr c'"
      using 1(2) by (subst (asm) raw_connect_loop.simps) (auto elim!: rbindE)
    then show ?thesis using dials_trans dials_one 1(1) [OF True] by blast
  next
    case False
    then show ?thesis using 1(2) by (subst (asm) raw_connect_loop.simps) simp
  qed
qed

lemma dials_info:
  assumes "rawConnectPeer d c = Inr c'"
  shows "dials c c'"
proof -
  from assms consider "c' = c"
    | ip p h q i where "c' = add_blacklisted ip (peer_connect p h q (upd_peer p (\<lambda>r. r\<lparr>pr_peerId := i\<rparr>) (snd (make_peer c))))"
    by (auto simp: rawConnectPeer_def case_prod_beta Let_def elim!: rbindE split: if_splits)
  then show ?thesis by cases (simp_all add: dials_setId)
qed

lemma dials_infos: "connect_infos vs c = Inr c' \<Longrightarrow> dials c c'"
proof (induction vs arbitrary: c)
  case (Cons v vs)
  show ?case
  proof (cases "rbind (any_dictionary v) (\<lambda>peerInfo. rawConnectPeer peerInfo c)")
    case (Inl e)
    then show ?thesis using Cons.prems by (auto split: if_splits)
  next
    case (Inr d)
    then have "dials c d" by (auto elim!: rbindE dest: dials_info)
    then show ?thesis using Cons.IH Cons.prems Inr dials_trans by fastforce
  qed
qed simp

lemma dials_peers: "connectToPeers peers c = Inr c' \<Longrightarrow> dials c c'"
  by (auto simp: connectToPeers_def rawConnectPeers_def elim!: rbindE split: if_splits any.splits
      dest: dials_loop dials_infos)

lemma dials_tracker:
  assumes "tracker_request net now q t c = Inr (ok, t', c')"
  shows "dials c c'"
proof -
  have announce: "dials c d" if "announce_response now body u c = Inr (b, u', d)" for body u b u' d
    using that by (auto simp: announce_response_def Let_def elim!: rbindE split: if_splits dest: dials_peers)
  have http: "dials c d" if "http_response now pieces u c = Inr (b, u', d)" for pieces u b u' d
    using that announce
    by (auto simp: http_response_def Let_def elim!: rbindE split: if_splits option.splits prod.splits)
  have udp: "dials c d" if "udp_announce_response now tx m n u c = Inr (b, u', d)" for tx m n u b u' d
    using that by (auto simp: udp_announce_response_def rawConnectPeers_def Let_def elim!: rbindE split: if_splits
        dest!: dials_loop)
  show ?thesis
    using assms
    by (auto simp: tracker_request_def httpRequest_def udpRequest_def Let_def elim!: rbindE
        split: if_splits prod.splits dest!: http udp)
qed

lemma dials_query:
  assumes "queryTracker net now url q port t = Inr (b, t')"
  shows "dials (to_client t) (to_client t')"
  using assms by (auto simp: queryTracker_def Let_def elim!: rbindE split: if_splits prod.splits dest!: dials_tracker)

lemma dials_query_any:
  assumes "\<And>url t b t'. query url t = Inr (b, t') \<Longrightarrow> dials (to_client t) (to_client t')"
  shows "query_any query as t = Inr (b, t') \<Longrightarrow> dials (to_client t) (to_client t')"
proof (induction as arbitrary: t)
  case (Cons a as)
  then obtain ok u where u: "query (cast_string a) t = Inr (ok, u)"
    "if ok then t' = u else query_any query as u = Inr (b, t')"
    by (auto elim!: rbindE split: if_splits)
  show ?case
    using u(2) Cons.IH dials_trans [OF assms [OF u(1)]] assms [OF u(1)] by (cases ok) auto
qed simp

lemma dials_query_tiers:
  assumes "\<And>url t b t'. query url t = Inr (b, t') \<Longrightarrow> dials (to_client t) (to_client t')"
  shows "query_tiers query ss t = Inr (b, t') \<Longrightarrow> dials (to_client t) (to_client t')"
proof (induction ss arbitrary: t)
  case (Cons s ss)
  then obtain ok u where u: "(case s of AVec vs \<Rightarrow> query_any query vs t | AString _ \<Rightarrow> query (cast_string AOther) t
      | _ \<Rightarrow> Inr (False, t)) = Inr (ok, u)" "if ok then t' = u else query_tiers query ss u = Inr (b, t')"
    by (auto elim!: rbindE split: if_splits)
  have "dials (to_client t) (to_client u)"
    using u(1) assms dials_query_any [OF assms] by (auto split: any.splits)
  then show ?case using u(2) Cons.IH dials_trans by (cases ok) auto
qed simp

lemma dials_queryTrackers:
  assumes "queryTrackers net now q port t = Inr (b, t')"
  shows "dials (to_client t) (to_client t')"
proof -
  obtain ok u where u: "queryTracker net now (tm_mainTracker (cl_meta (to_client t))) q port t = Inr (ok, u)"
    "u = t' \<or> query_tiers (\<lambda>url. queryTracker net now url q port) (tm_trackers (cl_meta (to_client t))) u = Inr (b, t')"
    using assms by (auto simp: queryTrackers_def Let_def elim!: rbindE split: if_splits)
  from u(2) show ?thesis
  proof
    assume "query_tiers (\<lambda>url. queryTracker net now url q port) (tm_trackers (cl_meta (to_client t))) u = Inr (b, t')"
    then have "dials (to_client u) (to_client t')"
      by (rule dials_query_tiers [rotated]) (rule dials_query)
    then show ?thesis using dials_query [OF u(1)] dials_trans by blast
  qed (use dials_query [OF u(1)] in simp)
qed

lemma dials_active:
  "query_active net now q k c = Inr (k', c') \<Longrightarrow> dials c c'"
  by (auto simp: query_active_def elim!: rbindE dest: dials_tracker)

lemma dials_fold:
  assumes "rfold f xs c = Inr c'" "\<And>x d d'. f x d = Inr d' \<Longrightarrow> dials (g d) (g d')"
  shows "dials (g c) (g c')"
  by (rule rfold_inv [OF assms(1), where P = "\<lambda>d. dials (g c) (g d)"]) (auto intro: dials_trans dest: assms(2))

lemma dials_finish: "finish net now t = Inr (b, t') \<Longrightarrow> dials (to_client t) (to_client t')"
  by (auto simp: finish_def Let_def elim!: rbindE dials_fold [where g = id, simplified] dest: dials_active)

lemma dials_checkTrackers: "checkTrackers net now t = Inr (b, t') \<Longrightarrow> dials (to_client t) (to_client t')"
  by (auto simp: checkTrackers_def elim!: rbindE dials_fold [where g = to_client])
    (auto simp: check_tracker_def Let_def elim!: rbindE split: if_splits dest: dials_active)

lemma dials_accept: "dials (to_client t) (to_client (on_accept error t))"
  using dials_sel(3) [of "to_client t"]
  by (simp add: on_accept_def accept_handler_def accept_peer_def verify_def peer_read_def case_prod_beta Let_def)

section \<open>Sessions\<close>

text \<open>
  One event of a running torrent: bytes arrive for a read; the worker does a round; a connection is made, is
  lost, or its socket, timers and streams change; a peer is accepted; trackers are asked. The bytes that
  arrive, and what trackers answer, are arbitrary, but for the pieces they complete having their length.
\<close>

inductive session_step :: "env \<Rightarrow> (file_info \<Rightarrow> nat \<Rightarrow> nat) \<Rightarrow> torrent \<Rightarrow> torrent \<Rightarrow> bool"
  for env accept where
  Input: "on_read env p cb data (to_client t) = Inr c \<Longrightarrow> p < cl_next (to_client t) \<Longrightarrow> length data < 2 ^ 32 \<Longrightarrow>
    cb = OnMessage \<longrightarrow> data \<noteq> [] \<Longrightarrow> right_sizes (cl_meta c) (cl_fileManager c) \<Longrightarrow>
    session_step env accept t (t\<lparr>to_client := c\<rparr>)"
| Worker: "session_worker env accept (to_client t) = Inr c \<Longrightarrow> session_step env accept t (t\<lparr>to_client := c\<rparr>)"
| Connected: "session_step env accept t (t\<lparr>to_client := on_connected p (to_client t)\<rparr>)"
| Lost: "session_step env accept t (t\<lparr>to_client := peer_handleError env p (to_client t)\<rparr>)"
| Sockets: "session_step env accept t (t\<lparr>to_client := (to_client t)\<lparr>cl_net := nt\<rparr>\<rparr>)"
| Listening: "session_step env accept t (snd (nextConnection t))"
| Accepted: "session_step env accept t (on_accept error t)"
| Queried: "queryTrackers net now q port t = Inr (b, t') \<Longrightarrow> session_step env accept t t'"
| Checked: "checkTrackers net now t = Inr (b, t') \<Longrightarrow> session_step env accept t t'"
| Finished: "finish net now t = Inr (b, t') \<Longrightarrow> session_step env accept t t'"

abbreviation session :: "env \<Rightarrow> (file_info \<Rightarrow> nat \<Rightarrow> nat) \<Rightarrow> torrent \<Rightarrow> torrent \<Rightarrow> bool" where
  "session env accept \<equiv> (session_step env accept)\<^sup>*\<^sup>*"

lemma session_step_ok:
  assumes "session_step env accept t t'" "session_ok env (to_client t)" "accepts_all accept"
  shows "session_ok env (to_client t') \<and> got (to_client t) \<subseteq> got (to_client t')"
  using assms(1)
proof cases
  case (Input p cb data c)
  then show ?thesis using session_read [OF assms(2)] by simp
next
  case (Worker c)
  then show ?thesis using session_worker_ok assms(2,3) by simp
next
  case (Connected p)
  have "undisturbed (to_client t) (on_connected p (to_client t))"
    by (simp add: on_connected_def peer_read_def undisturbed_def client_ok_def known_peers_def swarm_def)
  from session_undisturbed [OF this assms(2)] show ?thesis using Connected by simp
next
  case (Lost p)
  then show ?thesis using session_undisturbed [OF undisturbed_sel(3) assms(2)] by simp
next
  case (Sockets nt)
  then show ?thesis using session_undisturbed [OF undisturbed_sel(4) assms(2)] by simp
next
  case Listening
  then show ?thesis using assms(2) by (simp add: nextConnection_def split: option.splits)
next
  case (Accepted error)
  then show ?thesis using session_dials [OF dials_accept assms(2)] by simp
next
  case (Queried net now q port b)
  then show ?thesis using session_dials [OF dials_queryTrackers assms(2)] by blast
next
  case (Checked net now b)
  then show ?thesis using session_dials [OF dials_checkTrackers assms(2)] by blast
next
  case (Finished net now b)
  then show ?thesis using session_dials [OF dials_finish assms(2)] by blast
qed

lemma session_run_ok:
  assumes "session env accept t t'" "session_ok env (to_client t)" "accepts_all accept"
  shows "session_ok env (to_client t') \<and> got (to_client t) \<subseteq> got (to_client t')"
  using assms(1)
proof (induction rule: rtranclp_induct)
  case base
  then show ?case using assms(2) by simp
next
  case (step u v)
  then show ?case using session_step_ok assms(3) by blast
qed

lemma opened_session_ok:
  assumes "torrent_open (en_sha1 env) parent_path fs random (Some bytes) dir s Torrent = Inr (True, s', t)"
    and "decode Bencode (map Some bytes) (length bytes) = Inr (d, bc)" "declared (entries_of (info_of d)) < 2 ^ 63"
    and "\<forall>bs. length (en_sha1 env bs) = 5" "length random = 12" "\<forall>p u content. fs_open fs p u = Some content \<longrightarrow> content = []"
    and "sound_sizes (cl_meta (to_client t))"
  shows "session_ok env (to_client t)"
  using opened_ready [OF assms] by (simp add: session_ok_def known_peers_def swarm_def)



section \<open>A short session\<close>

text \<open>A peer is accepted, and sends three bytes where four are due.\<close>

definition session_env :: env where
  "session_env = \<lparr>en_sha1 = (\<lambda>_. replicate 5 7), en_remote = (\<lambda>_. 1), en_stack = (\<lambda>_. 0)\<rparr>"

lemma fm_inv_sizes: "fm_inv sha1 meta fm \<Longrightarrow> right_sizes meta fm"
  by (auto simp: fm_inv_def right_sizes_def queued_def good_piece_def dest!: bspec db_bytes_buffer(2))

lemma short_session:
  assumes "session_ok session_env (to_client t)" "cl_next (to_client t) = 0"
  shows "\<exists>t'. session session_env accept t t' \<and> cl_next (to_client t') = 1"
proof -
  let ?t = "on_accept False t"
  let ?c = "peer_handleError session_env 0 (to_client ?t)"
  have next_ids: "cl_next (to_client ?t) = 1" "cl_next ?c = 1"
    using assms(2) by (simp_all add: on_accept_def accept_handler_def accept_peer_def make_peer_def verify_def peer_read_def peer_handleError_def
        removePeer_def disconnect_def Let_def)
  have "session_ok session_env (to_client ?t)" using session_dials [OF dials_accept assms(1)] by simp
  then have "session_ok session_env ?c" using session_undisturbed [OF undisturbed_sel(3)] by blast
  then have "right_sizes (cl_meta ?c) (cl_fileManager ?c)" unfolding session_ok_def using fm_inv_sizes by blast
  moreover have "on_read session_env 0 OnLength [1, 2, 3] (to_client ?t) = Inr ?c"
    by (simp add: on_read_def handle_def)
  moreover have "length [1, 2, 3 :: u8] < 2 ^ 32" by (simp only: list.size) simp
  ultimately have "session_step session_env accept ?t (?t\<lparr>to_client := ?c\<rparr>)"
    using next_ids(1) by (intro session_step.Input [where cb = OnLength and p = 0 and data = "[1, 2, 3]"]) auto
  then have "session session_env accept t (?t\<lparr>to_client := ?c\<rparr>)"
    using session_step.Accepted [of session_env accept t False] by (meson converse_rtranclp_into_rtranclp r_into_rtranclp)
  then show ?thesis using next_ids(2) by fastforce
qed

lemma session_witness:
  obtains s t t' d bc where "torrent_open (en_sha1 session_env) dir_part new_disk (replicate 12 9)
      (Some (benc (ADict two_pieces))) ''d'' [] Torrent = Inr (True, s, t)"
    "decode Bencode (map Some (benc (ADict two_pieces))) (length (benc (ADict two_pieces))) = Inr (d, bc)"
    "declared (entries_of (info_of d)) < 2 ^ 63" "sound_sizes (cl_meta (to_client t))"
    "session session_env all_bytes t t'" "cl_next (to_client t') = 1"
proof -
  obtain s t d bc where t: "torrent_open (en_sha1 session_env) dir_part new_disk (replicate 12 9)
      (Some (benc (ADict two_pieces))) ''d'' [] Torrent = Inr (True, s, t)"
    "decode Bencode (map Some (benc (ADict two_pieces))) (length (benc (ADict two_pieces))) = Inr (d, bc)"
    "declared (entries_of (info_of d)) < 2 ^ 63" "sound_sizes (cl_meta (to_client t))"
    by (rule two_pieces_opened [where hash = 7]) (simp add: session_env_def)
  have "session_ok session_env (to_client t)"
    by (rule opened_session_ok [OF t(1-3) _ _ _ t(4)]) (auto simp: session_env_def new_disk_def split: if_splits)
  moreover have "cl_next (to_client t) = 0"
    using t(1) by (auto simp: torrent_open_def Torrent_def Let_def elim!: rbindE split: if_splits)
  ultimately obtain t' where "session session_env all_bytes t t'" "cl_next (to_client t') = 1"
    using short_session by blast
  with t show thesis by (rule that)
qed

lemma session_hypotheses:
  "\<forall>bs. length (en_sha1 session_env bs) = 5" "length (replicate 12 9 :: u8 list) = 12"
  "\<forall>p u content. fs_open new_disk p u = Some content \<longrightarrow> content = []" "accepts_all all_bytes"
  by (auto simp: session_env_def new_disk_def accepts_all_def all_bytes_def split: if_splits)



end
