(* ===== verification/Completion.thy ===== *)
theory Completion
  imports Session
begin

text \<open>
  A whole download: a client that has just opened a torrent accepts a connection of one peer that has all
  pieces and answers every request, and ends with all of them on disk (src/ctorrent/peer.cpp,
  src/ctorrent/torrent.cpp and src/ctorrent/torrentfilemanager.cpp together).
\<close>

section \<open>The seeder\<close>

text \<open>A peer with the pieces \<open>D\<close> sends, for the piece the client has asked for first, all its blocks; for at
  most \<open>n\<close> pieces.\<close>

fun serve :: "env \<Rightarrow> nat \<Rightarrow> (nat \<Rightarrow> u8 list) \<Rightarrow> nat \<Rightarrow> client \<Rightarrow> client res" where
  "serve env p D 0 c = Inr c"
| "serve env p D (Suc n) c =
     (case pr_queue (the_peer p c) of
        [] \<Rightarrow> Inr c
      | q # _ \<Rightarrow>
          rbind (deliver env p (of_nat (qp_index q)) (D (qp_index q)) [0..<qp_numBlocks q] c) (serve env p D n))"

text \<open>It announces all pieces, unchokes the client, and serves; then the worker of the client writes.\<close>

definition full_bitfield :: "nat \<Rightarrow> u8 list" where
  "full_bitfield n = MT_Bitfield # replicate ((n + 7) div 8) 0xFF"

definition seeding_peer ::
  "env \<Rightarrow> (file_info \<Rightarrow> nat \<Rightarrow> nat) \<Rightarrow> nat \<Rightarrow> (nat \<Rightarrow> u8 list) \<Rightarrow> client \<Rightarrow> client res" where
  "seeding_peer env accept p D c =
     (let n = total_pieces (cl_fileManager c) in
      rbind (on_read env p OnMessage (full_bitfield n) c) (\<lambda>c.
      rbind (on_read env p OnMessage [MT_UnChoke] c) (\<lambda>c.
      rbind (serve env p D n c) (session_worker env accept))))"

section \<open>Counting the pieces\<close>

lemma completed_count:
  assumes "client_ok c" "pieces c \<le> 2 ^ 28"
  shows "bitset_count (fm_completedBits (cl_fileManager c)) = Inr (card (completed (cl_fileManager c)))"
proof -
  let ?b = "fm_completedBits (cl_fileManager c)"
  have wf: "fm_wf (cl_fileManager c)" "even (pieces c)" using assms(1) by (simp_all add: client_ok_def fm_ok_def)
  then have b: "bitset_wf ?b" "bs_size ?b = pieces c" "length (bs_bits ?b) = pieces c"
    by (simp_all add: fm_wf_def bitset_wf_def)
  have "8 * length (bs_bits ?b) \<le> 2 ^ 31" using b(3) assms(2) by simp
  then have "one_bits (bs_bits ?b) = completed (cl_fileManager c)" by (simp only: one_bits_members completed_def)
  then show ?thesis using bitset_count_card [OF b(1)] wf(2) b(2) by simp
qed

lemma isFinished_iff:
  assumes "client_ok c" "pieces c \<le> 2 ^ 28" "completed (cl_fileManager c) \<subseteq> {..<pieces c}"
  shows "isFinished c = Inr (completed (cl_fileManager c) = {..<pieces c})"
proof -
  have "pieces c = card (completed (cl_fileManager c)) \<longleftrightarrow> completed (cl_fileManager c) = {..<pieces c}"
  proof
    assume "pieces c = card (completed (cl_fileManager c))"
    then show "completed (cl_fileManager c) = {..<pieces c}" by (intro card_subset_eq [OF _ assms(3)]) simp_all
  next
    assume "completed (cl_fileManager c) = {..<pieces c}"
    then show "pieces c = card (completed (cl_fileManager c))" by (simp only: card_lessThan)
  qed
  then show ?thesis
    by (simp only: isFinished_def completed_pieces_def total_pieces_def completed_count [OF assms(1,2)] rbind.simps)
qed

section \<open>Asking\<close>

definition asked :: "u8 list \<Rightarrow> nat \<Rightarrow> queued_piece" where
  "asked d i = arrived d [] i"

lemma set_interested_choked:
  "test_bit (ucast (s OR PS_AmInterested)) (ucast PS_PeerChoked) = test_bit (ucast s) (ucast PS_PeerChoked)"
proof -
  have "ucast (s OR 2) AND (4 :: u32) = ucast s AND 4" for s :: u8
    by (rule bit_word_eqI) (auto simp: bit_simps)
  then show ?thesis by (simp add: test_bit_def state_bits)
qed

text \<open>Writing changes the network only.\<close>

lemma rfold_requests:
  "\<exists>nt. rfold (\<lambda>(b, l). sendRequest p i (of_nat b) (of_nat l)) xs c = Inr (c\<lparr>cl_net := nt\<rparr>)"
proof (induction xs arbitrary: c)
  case Nil
  show ?case by (intro exI [of _ "cl_net c"]) simp
next
  case (Cons x xs)
  obtain b l where x: "x = (b, l)" by (cases x)
  let ?c = "write_bytes p (request_bytes MT_Request i (of_nat b) (of_nat l)) c"
  obtain nt where "rfold (\<lambda>(b, l). sendRequest p i (of_nat b) (of_nat l)) xs ?c = Inr (?c\<lparr>cl_net := nt\<rparr>)"
    using Cons.IH by blast
  moreover have "?c\<lparr>cl_net := nt\<rparr> = c\<lparr>cl_net := nt\<rparr>" by (simp add: write_bytes_def)
  ultimately show ?case by (intro exI [of _ nt]) (simp add: x sendRequest_bytes [of p i "of_nat b" "of_nat l" c])
qed

lemma sendPieceRequest_result:
  assumes ok: "client_ok c" and i: "i < pieces c" and d: "length d = piece_bytes (cl_meta c) i"
  shows "\<exists>nt. sendPieceRequest env p (of_nat i) c = Inr ((upd_peer p (\<lambda>r. r\<lparr>pr_state := pr_state r OR PS_AmInterested,
    pr_queue := pr_queue r @ [asked d i]\<rparr>) c)\<lparr>cl_net := nt\<rparr>)"
proof -
  have ui: "unat (of_nat i :: u32) = i"
    using ok i by (simp add: client_ok_def fm_ok_def fm_wf_def unat_of_nat)
  note size = ok_pieceSize [OF ok i]
  have "unat (of_nat (length d) :: u32) = length d" using size(3) d by (simp add: unat_of_nat)
  then have nb: "num_blocks (of_nat (length d)) = block_count (length d)" by (simp add: num_blocks_def block_count_def)
  have piece: "\<lparr>qp_index = i, qp_currentBlocks = 0, qp_numBlocks = block_count (length d),
      qp_blocks = replicate (block_count (length d)) new_block\<rparr> = asked d i"
    by (simp add: asked_def arrived_def map_replicate_const)
  define e where "e = upd_peer p (\<lambda>r. r\<lparr>pr_queue := pr_queue r @ [asked d i]\<rparr>) (sendInterested p c)"
  have fm: "cl_meta e = cl_meta c" "cl_fileManager e = cl_fileManager c"
    "cl_meta (sendInterested p c) = cl_meta c" "cl_fileManager (sendInterested p c) = cl_fileManager c"
    by (simp_all add: e_def sendInterested_def set_state_def)
  obtain nt where nt: "(if \<not> isRemoteChoked p e then peer_requestPiece env p i e else Inr e) = Inr (e\<lparr>cl_net := nt\<rparr>)"
  proof (cases "isRemoteChoked p e")
    case True
    then show thesis using that [of "cl_net e"] by simp
  next
    case False
    then show thesis
      using that rfold_requests [of p "of_nat i" "blocks_of 0 (length d)" e] size(1) d fm
      by (auto simp: peer_requestPiece_def)
  qed
  have "sendPieceRequest env p (of_nat i) c = Inr (e\<lparr>cl_net := nt\<rparr>)"
    by (simp only: sendPieceRequest_def Let_def ui size(1) fm(3,4) d [symmetric] nb piece rbind.simps e_def [symmetric] nt)
  moreover have "e\<lparr>cl_net := nt\<rparr> = (upd_peer p (\<lambda>r. r\<lparr>pr_state := pr_state r OR PS_AmInterested,
    pr_queue := pr_queue r @ [asked d i]\<rparr>) c)\<lparr>cl_net := nt\<rparr>"
    by (simp add: e_def sendInterested_def set_state_def upd_peer_def write_bytes_def comp_def)
  ultimately show ?thesis by auto
qed

section \<open>The client that downloads\<close>

text \<open>\<open>D\<close> are the pieces of the torrent.\<close>

definition content :: "env \<Rightarrow> (nat \<Rightarrow> u8 list) \<Rightarrow> client \<Rightarrow> bool" where
  "content env D c \<longleftrightarrow> (\<forall>i < pieces c. length (D i) = piece_bytes (cl_meta c) i \<and>
     en_sha1 env (D i) = pc_hash (fm_pieces (cl_fileManager c) ! i))"

text \<open>Nothing is written yet; what waits to be written are pieces of \<open>D\<close>.\<close>

definition collecting :: "env \<Rightarrow> nat \<Rightarrow> (nat \<Rightarrow> u8 list) \<Rightarrow> client \<Rightarrow> bool" where
  "collecting env p D c \<longleftrightarrow> session_ok env c \<and> p < cl_next c \<and> pieces c \<le> 2 ^ 28 \<and> content env D c \<and>
     got c = {} \<and> fm_readRequests (cl_fileManager c) = [] \<and> \<not> fm_stopped (cl_fileManager c) \<and>
     (\<forall>w \<in> set (fm_writeRequests (cl_fileManager c)). db_bytes (wr_data w) = Inr (D (wr_index w)))"

text \<open>The pieces that are neither on their way nor being asked for can be chosen.\<close>

definition choosable :: "client \<Rightarrow> nat set \<Rightarrow> bool" where
  "choosable c A \<longleftrightarrow> (\<forall>j < pieces c. j \<notin> pending_set (cl_fileManager c) \<union> A \<longrightarrow> pri (cl_fileManager c) j < INT32_MAX)"

text \<open>The client asks its peer for one piece, or has no more to ask for.\<close>

definition asks :: "nat \<Rightarrow> (nat \<Rightarrow> u8 list) \<Rightarrow> client \<Rightarrow> bool" where
  "asks p D c \<longleftrightarrow>
     (\<exists>i < pieces c. i \<notin> pending_set (cl_fileManager c) \<and> pr_queue (the_peer p c) = [asked (D i) i] \<and> choosable c {i}) \<or>
     pr_queue (the_peer p c) = [] \<and> {..<pieces c} \<subseteq> pending_set (cl_fileManager c)"

definition has_all :: "nat \<Rightarrow> client \<Rightarrow> bool" where
  "has_all p c \<longleftrightarrow> (\<forall>i < pieces c. hasPiece p c i = Inr True)"

text \<open>Raising the priority of the chosen piece.\<close>

lemma collecting_chosen:
  assumes col: "collecting env p D c" and i: "i < pieces c" "pri (cl_fileManager c) i < INT32_MAX"
  defines "d \<equiv> c\<lparr>cl_fileManager := set_pri (cl_fileManager c) i (pri (cl_fileManager c) i + 1)\<rparr>"
  shows "collecting env p D d" "choosable c {} \<Longrightarrow> choosable d {i}"
proof -
  let ?fm = "cl_fileManager c"
  let ?fm' = "set_pri ?fm i (pri ?fm i + 1)"
  have ok: "session_ok env c" "client_ok c" "fm_inv (en_sha1 env) (cl_meta c) ?fm"
    using col by (simp_all add: collecting_def session_ok_def)
  then have "fm_wf ?fm" by (simp add: fm_inv_def)
  note range = fm_wf_pri [OF this i(1)] i(2)
  have "fm_inv (en_sha1 env) (cl_meta c) ?fm'" using range by (intro set_pri_inv [OF ok(3)]) simp_all
  moreover have "fm_ok (cl_meta c) ?fm'" using range ok(2) by (intro set_pri_ok) (simp_all add: client_ok_def)
  ultimately have "session_ok env d"
    using ok(1,2) by (simp add: d_def session_ok_def client_ok_def set_pri_frame)
  moreover have "fm_readRequests ?fm' = fm_readRequests ?fm" "fm_stopped ?fm' = fm_stopped ?fm"
    by (simp_all add: set_pri_def)
  ultimately show "collecting env p D d"
    using col set_pri_hash [of _ ?fm i] by (simp add: d_def collecting_def content_def set_pri_frame)
  show "choosable d {i}" if "choosable c {}"
    using that by (auto simp: d_def choosable_def set_pri_frame) (simp add: set_pri_def)
qed

text \<open>Changing a peer and the network.\<close>

lemma collecting_peer:
  assumes "collecting env p D c" "client_ok c'" "cl_fileManager c' = cl_fileManager c" "cl_meta c' = cl_meta c"
    and "cl_next c' = cl_next c" "cl_peers c' = cl_peers c"
  shows "collecting env p D c'"
  using assms by (simp add: collecting_def content_def session_ok_def known_peers_def swarm_def)

lemma read_keeps [simp]:
  "collecting env p D (peer_read q k cb c) = collecting env p D c" "has_all p (peer_read q k cb c) = has_all p c"
  "asks p D (peer_read q k cb c) = asks p D c" "isRemoteChoked p (peer_read q k cb c) = isRemoteChoked p c"
  "cl_fileManager (peer_read q k cb c) = cl_fileManager c" "cl_meta (peer_read q k cb c) = cl_meta c"
  "cl_next (peer_read q k cb c) = cl_next c" "cl_store (peer_read q k cb c) = cl_store c"
  by (simp_all add: peer_read_def collecting_def has_all_def asks_def isRemoteChoked_def peer_is_def hasPiece_def
      choosable_def session_ok_def client_ok_def known_peers_def swarm_def content_def)

lemma requestPiece_asks:
  assumes col: "collecting env p D c" and all: "has_all p c" and idle: "pr_queue (the_peer p c) = []" and ch: "choosable c {}"
  shows "\<exists>c'. requestPiece env p c = Inr c' \<and> collecting env p D c' \<and> has_all p c' \<and> asks p D c' \<and>
    isRemoteChoked p c' = isRemoteChoked p c \<and>
    fm_writeRequests (cl_fileManager c') = fm_writeRequests (cl_fileManager c) \<and> pieces c' = pieces c \<and> cl_meta c' = cl_meta c"
proof -
  let ?fm = "cl_fileManager c" and ?n = "pieces c"
  have ok: "client_ok c" "p < cl_next c" and wf: "fm_wf ?fm"
    using col by (simp_all add: collecting_def session_ok_def fm_inv_def)
  have cand: "candidate ?fm (hasPiece p c) i \<longleftrightarrow> i < ?n \<and> i \<notin> pending_set ?fm" for i
    using all col by (auto simp: candidate_def has_all_def collecting_def)
  consider (none) "none_left ?fm (hasPiece p c) ?n" "get_next_piece ?fm (hasPiece p c) = Inr (SIZE_MAX, ?fm)"
    | (some) i where "first_least ?fm (hasPiece p c) ?n i"
      "get_next_piece ?fm (hasPiece p c) = Inr (i, set_pri ?fm i (pri ?fm i + 1))"
    using get_next_piece_result [of ?fm "hasPiece p c", OF wf] all by (auto simp: has_all_def)
  then show ?thesis
  proof cases
    case none
    have "{..<?n} \<subseteq> pending_set ?fm"
      using none(1) ch by (fastforce simp: none_left_def cand choosable_def)
    then have "asks p D c" using idle by (simp add: asks_def)
    moreover have "requestPiece env p c = Inr c" using none(2) by (simp add: requestPiece_def)
    ultimately show ?thesis using col all by auto
  next
    case (some i)
    have i: "i < ?n" "i \<notin> pending_set ?fm" "pri ?fm i < INT32_MAX" using some(1) by (auto simp: first_least_def cand)
    define d where "d = c\<lparr>cl_fileManager := set_pri ?fm i (pri ?fm i + 1)\<rparr>"
    note d = collecting_chosen [OF col i(1,3), folded d_def]
    have "client_ok d" "length (D i) = piece_bytes (cl_meta d) i" "i < pieces d"
      using d(1) i(1) by (simp_all add: collecting_def session_ok_def content_def d_def set_pri_frame)
    then obtain nt where nt: "sendPieceRequest env p (of_nat i) d = Inr ((upd_peer p (\<lambda>r. r\<lparr>pr_state := pr_state r OR PS_AmInterested,
        pr_queue := pr_queue r @ [asked (D i) i]\<rparr>) d)\<lparr>cl_net := nt\<rparr>)"
      using sendPieceRequest_result by blast
    define c' where "c' = (upd_peer p (\<lambda>r. r\<lparr>pr_state := pr_state r OR PS_AmInterested,
        pr_queue := pr_queue r @ [asked (D i) i]\<rparr>) d)\<lparr>cl_net := nt\<rparr>"
    have "i \<noteq> SIZE_MAX" using i(1) wf by (simp add: fm_wf_def SIZE_MAX_def)
    then have req: "requestPiece env p c = Inr c'" using some(2) nt by (simp add: requestPiece_def d_def [symmetric] c'_def)
    then have "client_ok c'" using steps_torrent_requestPiece [OF ok, of env] by (simp add: steps_def later_def)
    then have "collecting env p D c'" by (rule collecting_peer [OF d(1)]) (simp_all add: c'_def)
    moreover have "has_all p c'" using all by (simp add: c'_def d_def has_all_def hasPiece_def set_pri_frame)
    moreover have "choosable c' {i}" using d(2) [OF ch] by (simp add: choosable_def c'_def)
    then have "asks p D c'"
      using i(1,2) idle by (auto simp: asks_def c'_def d_def set_pri_frame)
    moreover have "isRemoteChoked p c' = isRemoteChoked p c"
      by (simp add: c'_def d_def isRemoteChoked_def peer_is_def set_interested_choked)
    ultimately show ?thesis using req by (simp add: c'_def d_def set_pri_frame)
  qed
qed

section \<open>Announcing and unchoking\<close>

lemma handle_body_msg:
  assumes "length bs < 2 ^ 32"
  shows "on_read env p OnMessage (t # bs) c =
    rbind (dispatch env p t (msg_at bs 0) c) (\<lambda>(go, c). Inr (if go then peer_read p 4 OnLength c else c))"
  using assms by (simp add: on_read_def handle_body_def handleMessage_def InputMessage_msg load_def sub64_small)

lemma upd_peer_twice: "upd_peer p f (upd_peer p g c) = upd_peer p (\<lambda>r. f (g r)) c"
  by (simp add: upd_peer_def)

lemma ones_bit: "x < 8 \<Longrightarrow> (0xFF :: u8) AND push_bit (7 - x) 1 \<noteq> 0"
proof -
  assume "x < 8"
  then have "x \<in> {0, 1, 2, 3, 4, 5, 6, 7}" by auto
  then show ?thesis by auto
qed

lemma all_bits_set:
  assumes "client_ok c" "p < cl_next c" "\<forall>(i, x) \<in> set xs. i < k \<and> x < 8"
  shows "\<exists>b. rfold (bitfield_step (map Some (replicate k 0xFF)) p) xs c = Inr (upd_peer p (\<lambda>r. r\<lparr>pr_bitset := b\<rparr>) c) \<and>
    bits.members (pr_bitset (the_peer p c)) \<union> {i * 8 + x | i x. (i, x) \<in> set xs \<and> i * 8 + x < pieces c} \<subseteq> bits.members b"
  using assms
proof (induction xs arbitrary: c)
  case Nil
  show ?case by (intro exI [of _ "pr_bitset (the_peer p c)"]) (simp add: upd_peer_def)
next
  case (Cons y xs)
  obtain i x where y: "y = (i, x)" by (cases y)
  let ?b = "pr_bitset (the_peer p c)"
  obtain b where step: "bitfield_step (map Some (replicate k 0xFF)) p (i, x) c = Inr (upd_peer p (\<lambda>r. r\<lparr>pr_bitset := b\<rparr>) c)"
    and b: "bits.members ?b \<union> (if i * 8 + x < pieces c then {i * 8 + x} else {}) \<subseteq> bits.members b"
    and ok: "client_ok (upd_peer p (\<lambda>r. r\<lparr>pr_bitset := b\<rparr>) c)"
  proof (cases "i * 8 + x < pieces c")
    case True
    have "steps c (set_peer_bit p (i * 8 + x) c)" using steps_set_peer_bit [OF Cons.prems(1,2) True] .
    then obtain b where b: "bitset_set ?b (i * 8 + x) = Inr b" "client_ok (upd_peer p (\<lambda>r. r\<lparr>pr_bitset := b\<rparr>) c)"
      by (auto simp: set_peer_bit_def steps_def later_def elim!: rbindE)
    have "bitset_wf ?b" "bs_size ?b = pieces c" "pieces c < 2 ^ 31"
      using Cons.prems(1,2) by (simp_all add: client_ok_def peer_ok_def fm_ok_def fm_wf_def)
    then have "i * 8 + x < bitset_cap ?b" using cap_of_size True by simp
    then have "bits.members b = insert (i * 8 + x) (bits.members ?b)" using bits.members_put [OF b(1)] by simp
    then show thesis
      using that [OF _ _ b(2)] True b(1) Cons.prems(3) ones_bit [of x]
      by (simp add: bitfield_step_def set_peer_bit_def load_def y total_pieces_def)
  next
    case False
    have "upd_peer p (\<lambda>r. r\<lparr>pr_bitset := ?b\<rparr>) c = c" by (simp add: upd_peer_def)
    then show thesis
      using that [of ?b] False Cons.prems(1,3) by (simp add: bitfield_step_def load_def y total_pieces_def)
  qed
  let ?c = "upd_peer p (\<lambda>r. r\<lparr>pr_bitset := b\<rparr>) c"
  obtain b' where "rfold (bitfield_step (map Some (replicate k 0xFF)) p) xs ?c = Inr (upd_peer p (\<lambda>r. r\<lparr>pr_bitset := b'\<rparr>) ?c)"
    "bits.members b \<union> {i * 8 + x | i x. (i, x) \<in> set xs \<and> i * 8 + x < pieces c} \<subseteq> bits.members b'"
    using Cons.IH [OF ok] Cons.prems(2,3) by auto
  then show ?case using step b by (intro exI [of _ b']) (auto simp: y upd_peer_twice split: if_splits)
qed

lemma seeder_announces:
  assumes col: "collecting env p D c" and idle: "pr_queue (the_peer p c) = []" and ch: "choosable c {}"
  shows "\<exists>c'. on_read env p OnMessage (full_bitfield (pieces c)) c = Inr c' \<and> collecting env p D c' \<and> has_all p c' \<and>
    asks p D c' \<and> fm_writeRequests (cl_fileManager c') = fm_writeRequests (cl_fileManager c) \<and> pieces c' = pieces c \<and> cl_meta c' = cl_meta c"
proof -
  let ?n = "pieces c" and ?k = "(pieces c + 7) div 8"
  have ok: "client_ok c" "p < cl_next c" "got c = {}" "?n \<le> 2 ^ 28" and n: "0 < ?n"
    using col geometry_pos(2) by (auto simp: collecting_def session_ok_def fm_inv_def)
  let ?xs = "List.product [0..<?k] [0..<8]"
  obtain b where b: "rfold (bitfield_step (map Some (replicate ?k 0xFF)) p) ?xs c = Inr (upd_peer p (\<lambda>r. r\<lparr>pr_bitset := b\<rparr>) c)"
    "{i * 8 + x | i x. (i, x) \<in> set ?xs \<and> i * 8 + x < ?n} \<subseteq> bits.members b"
    using all_bits_set [OF ok(1,2), of ?xs ?k] by auto
  let ?d = "upd_peer p (\<lambda>r. r\<lparr>pr_bitset := b\<rparr>) c"
  have "steps c (rfold (bitfield_step (map Some (replicate ?k 0xFF)) p) ?xs c)"
    by (rule steps_fold [OF ok(1)]) (use ok(2) in
      \<open>auto simp: bitfield_step_def load_def later_def total_pieces_def intro!: steps_set_peer_bit steps_Inr later_refl\<close>)
  then have dok: "client_ok ?d" using b(1) by (simp add: steps_def later_def)
  then have d: "collecting env p D ?d" by (intro collecting_peer [OF col]) simp_all
  have "i \<in> bits.members b" if "i < ?n" for i
  proof -
    have "(i div 8, i mod 8) \<in> set ?xs" using that by auto
    moreover have "i div 8 * 8 + i mod 8 = i" by simp
    ultimately have "i \<in> {i * 8 + x | i x. (i, x) \<in> set ?xs \<and> i * 8 + x < ?n}"
      using that by (intro CollectI exI [of _ "i div 8"] exI [of _ "i mod 8"]) metis
    then show ?thesis by (rule subsetD [OF b(2)])
  qed
  moreover have "hasPiece p ?d i = Inr (i \<in> bits.members b)" if "i < ?n" for i
  proof -
    have "p < cl_next ?d \<longrightarrow> peer_ok (pieces ?d) (the_peer p ?d)" using dok unfolding client_ok_def by blast
    then have "bitset_wf b" "bs_size b = ?n" using ok(2) by (simp_all add: peer_ok_def)
    then have "i < bitset_cap b" using that cap_of_size ok(4) by simp
    then show ?thesis by (simp add: hasPiece_def bits.test_members)
  qed
  ultimately have all: "has_all p ?d" by (simp add: has_all_def)
  obtain c' where c': "requestPiece env p ?d = Inr c'" "collecting env p D c'" "has_all p c'" "asks p D c'"
    "fm_writeRequests (cl_fileManager c') = fm_writeRequests (cl_fileManager ?d)" "pieces c' = ?n" "cl_meta c' = cl_meta ?d"
    using requestPiece_asks [OF d all] idle ch by (auto simp: choosable_def)
  have fin: "isFinished ?d = Inr False"
    using isFinished_iff [OF dok] ok(3,4) n by auto
  let ?e = "peer_read p 4 OnLength c'"
  have "8 \<le> ?n + 7" using n by arith
  then have "length (replicate ?k (0xFF :: u8)) < 2 ^ 32" "0 < ?k" using ok(4) by (simp_all only: div_greater_zero_iff) simp_all
  then have "on_read env p OnMessage (full_bitfield ?n) c = Inr ?e"
    using b(1) fin c'(1)
    by (simp add: full_bitfield_def handle_body_msg dispatch_def message_types on_bitfield_def getBuffer_msg)
  then show ?thesis using c'(2-7) by (intro exI [of _ ?e]) (simp add: read_keeps)
qed

lemma clear_choked_bit: "\<not> test_bit (ucast (s AND NOT PS_PeerChoked)) (ucast PS_PeerChoked)"
proof -
  have "ucast (s AND NOT 4) AND (4 :: u32) = 0" for s :: u8
    by (rule bit_word_eqI) (auto simp: bit_simps)
  then show ?thesis by (simp add: test_bit_def state_bits)
qed

lemma seeder_unchokes:
  assumes col: "collecting env p D c" and all: "has_all p c" and asks: "asks p D c"
  shows "\<exists>c'. on_read env p OnMessage [MT_UnChoke] c = Inr c' \<and> collecting env p D c' \<and> has_all p c' \<and>
    asks p D c' \<and> \<not> isRemoteChoked p c' \<and>
    fm_writeRequests (cl_fileManager c') = fm_writeRequests (cl_fileManager c) \<and> pieces c' = pieces c \<and> cl_meta c' = cl_meta c"
proof -
  have ok: "client_ok c" "p < cl_next c" using col by (simp_all add: collecting_def session_ok_def)
  define d where "d = set_state p (\<lambda>s. s AND NOT PS_PeerChoked) c"
  have d: "cl_meta d = cl_meta c" "cl_fileManager d = cl_fileManager c" "cl_next d = cl_next c" "cl_peers d = cl_peers c"
    "pr_queue (the_peer p d) = pr_queue (the_peer p c)" "pr_bitset (the_peer p d) = pr_bitset (the_peer p c)"
    "\<not> isRemoteChoked p d"
    by (simp_all add: d_def set_state_def isRemoteChoked_def peer_is_def clear_choked_bit)
  have dok: "client_ok d" using later_set_state [OF ok(1)] by (simp add: d_def later_def)
  have "\<exists>nt. rfold (\<lambda>piece. peer_requestPiece env p (qp_index piece)) (pr_queue (the_peer p d)) d = Inr (d\<lparr>cl_net := nt\<rparr>)"
  proof -
    consider "pr_queue (the_peer p d) = []" | i where "i < pieces c" "pr_queue (the_peer p d) = [asked (D i) i]"
      using asks d(5) by (auto simp: asks_def)
    then show ?thesis
    proof cases
      case 1
      then show ?thesis by (intro exI [of _ "cl_net d"]) simp
    next
      case 2
      have "qp_index (asked (D i) i) = i" by (simp add: asked_def arrived_def)
      then show ?thesis
        using 2 d ok_pieceSize(1) [OF dok, of i] rfold_requests [of p "of_nat i" "blocks_of 0 (piece_bytes (cl_meta c) i)" d]
        by (auto simp: peer_requestPiece_def)
    qed
  qed
  then obtain nt where nt: "rfold (\<lambda>piece. peer_requestPiece env p (qp_index piece)) (pr_queue (the_peer p d)) d = Inr (d\<lparr>cl_net := nt\<rparr>)"
    by blast
  let ?e = "peer_read p 4 OnLength (d\<lparr>cl_net := nt\<rparr>)"
  have "on_read env p OnMessage [MT_UnChoke] c = Inr ?e"
    using nt by (simp add: handle_body_msg dispatch_def message_types on_unchoke_def Let_def d_def)
  moreover have "collecting env p D ?e"
    using dok d by (intro collecting_peer [OF col]) (simp_all add: peer_read_def client_ok_def)
  moreover have "has_all p ?e" "asks p D ?e" "\<not> isRemoteChoked p ?e"
    using all asks d by (simp_all add: has_all_def hasPiece_def asks_def choosable_def peer_read_def isRemoteChoked_def peer_is_def)
  ultimately show ?thesis using d(1,2) by (intro exI [of _ ?e]) (simp add: peer_read_def)
qed

section \<open>A piece\<close>

text \<open>All blocks but the last, when the piece is the only one asked for.\<close>

lemma deliver_alone:
  assumes "client_ok c" "p < cl_next c" "length d = piece_bytes (cl_meta c) i" "i < pieces c"
    and "i \<notin> got c" "pr_queue (the_peer p c) = [asked d i]"
  shows "set js \<subseteq> {..<block_count (length d)} \<Longrightarrow> length js < block_count (length d) \<Longrightarrow>
    \<exists>nt. deliver env p (of_nat i) d js c = Inr ((upd_peer p (\<lambda>r. r\<lparr>pr_queue := [arrived d js i]\<rparr>) c)\<lparr>cl_net := nt\<rparr>) \<and>
      client_ok ((upd_peer p (\<lambda>r. r\<lparr>pr_queue := [arrived d js i]\<rparr>) c)\<lparr>cl_net := nt\<rparr>)"
proof (induction js rule: rev_induct)
  case Nil
  have "(the_peer p c)\<lparr>pr_queue := [arrived d [] i]\<rparr> = the_peer p c"
    using assms(6) by (cases "the_peer p c") (simp add: asked_def)
  then have "c = (upd_peer p (\<lambda>r. r\<lparr>pr_queue := [arrived d [] i]\<rparr>) c)\<lparr>cl_net := cl_net c\<rparr>"
    by (simp add: upd_peer_def)
  then show ?case using assms(1) by (intro exI [of _ "cl_net c"]) (simp add: deliver_def)
next
  case (snoc j js)
  have ui: "unat (of_nat i :: u32) = i"
    using assms(1,4) by (simp add: client_ok_def fm_ok_def fm_wf_def unat_of_nat)
  obtain nt where c1: "deliver env p (of_nat i) d js c = Inr ((upd_peer p (\<lambda>r. r\<lparr>pr_queue := [arrived d js i]\<rparr>) c)\<lparr>cl_net := nt\<rparr>)"
    "client_ok ((upd_peer p (\<lambda>r. r\<lparr>pr_queue := [arrived d js i]\<rparr>) c)\<lparr>cl_net := nt\<rparr>)"
    using snoc by auto
  define c1 where "c1 = (upd_peer p (\<lambda>r. r\<lparr>pr_queue := [arrived d js i]\<rparr>) c)\<lparr>cl_net := nt\<rparr>"
  have ok1: "client_ok c1" "cl_meta c1 = cl_meta c" "cl_fileManager c1 = cl_fileManager c" "p < cl_next c1"
    "pr_queue (the_peer p c1) = [arrived d js i]"
    using c1(2) assms(2) by (simp_all add: c1_def)
  have idx: "qp_index (arrived d js' i) = i" for js' by (simp add: arrived_def)
  let ?c2 = "peer_read p 4 OnLength (set_queue p (replace_piece (arrived d (js @ [j]) i)) c1)"
  have body: "handle_body env p (MT_PieceBlock # block_msg (of_nat i) j d) c1 = Inr ?c2"
    using handle_body_block [OF ok1(1), of d "of_nat i" j p js env] assms ok1 snoc.prems
    by (simp add: ui find_piece_def idx)
  have len: "length (MT_PieceBlock # block_msg (of_nat i) j d) < 2 ^ 32"
    using block_msg_length [OF ok1(1), of "of_nat i" d j] assms(3,4) ok1 by (simp add: ui)
  have "steps c1 (handle_body env p (MT_PieceBlock # block_msg (of_nat i) j d) c1)"
    by (rule steps_handle_body [OF ok1(1,4) _ len]) simp
  then have "client_ok ?c2" by (simp add: body steps_def later_def)
  moreover have "replace_piece (arrived d (js @ [j]) i) [arrived d js i] = [arrived d (js @ [j]) i]" by (simp add: idx)
  then have "?c2 = (upd_peer p (\<lambda>r. r\<lparr>pr_queue := [arrived d (js @ [j]) i]\<rparr>) c)\<lparr>cl_net := cl_net ?c2\<rparr>"
    by (simp add: peer_read_def set_queue_def c1_def upd_peer_def)
  moreover have "deliver env p (of_nat i) d (js @ [j]) c = Inr ?c2"
    using c1(1) body by (simp add: deliver_def rfold_append c1_def)
  ultimately show ?case by (intro exI [of _ "cl_net ?c2"]) metis
qed

text \<open>A good piece is queued for the disk.\<close>

lemma writePieceBlock_good:
  fixes w :: write_request
  assumes inv: "fm_inv sha1 meta fm" and q: "queued sha1 meta fm w" and fresh: "wr_index w \<notin> pending_set fm"
  obtains b where "writePieceBlock sha1 fm (wr_index w) (wr_from w) (wr_data w) =
      Inr (True, fm\<lparr>fm_writeRequests := fm_writeRequests fm @ [w], fm_pendingBits := b\<rparr>)"
    "fm_inv sha1 meta (fm\<lparr>fm_writeRequests := fm_writeRequests fm @ [w], fm_pendingBits := b\<rparr>)"
    "pending_set (fm\<lparr>fm_writeRequests := fm_writeRequests fm @ [w], fm_pendingBits := b\<rparr>) = insert (wr_index w) (pending_set fm)"
proof -
  obtain b where b: "push_write fm w = Inr (fm\<lparr>fm_writeRequests := fm_writeRequests fm @ [w], fm_pendingBits := b\<rparr>)"
    "fm_inv sha1 meta (fm\<lparr>fm_writeRequests := fm_writeRequests fm @ [w], fm_pendingBits := b\<rparr>)"
    by (rule push_write_inv [OF assms])
  from q obtain bs where bs: "wr_index w < length (fm_pieces fm)" "db_bytes (wr_data w) = Inr bs"
    "memcmp5 (sha1 bs) (pc_hash (fm_pieces fm ! wr_index w))" by (auto simp: queued_def good_piece_def)
  have "fm_wf fm" using inv by (simp add: fm_inv_def)
  then have "bitset_test (fm_pendingBits fm) (wr_index w) = Inr False" using fm_test(2) bs(1) fresh by simp
  moreover have "push_write fm \<lparr>wr_index = wr_index w, wr_from = wr_from w, wr_data = wr_data w\<rparr> =
      Inr (fm\<lparr>fm_writeRequests := fm_writeRequests fm @ [w], fm_pendingBits := b\<rparr>)"
    using b(1) by (cases w) simp
  ultimately have w: "writePieceBlock sha1 fm (wr_index w) (wr_from w) (wr_data w) =
      Inr (True, fm\<lparr>fm_writeRequests := fm_writeRequests fm @ [w], fm_pendingBits := b\<rparr>)"
    using bs by (simp add: writePieceBlock_def intact_def is_write_eligible_def)
  have "pending_set fm = set (map wr_index (fm_writeRequests fm))" using inv by (simp add: fm_inv_def)
  moreover have "pending_set (fm\<lparr>fm_writeRequests := fm_writeRequests fm @ [w], fm_pendingBits := b\<rparr>) =
      set (map wr_index (fm_writeRequests fm @ [w]))" using b(2) by (simp add: fm_inv_def)
  ultimately show thesis using that [OF w b(2)] by simp
qed

lemma collecting_queued:
  fixes w :: write_request
  assumes col: "collecting env p D c" and w: "wr_index w < pieces c" "db_bytes (wr_data w) = Inr (D (wr_index w))"
    and fresh: "wr_index w \<notin> pending_set (cl_fileManager c)"
  obtains fm where "writePieceBlock (en_sha1 env) (cl_fileManager c) (wr_index w) (wr_from w) (wr_data w) = Inr (True, fm)"
    "collecting env p D (c\<lparr>cl_fileManager := fm\<rparr>)" "pending_set fm = insert (wr_index w) (pending_set (cl_fileManager c))"
    "fm_pieces fm = fm_pieces (cl_fileManager c)"
proof -
  let ?fm = "cl_fileManager c"
  have inv: "fm_inv (en_sha1 env) (cl_meta c) ?fm" using col by (simp add: collecting_def session_ok_def)
  have "queued (en_sha1 env) (cl_meta c) ?fm w"
    using col w by (simp add: queued_def good_piece_def collecting_def content_def memcmp5_def)
  then obtain b where b: "writePieceBlock (en_sha1 env) ?fm (wr_index w) (wr_from w) (wr_data w) =
      Inr (True, ?fm\<lparr>fm_writeRequests := fm_writeRequests ?fm @ [w], fm_pendingBits := b\<rparr>)"
    "fm_inv (en_sha1 env) (cl_meta c) (?fm\<lparr>fm_writeRequests := fm_writeRequests ?fm @ [w], fm_pendingBits := b\<rparr>)"
    "pending_set (?fm\<lparr>fm_writeRequests := fm_writeRequests ?fm @ [w], fm_pendingBits := b\<rparr>) = insert (wr_index w) (pending_set ?fm)"
    by (rule writePieceBlock_good [OF inv _ fresh])
  let ?fm' = "?fm\<lparr>fm_writeRequests := fm_writeRequests ?fm @ [w], fm_pendingBits := b\<rparr>"
  have "fm_wf ?fm'" "geometry (cl_meta c) ?fm'" using b(2) by (simp_all only: fm_inv_def)
  then have "client_ok (c\<lparr>cl_fileManager := ?fm'\<rparr>)"
    using col by (simp add: collecting_def session_ok_def client_ok_def fm_ok_def)
  then have "session_ok env (c\<lparr>cl_fileManager := ?fm'\<rparr>)"
    using col b(2) by (simp add: collecting_def session_ok_def)
  then have "collecting env p D (c\<lparr>cl_fileManager := ?fm'\<rparr>)"
    using col w(2) by (simp add: collecting_def content_def)
  then show thesis by (rule that [OF b(1) _ b(3)]) simp
qed

lemma serve_piece:
  assumes col: "collecting env p D c" and all: "has_all p c" and open_peer: "\<not> isRemoteChoked p c"
    and i: "i < pieces c" "i \<notin> pending_set (cl_fileManager c)" and q: "pr_queue (the_peer p c) = [asked (D i) i]"
    and ch: "choosable c {i}"
  shows "\<exists>c'. deliver env p (of_nat i) (D i) [0..<block_count (length (D i))] c = Inr c' \<and> collecting env p D c' \<and>
    has_all p c' \<and> \<not> isRemoteChoked p c' \<and> asks p D c' \<and> pieces c' = pieces c \<and> cl_meta c' = cl_meta c \<and>
    pending_set (cl_fileManager c') = insert i (pending_set (cl_fileManager c))"
proof -
  let ?d = "D i" and ?k = "block_count (length (D i))"
  have ok: "client_ok c" "p < cl_next c" "i \<notin> got c" and len: "length ?d = piece_bytes (cl_meta c) i"
    and n: "0 < pieces c" and "pieces c < 2 ^ 31"
    using col i(1) by (auto simp: collecting_def session_ok_def content_def)
  then have ui: "unat (of_nat i :: u32) = i" using i(1) by (simp add: unat_of_nat)
  have "0 < length ?d" using ok_pieceSize(2) [OF ok(1) i(1)] len by simp
  then have "0 < ?k" using block_count_covers [of "length ?d"] by (intro Nat.gr0I) simp
  then obtain j where j: "?k = Suc j" by (cases ?k) auto
  have js: "set [0..<j] \<subseteq> {..<?k}" "length [0..<j] < ?k" using j by auto
  obtain nt where c1: "deliver env p (of_nat i) ?d [0..<j] c = Inr ((upd_peer p (\<lambda>r. r\<lparr>pr_queue := [arrived ?d [0..<j] i]\<rparr>) c)\<lparr>cl_net := nt\<rparr>)"
    "client_ok ((upd_peer p (\<lambda>r. r\<lparr>pr_queue := [arrived ?d [0..<j] i]\<rparr>) c)\<lparr>cl_net := nt\<rparr>)"
    using deliver_alone [OF ok(1,2) len i(1) ok(3) q js, of env] by blast
  define c1 where "c1 = (upd_peer p (\<lambda>r. r\<lparr>pr_queue := [arrived ?d [0..<j] i]\<rparr>) c)\<lparr>cl_net := nt\<rparr>"
  define e where "e = set_queue p (erase_piece i) c1"
  have "piece_ok (pieces c) (arrived ?d [0..<j] i)"
    using queue_ok [OF c1(2), of p "arrived ?d [0..<j] i"] ok(2) by simp
  then have blocks: "length (qp_blocks (arrived ?d [0..<?k] i)) = qp_numBlocks (arrived ?d [0..<?k] i)"
    "qp_numBlocks (arrived ?d [0..<?k] i) \<le> 2 ^ 18" "\<forall>b \<in> set (qp_blocks (arrived ?d [0..<?k] i)). block_ok b"
    using block_length_pos by (auto simp: piece_ok_def arrived_def block_ok_def new_block_def length_chunk)
  have "arrived_bytes ?d [0..<?k] = ?d" by (rule arrived_bytes_all) auto
  then obtain buf where buf: "assemble (arrived ?d [0..<?k] i) = Inr buf" "db_bytes buf = Inr ?d"
    using assemble_holds [OF blocks] db_holds_bytes by (auto simp: piece_data_arrived)
  have "later c1 e" unfolding e_def by (rule later_erase_piece) (use c1(2) in \<open>simp add: c1_def\<close>)
  then have ce: "collecting env p D e"
    by (intro collecting_peer [OF col]) (simp_all add: later_def e_def c1_def set_queue_def)
  have idx: "qp_index (arrived ?d x i) = i" for x by (simp add: arrived_def)
  have e: "cl_fileManager e = cl_fileManager c" "pr_queue (the_peer p e) = []" "pr_bitset (the_peer p e) = pr_bitset (the_peer p c)"
    "isRemoteChoked p e = isRemoteChoked p c" "cl_meta e = cl_meta c"
    by (simp_all add: e_def c1_def set_queue_def isRemoteChoked_def peer_is_def idx)
  let ?w = "\<lparr>wr_index = i, wr_from = peer_ip env p e, wr_data = buf\<rparr>"
  obtain fm where fm: "writePieceBlock (en_sha1 env) (cl_fileManager e) i (peer_ip env p e) buf = Inr (True, fm)"
    "collecting env p D (e\<lparr>cl_fileManager := fm\<rparr>)" "pending_set fm = insert i (pending_set (cl_fileManager c))"
    "fm_pieces fm = fm_pieces (cl_fileManager c)"
    using collecting_queued [OF ce, of ?w] i buf(2) e(1) by auto
  let ?g = "e\<lparr>cl_fileManager := fm\<rparr>"
  have g: "has_all p ?g" "pr_queue (the_peer p ?g) = []" "choosable ?g {}"
    using all e ch fm(3,4) by (auto simp: has_all_def hasPiece_def choosable_def)
  obtain c2 where c2: "requestPiece env p ?g = Inr c2" "collecting env p D c2" "has_all p c2" "asks p D c2"
    "isRemoteChoked p c2 = isRemoteChoked p ?g" "fm_writeRequests (cl_fileManager c2) = fm_writeRequests fm" "pieces c2 = pieces ?g" "cl_meta c2 = cl_meta ?g"
    using requestPiece_asks [OF fm(2) g] by auto
  have "got ?g = {}" "client_ok ?g" "pieces ?g = pieces c" "pieces c \<le> 2 ^ 28"
    using fm(2,4) col by (simp_all add: collecting_def session_ok_def)
  then have fin: "isFinished ?g = Inr False" using isFinished_iff [of ?g] n by auto
  have finish: "finish_piece env p (of_nat i) (arrived ?d [0..<?k] i) c1 = Inr (True, c2)"
    using buf(1) fm(1) fin c2(1) by (simp add: finish_piece_def handlePieceCompleted_def ui e_def [symmetric])
  have "handle_body env p (MT_PieceBlock # block_msg (of_nat i) j ?d) c1 = Inr (peer_read p 4 OnLength c2)"
    using handle_body_block [of c1 ?d "of_nat i" j p "[0..<j]" env] c1(2) len i(1) ok(3) j finish
    by (simp add: ui c1_def find_piece_def idx)
  then have "deliver env p (of_nat i) ?d [0..<?k] c = Inr (peer_read p 4 OnLength c2)"
    using c1(1) by (simp add: j deliver_def rfold_append c1_def)
  moreover have "pending_set (cl_fileManager c2) = pending_set fm"
    using c2(2,6) fm(2) by (simp add: collecting_def session_ok_def fm_inv_def)
  ultimately show ?thesis
    using c2(2-5,7,8) fm(3,4) e(4,5) open_peer
    by (intro exI [of _ "peer_read p 4 OnLength c2"]) (simp add: isRemoteChoked_def peer_is_def)
qed


text \<open>All pieces, one after the other.\<close>

lemma serve_all:
  "collecting env p D c \<Longrightarrow> has_all p c \<Longrightarrow> \<not> isRemoteChoked p c \<Longrightarrow> asks p D c \<Longrightarrow>
    card ({..<pieces c} - pending_set (cl_fileManager c)) \<le> n \<Longrightarrow>
    \<exists>c'. serve env p D n c = Inr c' \<and> collecting env p D c' \<and> pieces c' = pieces c \<and> cl_meta c' = cl_meta c \<and>
      {..<pieces c} \<subseteq> pending_set (cl_fileManager c')"
proof (induction n arbitrary: c)
  case 0
  then show ?case by simp
next
  case (Suc n)
  let ?P = "pending_set (cl_fileManager c)"
  consider (idle) "pr_queue (the_peer p c) = []" "{..<pieces c} \<subseteq> ?P"
    | (busy) i where "i < pieces c" "i \<notin> ?P" "pr_queue (the_peer p c) = [asked (D i) i]" "choosable c {i}"
    using Suc.prems(4) by (auto simp: asks_def)
  then show ?case
  proof cases
    case idle
    then show ?thesis using Suc.prems(1) by simp
  next
    case (busy i)
    obtain c1 where c1: "deliver env p (of_nat i) (D i) [0..<block_count (length (D i))] c = Inr c1"
      "collecting env p D c1" "has_all p c1" "\<not> isRemoteChoked p c1" "asks p D c1" "pieces c1 = pieces c"
      "cl_meta c1 = cl_meta c" "pending_set (cl_fileManager c1) = insert i ?P"
      using serve_piece [OF Suc.prems(1-3) busy] by blast
    have "{..<pieces c} - insert i ?P = ({..<pieces c} - ?P) - {i}" by auto
    then have "card ({..<pieces c1} - pending_set (cl_fileManager c1)) \<le> n"
      using Suc.prems(5) busy(1,2) c1(6,8) by simp
    from Suc.IH [OF c1(2-5) this] show ?thesis
      using busy(3) c1(1,6,7) by (simp add: asked_def arrived_def)
  qed
qed

section \<open>The content on disk\<close>

definition on_disk :: "(nat \<Rightarrow> u8 list) \<Rightarrow> torrent_meta \<Rightarrow> file_manager \<Rightarrow> bool" where
  "on_disk D meta fm \<longleftrightarrow> (\<forall>i \<in> completed fm. holds_at (fm_files fm) (i * tm_pieceLength meta) (D i))"

text \<open>Writing a piece of the content.\<close>

lemma process_write_content:
  assumes inv: "fm_inv sha1 meta fm" and w: "wr_index w < length (fm_pieces fm)" "db_bytes (wr_data w) = Inr (D (wr_index w))"
    and len: "\<forall>i < length (fm_pieces fm). length (D i) = piece_bytes meta i" and acc: "accepts_all accept"
    and disk: "on_disk D meta fm" and r: "process_write meta accept fm w = Inr (e, fm')"
    and comp: "completed fm' = insert (wr_index w) (completed fm)"
  shows "on_disk D meta fm' \<and> fm_readRequests fm' = fm_readRequests fm"
proof -
  let ?i = "wr_index w"
  have geo: "geometry meta fm" and sub: "completed fm \<subseteq> {..<length (fm_pieces fm)}" using inv by (simp_all add: fm_inv_def)
  have n: "length (D ?i) = piece_bytes meta ?i" using len w(1) by simp
  obtain files where files: "write_to_files accept (fm_files fm) (drop 0 (db_buffer (wr_data w)))
      (mul64 ?i (tm_pieceLength meta)) 0 (db_size (wr_data w)) = Inr files"
    "holds_at files (?i * tm_pieceLength meta) (D ?i)"
    "\<And>j cs. j \<noteq> ?i \<Longrightarrow> length cs \<le> tm_pieceLength meta \<Longrightarrow>
      holds_at (fm_files fm) (j * tm_pieceLength meta) cs \<Longrightarrow> holds_at files (j * tm_pieceLength meta) cs"
    using piece_write [OF geo w n acc] by blast
  have fm': "fm_files fm' = files" "fm_readRequests fm' = fm_readRequests fm"
    using r files(1) db_bytes_buffer(1) [OF w(2)] by (auto simp: process_write_def Let_def elim!: rbindE)
  have "holds_at files (j * tm_pieceLength meta) (D j)" if "j \<in> completed fm'" for j
  proof (cases "j = ?i")
    case False
    then have "j \<in> completed fm" "length (D j) \<le> tm_pieceLength meta"
      using that comp sub len piece_bytes_range(2) [OF geo] by auto
    then show ?thesis using files(3) [OF False] disk by (simp add: on_disk_def)
  qed (simp add: files(2))
  then show ?thesis by (simp add: on_disk_def fm')
qed

lemma session_writes_content:
  assumes "accepts_all accept"
  shows "session_ok env c \<Longrightarrow> fm_writeRequests (cl_fileManager c) = ws \<Longrightarrow>
    \<forall>i < pieces c. length (D i) = piece_bytes (cl_meta c) i \<Longrightarrow>
    \<forall>w \<in> set ws. db_bytes (wr_data w) = Inr (D (wr_index w)) \<Longrightarrow> on_disk D (cl_meta c) (cl_fileManager c) \<Longrightarrow>
    session_writes env accept ws c = Inr c' \<Longrightarrow>
    on_disk D (cl_meta c) (cl_fileManager c') \<and> fm_readRequests (cl_fileManager c') = fm_readRequests (cl_fileManager c) \<and>
    pieces c' = pieces c"
proof (induction ws arbitrary: c)
  case Nil
  then show ?case by simp
next
  case (Cons w ws)
  let ?sha1 = "en_sha1 env" and ?meta = "cl_meta c" and ?fm = "cl_fileManager c" and ?i = "wr_index w"
  have inv: "fm_inv ?sha1 ?meta ?fm" using Cons.prems(1) by (simp add: session_ok_def)
  obtain fm where fm: "process_write ?meta accept ?fm w = Inr (PieceWriteComplete (wr_from w) ?i, fm)"
    "fm_inv ?sha1 ?meta (fm\<lparr>fm_writeRequests := ws\<rparr>)" "completed fm = insert ?i (completed ?fm)"
    "fm_pieces fm = fm_pieces ?fm"
    by (rule process_write_queued [OF inv Cons.prems(2) assms]) blast
  note ok = session_files [OF Cons.prems(1) fm(2,4)]
  have i: "?i < pieces c" using inv Cons.prems(2) by (simp add: fm_inv_def queued_def)
  have written: "on_disk D ?meta fm" "fm_readRequests fm = fm_readRequests ?fm"
    using process_write_content [OF inv i _ Cons.prems(3) assms Cons.prems(5) fm(1,3)] Cons.prems(4) by simp_all
  obtain d where d: "on_event env (PieceWriteComplete (wr_from w) ?i) (c\<lparr>cl_fileManager := fm\<rparr>) = Inr d"
    and rest: "session_writes env accept ws (d\<lparr>cl_fileManager := (cl_fileManager d)\<lparr>fm_writeRequests := ws\<rparr>\<rparr>) = Inr c'"
    using Cons.prems(6) fm(1) by (auto elim!: rbindE)
  let ?d = "d\<lparr>cl_fileManager := (cl_fileManager d)\<lparr>fm_writeRequests := ws\<rparr>\<rparr>"
  have d_fm: "cl_meta d = ?meta" "cl_fileManager d = fm" "client_ok d" "known_peers d"
    using undisturbed_event [OF d] ok by (simp_all add: undisturbed_def)
  have "client_ok ?d" using d_fm(3) by (simp add: client_ok_def fm_ok_def fm_wf_def geometry_def)
  then have "session_ok env ?d" using d_fm fm(2) by (simp add: session_ok_def)
  from Cons.IH [OF this _ _ _ _ rest] show ?case
    using d_fm fm(4) written Cons.prems(3,4) by (simp add: on_disk_def)
qed


section \<open>From the torrent file to the last piece\<close>

lemma collecting_finishes:
  assumes col: "collecting env p D c" and idle: "pr_queue (the_peer p c) = []" and ch: "choosable c {}" and acc: "accepts_all accept"
  shows "\<exists>c'. seeding_peer env accept p D c = Inr c' \<and> isFinished c' = Inr True \<and> got c' = {..<pieces c} \<and>
    on_disk D (cl_meta c) (cl_fileManager c')"
proof -
  let ?n = "pieces c"
  obtain c1 where c1: "on_read env p OnMessage (full_bitfield ?n) c = Inr c1" "collecting env p D c1" "has_all p c1" "asks p D c1"
    "pieces c1 = ?n" "cl_meta c1 = cl_meta c"
    using seeder_announces [OF col idle ch] by blast
  obtain c2 where c2: "on_read env p OnMessage [MT_UnChoke] c1 = Inr c2" "collecting env p D c2" "has_all p c2" "asks p D c2"
    "\<not> isRemoteChoked p c2" "pieces c2 = ?n" "cl_meta c2 = cl_meta c"
    using seeder_unchokes [OF c1(2-4)] c1(5,6) by auto
  have "card ({..<pieces c2} - pending_set (cl_fileManager c2)) \<le> ?n"
    using card_mono [of "{..<pieces c2}" "{..<pieces c2} - pending_set (cl_fileManager c2)"] c2(6) by simp
  then obtain c3 where c3: "serve env p D ?n c2 = Inr c3" "collecting env p D c3" "pieces c3 = ?n" "cl_meta c3 = cl_meta c"
    "{..<?n} \<subseteq> pending_set (cl_fileManager c3)"
    using serve_all [OF c2(2,3,5,4)] c2(6,7) by auto
  define ws where "ws = fm_writeRequests (cl_fileManager c3)"
  have ok3: "session_ok env c3" "got c3 = {}" "fm_readRequests (cl_fileManager c3) = []" "\<not> fm_stopped (cl_fileManager c3)"
    "\<forall>w \<in> set ws. db_bytes (wr_data w) = Inr (D (wr_index w))" "\<forall>i < pieces c3. length (D i) = piece_bytes (cl_meta c3) i"
    using c3(2) by (simp_all add: collecting_def content_def ws_def)
  obtain c4 where c4: "session_writes env accept ws c3 = Inr c4" "session_ok env c4" "got c4 = set (map wr_index ws)"
    using session_writes_ok [OF acc ok3(1) ws_def [symmetric]] ok3(2) by auto
  have "on_disk D (cl_meta c3) (cl_fileManager c3)" using ok3(2) by (simp add: on_disk_def)
  note written = session_writes_content [OF acc ok3(1) ws_def [symmetric] ok3(6,5) this c4(1)]
  have "pending_set (cl_fileManager c3) = set (map wr_index ws)" using ok3(1) by (simp add: session_ok_def fm_inv_def ws_def)
  moreover have "got c4 \<subseteq> {..<pieces c4}" "client_ok c4" using c4(2) by (simp_all only: session_ok_def fm_inv_def)
  ultimately have got: "got c4 = {..<?n}" "pieces c4 = ?n" "client_ok c4" using c3(3,5) c4(3) written by auto
  moreover have "pieces c4 \<le> 2 ^ 28" using c3(2,3) got(2) by (simp add: collecting_def)
  ultimately have "isFinished c4 = Inr True" using isFinished_iff [of c4] by simp
  moreover have "seeding_peer env accept p D c = Inr c4"
    using c1(1) c2(1) c3(1) c4(1) ok3(3,4) written
    by (simp add: seeding_peer_def Let_def total_pieces_def session_worker_def ws_def)
  ultimately show ?thesis using got(1) written c3(4) by auto
qed

text \<open>A connection is accepted, and the handshake is the right one.\<close>

lemma handshake_step:
  assumes ok: "session_ok env c" "p < cl_next c" and none: "got c = {}" "pieces c \<le> 2 ^ 28"
    and h: "\<not> handshake_refused (cl_handshake c) h" "pr_peerId (the_peer p c) = []"
  shows "\<exists>nt ps. on_read env p OnVerifyHandshake h c =
    Inr ((upd_peer p (\<lambda>r. r\<lparr>pr_peerId := handshake_id h\<rparr>) c)\<lparr>cl_net := nt, cl_peers := ps\<rparr>)"
proof -
  have "client_ok c" using ok(1) by (simp add: session_ok_def)
  then have none_done: "bitset_count (fm_completedBits (cl_fileManager c)) = Inr 0"
    using completed_count [OF _ none(2)] none(1) by simp
  define e where "e = upd_peer p (\<lambda>r. r\<lparr>pr_peerId := handshake_id h\<rparr>) c"
  define w where "w = write_bytes p (cl_handshake c) e"
  define ps where "ps = (if map_find (peer_ip env p w) (cl_peers w) = None
    then umap_put (peer_ip env p w) p (cl_peers w) else cl_peers w)"
  have w: "w = e\<lparr>cl_net := conn_write p (cl_handshake c) (cl_net c)\<rparr>" "fm_completedBits (cl_fileManager w) = fm_completedBits (cl_fileManager c)"
    by (simp_all add: w_def e_def write_bytes_def)
  have "handleNewPeer env p w = Inr (w\<lparr>cl_peers := ps\<rparr>)"
    using none_done by (simp add: handleNewPeer_def sendBitfield_def Let_def w(2) ps_def)
  then have "on_read env p OnVerifyHandshake h c = Inr (peer_read p 4 OnLength (w\<lparr>cl_peers := ps\<rparr>))"
    using h by (simp add: on_read_def verify_handshake_def Let_def w_def e_def)
  moreover have "peer_read p 4 OnLength (w\<lparr>cl_peers := ps\<rparr>) =
      e\<lparr>cl_net := conn_read p 4 OnLength (conn_write p (cl_handshake c) (cl_net c)), cl_peers := ps\<rparr>"
    by (simp add: w(1) peer_read_def)
  ultimately have "on_read env p OnVerifyHandshake h c =
      Inr (e\<lparr>cl_net := conn_read p 4 OnLength (conn_write p (cl_handshake c) (cl_net c)), cl_peers := ps\<rparr>)"
    by (simp only:)
  then show ?thesis unfolding e_def by (intro exI)
qed

lemma opened_checksum:
  assumes "torrent_open sha1 parent_path fs random (Some bytes) dir s Torrent = Inr (True, s', t)"
    and "decode Bencode (map Some bytes) (length bytes) = Inr (d, bc)" "declared (entries_of (info_of d)) < 2 ^ 63"
    and "\<forall>bs. length (sha1 bs) = 5" "length random = 12"
  shows "length (tm_checkSum (cl_meta (to_client t))) = 5"
proof -
  obtain m where m: "parse_file sha1 TorrentMeta (Some bytes) = Inr (True, m)" "cl_meta (to_client t) = m"
    using assms(1) make_peerId_bytes [OF assms(5)]
    by (auto simp: torrent_open_def Torrent_def Let_def elim!: rbindE split: if_splits)
  show ?thesis using parse_file_layout(4) [OF m(1) assms(2,3)] assms(4) m(2) by auto
qed

lemma opened_fresh:
  assumes "torrent_open sha1 parent_path fs random (Some bytes) dir s Torrent = Inr (True, s', t)"
    and "length random = 12" "\<forall>p u content. fs_open fs p u = Some content \<longrightarrow> content = []"
    and "sound_sizes (cl_meta (to_client t))"
  shows "cl_next (to_client t) = 0" "fm_writeRequests (cl_fileManager (to_client t)) = []"
    "fm_readRequests (cl_fileManager (to_client t)) = []" "\<not> fm_stopped (cl_fileManager (to_client t))"
    "fm_pieces (cl_fileManager (to_client t)) = map (\<lambda>s. \<lparr>pc_pri = 0, pc_hash = s\<rparr>) (tm_sha1sums (cl_meta (to_client t)))"
proof -
  let ?dir = "if \<not> ends_with dir ''/'' then dir @ ''/'' else dir"
  obtain m fm h where reg: "registerFiles sha1 parent_path fs m ?dir (tm_files m) s FileManager = Inr (True, s', fm)"
    and t: "t = Torrent\<lparr>to_client := (to_client Torrent)\<lparr>cl_meta := m, cl_handshake := h, cl_peerId := client_id @ random,
      cl_fileManager := fm\<rparr>\<rparr>"
    using assms(1) make_peerId_bytes [OF assms(2)]
    by (auto simp: torrent_open_def Torrent_def Let_def elim!: rbindE split: if_splits)
  have meta: "cl_meta (to_client t) = m" "cl_fileManager (to_client t) = fm" "cl_next (to_client t) = 0"
    by (simp_all add: t Torrent_def)
  have "\<forall>f \<in> set (tm_files m). 0 < fi_length f" using assms(4) by (simp add: meta sound_sizes_def)
  from registered_fresh [OF this assms(3) reg]
  show "cl_next (to_client t) = 0" "fm_writeRequests (cl_fileManager (to_client t)) = []"
    "fm_readRequests (cl_fileManager (to_client t)) = []" "\<not> fm_stopped (cl_fileManager (to_client t))"
    "fm_pieces (cl_fileManager (to_client t)) = map (\<lambda>s. \<lparr>pc_pri = 0, pc_hash = s\<rparr>) (tm_sha1sums (cl_meta (to_client t)))"
    by (simp_all add: meta init_pieces_def FileManager_def)
qed

text \<open>The client after it has accepted a connection and its handshake.\<close>

lemma accepted_collecting:
  assumes ok: "session_ok env (to_client t)" and none: "got (to_client t) = {}" and small: "pieces (to_client t) \<le> 2 ^ 28"
    and h: "\<not> handshake_refused (cl_handshake (to_client t)) h" "length h = 68"
    and fresh: "fm_writeRequests (cl_fileManager (to_client t)) = []" "fm_readRequests (cl_fileManager (to_client t)) = []"
      "\<not> fm_stopped (cl_fileManager (to_client t))"
    and con: "content env D (to_client t)" and p: "p = cl_next (to_client t)"
  obtains c where "on_read env p OnVerifyHandshake h (to_client (on_accept False t)) = Inr c" "collecting env p D c"
    "pr_queue (the_peer p c) = []" "cl_fileManager c = cl_fileManager (to_client t)" "cl_meta c = cl_meta (to_client t)"
proof -
  let ?c = "to_client (on_accept False t)"
  have c: "cl_next ?c = Suc p" "pr_peerId (the_peer p ?c) = []" "pr_queue (the_peer p ?c) = []"
    "cl_fileManager ?c = cl_fileManager (to_client t)" "cl_meta ?c = cl_meta (to_client t)" "cl_handshake ?c = cl_handshake (to_client t)"
    by (simp_all add: p on_accept_def accept_handler_def accept_peer_def make_peer_def verify_def peer_read_def Peer_def Let_def)
  have sok: "session_ok env ?c" using session_dials [OF dials_accept ok] by simp
  have "p < cl_next ?c" "got ?c = {}" "pieces ?c \<le> 2 ^ 28" "\<not> handshake_refused (cl_handshake ?c) h"
    using c none small h(1) by simp_all
  from handshake_step [OF sok this c(2)] obtain nt ps where r: "on_read env p OnVerifyHandshake h ?c =
      Inr ((upd_peer p (\<lambda>r. r\<lparr>pr_peerId := handshake_id h\<rparr>) ?c)\<lparr>cl_net := nt, cl_peers := ps\<rparr>)" by blast
  define d where "d = (upd_peer p (\<lambda>r. r\<lparr>pr_peerId := handshake_id h\<rparr>) ?c)\<lparr>cl_net := nt, cl_peers := ps\<rparr>"
  have d: "cl_next d = Suc p" "cl_fileManager d = cl_fileManager (to_client t)" "cl_meta d = cl_meta (to_client t)"
    "pr_queue (the_peer p d) = []"
    using c by (simp_all add: d_def)
  have sizes: "right_sizes (cl_meta d) (cl_fileManager d)"
    using ok fm_inv_sizes unfolding session_ok_def d(2,3) by blast
  have "length h < 2 ^ 32" using h(2) by simp
  then have "session_ok env d"
    using session_read [OF sok _ _ _ r [folded d_def] sizes] c(1) by simp
  then have "collecting env p D d"
    using d none small fresh con by (simp add: collecting_def content_def)
  then show thesis by (rule that [OF r [folded d_def] _ d(4,2,3)])
qed


text \<open>A seeder of the torrent \<open>two_pieces\<close>.\<close>

definition seeder_env :: env where
  "seeder_env = \<lparr>en_sha1 = (\<lambda>_. replicate 5 0x68686868), en_remote = (\<lambda>_. 1), en_stack = (\<lambda>_. 0)\<rparr>"


end
