(* ===== verification/Main_Program.thy ===== *)
theory Main_Program
  imports Torrent
begin

text \<open>
  src/main.cpp: rounding the block size, starting the torrents, the download loop and the seeding loop. The
  options are parsed already; drawing the screen is left out, except for what it asks the torrents.
\<close>

section \<open>--piecesize\<close>

fun bit_length :: "nat \<Rightarrow> nat" where
  "bit_length n = (if n = 0 then 0 else 1 + bit_length (n div 2))"

declare bit_length.simps [simp del]

text \<open>\<open>1 << k\<close> at type \<open>int\<close>, converted to \<open>size_t\<close>.\<close>

definition shift_one :: "nat \<Rightarrow> u64 res" where
  "shift_one k = (if k < 32 then Inr (scast (push_bit k 1 :: u32)) else Inl BadShift)"

text \<open>\<open>1 << (32 - __builtin_clz(maxRequestSize - 1))\<close>: the argument is cut to 32 bits, and must not be 0.\<close>

definition clz32 :: "u32 \<Rightarrow> nat res" where
  "clz32 x = (if x = 0 then Inl BadShift else Inr (32 - bit_length (unat x)))"

definition round_request_size :: "u64 \<Rightarrow> u64 res" where
  "round_request_size s = rbind (clz32 (ucast (s - 1))) (\<lambda>z. shift_one (32 - z))"

section \<open>State\<close>

record options =
  op_noseed :: bool
  op_nodownload :: bool
  op_max_peers :: nat
  op_dldir :: string

text \<open>The surroundings: SHA-1, paths, the disk, random bytes for each torrent, the network, the clock, the
  free ports, and what the handlers do that \<open>Connection::poll\<close> runs in each round.\<close>

record 's surroundings =
  su_sha1 :: "u8 list \<Rightarrow> u32 list"
  su_parent_path :: "string \<Rightarrow> string"
  su_fs :: "'s file_system"
  su_random :: "nat \<Rightarrow> u8 list"
  su_net :: "string \<Rightarrow> network"
  su_now :: "nat \<Rightarrow> nat"
  su_can_bind :: "u16 \<Rightarrow> bool"
  su_poll :: "nat \<Rightarrow> torrent list \<Rightarrow> torrent list res"

record progress =
  mp_torrents :: "torrent list"
  mp_total_bits :: u64
  mp_completed :: u64
  mp_errors :: u64
  mp_eseed :: u64
  mp_started :: nat
  mp_startport :: u32

definition main_start :: "u32 \<Rightarrow> nat \<Rightarrow> progress" where
  "main_start startport n = \<lparr>mp_torrents = replicate n Torrent, mp_total_bits = 0, mp_completed = 0,
     mp_errors = 0, mp_eseed = 0, mp_started = 0, mp_startport = startport\<rparr>"

definition set_torrent :: "nat \<Rightarrow> torrent \<Rightarrow> progress \<Rightarrow> progress" where
  "set_torrent i t m = m\<lparr>mp_torrents := (mp_torrents m)[i := t]\<rparr>"

section \<open>Starting the torrents\<close>

definition start_torrent ::
  "options \<Rightarrow> 's surroundings \<Rightarrow> string option list \<Rightarrow> nat \<Rightarrow> 's \<times> progress \<Rightarrow> ('s \<times> progress) res" where
  "start_torrent opts su files i sm =
     (let (s, m) = sm in
      rbind (shift_one i) (\<lambda>b.
      let m = m\<lparr>mp_total_bits := mp_total_bits m OR b\<rparr> in
      rbind (torrent_open (su_sha1 su) (su_parent_path su) (su_fs su) (su_random su i) (files ! i) (op_dldir opts) s
          (mp_torrents m ! i)) (\<lambda>(ok, s, t).
        let m = set_torrent i t m in
        if \<not> ok then Inr (s, m\<lparr>mp_errors := mp_errors m OR b\<rparr>)
        else if op_nodownload opts then
          rbind (completed_pieces (cl_fileManager (to_client t))) (\<lambda>_.
            Inr (s, m\<lparr>mp_completed := mp_completed m OR b\<rparr>))
        else
          rbind (prepare (su_net su) (su_now su 0) (su_can_bind su) (ucast (mp_startport m)) (\<not> op_noseed opts) t)
            (\<lambda>(state, t).
              let m = (set_torrent i t m)\<lparr>mp_startport := mp_startport m + 1\<rparr> in
              Inr (s, case state of
                  DS_None \<Rightarrow> m\<lparr>mp_started := mp_started m + 1\<rparr>
                | DS_Completed \<Rightarrow> m\<lparr>mp_completed := mp_completed m OR b\<rparr>
                | _ \<Rightarrow> m\<lparr>mp_errors := mp_errors m OR b\<rparr>)))))"

definition start_torrents ::
  "options \<Rightarrow> 's surroundings \<Rightarrow> string option list \<Rightarrow> 's \<Rightarrow> progress \<Rightarrow> ('s \<times> progress) res" where
  "start_torrents opts su files s m = rfold (start_torrent opts su files) [0..<length files] (s, m)"

section \<open>The download loop\<close>

definition print_stats :: "torrent \<Rightarrow> unit res" where
  "print_stats t =
     (let c = to_client t; fm = cl_fileManager c in
      rbind (compute_downloaded (cl_meta c) fm) (\<lambda>_.
      rbind (completed_pieces fm) (\<lambda>_.
      rbind (pending fm) (\<lambda>_. Inr ()))))"

definition print_all_stats :: "torrent list \<Rightarrow> unit res" where
  "print_all_stats ts = rfold (\<lambda>t _. print_stats t) ts ()"

definition download_one :: "options \<Rightarrow> 's surroundings \<Rightarrow> nat \<Rightarrow> nat \<Rightarrow> progress \<Rightarrow> progress res" where
  "download_one opts su k i m =
     rbind (shift_one i) (\<lambda>b.
       if mp_errors m AND b \<noteq> 0 then Inr m
       else
         let t = mp_torrents m ! i in
         rbind (isFinished (to_client t)) (\<lambda>fin.
           if fin then
             rbind (if \<not> op_noseed opts then rbind (finish (su_net su) (su_now su k) t) (\<lambda>(_, t). Inr t) else Inr t) (\<lambda>t.
               Inr ((set_torrent i t m)\<lparr>mp_completed := mp_completed m OR b\<rparr>))
           else
             rbind (if op_max_peers opts = 0 \<or> length (cl_peers (to_client t)) < op_max_peers opts
                 then rbind (checkTrackers (su_net su) (su_now su k) t) (\<lambda>(_, t). Inr t) else Inr t) (\<lambda>t.
               let t = (if \<not> op_noseed opts then snd (nextConnection t) else t) in
               Inr (set_torrent i t m))))"

definition poll_and_print :: "'s surroundings \<Rightarrow> nat \<Rightarrow> progress \<Rightarrow> progress res" where
  "poll_and_print su k m =
     rbind (su_poll su k (mp_torrents m)) (\<lambda>ts.
     rbind (print_all_stats ts) (\<lambda>_. Inr (m\<lparr>mp_torrents := ts\<rparr>)))"

definition download_round :: "options \<Rightarrow> 's surroundings \<Rightarrow> nat \<Rightarrow> progress \<Rightarrow> progress res" where
  "download_round opts su k m =
     rbind (rfold (download_one opts su k) [0..<length (mp_torrents m)] m) (poll_and_print su k)"

text \<open>\<open>None\<close>: the loop never ends.\<close>

partial_function (option) download_loop ::
  "options \<Rightarrow> 's surroundings \<Rightarrow> nat \<Rightarrow> progress \<Rightarrow> progress res option" where
  "download_loop opts su k m =
     (if mp_total_bits m XOR (mp_completed m OR mp_errors m) = 0 then Some (Inr m)
      else case download_round opts su k m of
          Inl e \<Rightarrow> Some (Inl e)
        | Inr m \<Rightarrow> download_loop opts su (k + 1) m)"

section \<open>The seeding loop\<close>

definition seed_start_one :: "nat \<Rightarrow> progress \<Rightarrow> progress res" where
  "seed_start_one i m =
     (if to_activeTrackers (mp_torrents m ! i) \<noteq> [] then Inr m
      else rbind (shift_one i) (\<lambda>b. Inr (m\<lparr>mp_eseed := mp_eseed m OR b\<rparr>)))"

definition seed_start :: "progress \<Rightarrow> progress res" where
  "seed_start m = rfold seed_start_one [0..<length (mp_torrents m)] m"

definition seed_one :: "options \<Rightarrow> 's surroundings \<Rightarrow> nat \<Rightarrow> nat \<Rightarrow> progress \<Rightarrow> progress res" where
  "seed_one opts su k i m =
     (let (connected, t) = nextConnection (mp_torrents m ! i) in
      rbind (if \<not> connected then Inr (True, t)
          else if length (cl_peers (to_client t)) < op_max_peers opts
          then rbind (checkTrackers (su_net su) (su_now su k) t) (\<lambda>(ok, t). Inr (\<not> ok, t))
          else Inr (False, t)) (\<lambda>(failed, t).
        let m = set_torrent i t m in
        if failed then rbind (shift_one i) (\<lambda>b. Inr (m\<lparr>mp_eseed := mp_eseed m OR b\<rparr>)) else Inr m))"

definition seed_round :: "options \<Rightarrow> 's surroundings \<Rightarrow> nat \<Rightarrow> progress \<Rightarrow> progress res" where
  "seed_round opts su k m =
     rbind (rfold (seed_one opts su k) [0..<length (mp_torrents m)] m) (poll_and_print su k)"

partial_function (option) seed_loop ::
  "options \<Rightarrow> 's surroundings \<Rightarrow> nat \<Rightarrow> progress \<Rightarrow> progress res option" where
  "seed_loop opts su k m =
     (if mp_eseed m XOR mp_total_bits m = 0 then Some (Inr m)
      else case seed_round opts su k m of
          Inl e \<Rightarrow> Some (Inl e)
        | Inr m \<Rightarrow> seed_loop opts su (k + 1) m)"

section \<open>The program\<close>

definition after_start :: "options \<Rightarrow> 's surroundings \<Rightarrow> progress \<Rightarrow> progress res option" where
  "after_start opts su m =
     (if \<not> op_nodownload opts \<and> mp_started m > 0 then download_loop opts su 1 m else Some (Inr m))"

definition after_download :: "options \<Rightarrow> 's surroundings \<Rightarrow> progress \<Rightarrow> progress res option" where
  "after_download opts su m =
     (if \<not> op_noseed opts \<and> mp_completed m \<noteq> 0
      then (case seed_start m of Inl e \<Rightarrow> Some (Inl e) | Inr m \<Rightarrow> seed_loop opts su 0 m)
      else Some (Inr m))"

definition main_loops :: "options \<Rightarrow> 's surroundings \<Rightarrow> progress \<Rightarrow> progress res option" where
  "main_loops opts su m =
     (case after_start opts su m of
        None \<Rightarrow> None
      | Some (Inl e) \<Rightarrow> Some (Inl e)
      | Some (Inr m) \<Rightarrow> after_download opts su m)"

datatype outcome = Completed_download | Failed_download | Failed_seed | Nothing_said

definition report :: "progress \<Rightarrow> nat \<Rightarrow> outcome res" where
  "report m i =
     rbind (shift_one i) (\<lambda>b. Inr (
       if mp_completed m AND b \<noteq> 0 then Completed_download
       else if mp_errors m AND b \<noteq> 0 then Failed_download
       else if mp_eseed m AND b \<noteq> 0 then Failed_seed else Nothing_said))"

text \<open>The command line as \<open>boost::program_options\<close> hands it over (\<open>None\<close>: an option that is not given), and the
  exit code with what is said about each torrent. The static \<open>maxRequestSize\<close> that \<open>--piecesize\<close> changes is
  the one of main.cpp, which nothing reads.\<close>

record command_line =
  cm_help :: bool
  cm_version :: bool
  cm_piecesize :: "u64 option"
  cm_startport :: u32
  cm_options :: options
  cm_files :: "string option list"

definition report_all :: "progress \<Rightarrow> nat \<Rightarrow> outcome list res" where
  "report_all m n = rfold (\<lambda>i os. rbind (report m i) (\<lambda>out. Inr (os @ [out]))) [0..<n] []"

definition run_torrents ::
  "'s surroundings \<Rightarrow> command_line \<Rightarrow> 's \<Rightarrow> (nat \<times> outcome list) res option" where
  "run_torrents su cmd s =
     (let files = cm_files cmd; opts = cm_options cmd in
      case start_torrents opts su files s (main_start (cm_startport cmd) (length files)) of
        Inl e \<Rightarrow> Some (Inl e)
      | Inr (_, m) \<Rightarrow>
          (case main_loops opts su m of
             None \<Rightarrow> None
           | Some (Inl e) \<Rightarrow> Some (Inl e)
           | Some (Inr m) \<Rightarrow> Some (rbind (report_all m (length files)) (\<lambda>os. Inr (0, os)))))"

definition main :: "'s surroundings \<Rightarrow> nat \<Rightarrow> command_line option \<Rightarrow> bool \<Rightarrow> 's \<Rightarrow> (nat \<times> outcome list) res option" where
  "main su argc parsed log_opens s =
     (if argc = 1 then Some (Inr (1, []))
      else case parsed of
          None \<Rightarrow> Some (Inr (1, []))
        | Some cmd \<Rightarrow>
            if cm_help cmd then Some (Inr (0, []))
            else if cm_version cmd then Some (Inr (0, []))
            else
              (case (case cm_piecesize cmd of None \<Rightarrow> Inr 0 | Some n \<Rightarrow> round_request_size n) of
                 Inl e \<Rightarrow> Some (Inl e)
               | Inr _ \<Rightarrow> if \<not> log_opens then Some (Inr (1, [])) else run_torrents su cmd s))"

section \<open>The bits\<close>

definition flag :: "nat \<Rightarrow> u64" where
  "flag i = scast (push_bit i 1 :: u32)"

definition flags :: "nat \<Rightarrow> u64" where
  "flags n = fold (\<lambda>i w. w OR flag i) [0..<n] 0"

lemma flags_simps [simp]: "flags 0 = 0" "flags (Suc n) = flags n OR flag n"
  by (simp_all add: flags_def)

lemma shift_one_flag: "i < 32 \<Longrightarrow> shift_one i = Inr (flag i)"
  by (simp add: shift_one_def flag_def)

lemma bit_flag:
  assumes "i < 32"
  shows "bit (flag i) j \<longleftrightarrow> j < 64 \<and> (j = i \<or> i = 31 \<and> 31 \<le> j)"
  using assms by (auto simp: flag_def bit_simps min_def)

lemma flag_not_0: "i < 32 \<Longrightarrow> flag i \<noteq> 0"
  using bit_flag [of i i] by auto

lemma flags_disjoint: "i < 32 \<Longrightarrow> j < 32 \<Longrightarrow> i \<noteq> j \<Longrightarrow> flag i AND flag j = 0"
  by (rule bit_word_eqI) (auto simp: bit_and_iff bit_flag)

definition settled :: "progress \<Rightarrow> nat \<Rightarrow> bool" where
  "settled m i \<longleftrightarrow> (mp_completed m OR mp_errors m) AND flag i \<noteq> 0"

lemma or_flag_and:
  assumes "i < 32" "j < 32"
  shows "(w OR flag i) AND flag j = 0 \<longleftrightarrow> w AND flag j = 0 \<and> i \<noteq> j"
proof (cases "i = j")
  case True
  have "(w OR flag j) AND flag j = flag j" by (rule bit_word_eqI) (auto simp: bit_simps)
  then show ?thesis using True flag_not_0 [OF assms(2)] by simp
next
  case False
  have "(w OR flag i) AND flag j = (w AND flag j) OR (flag i AND flag j)" by (rule bit_word_eqI) (auto simp: bit_simps)
  then show ?thesis using False flags_disjoint [OF assms] by simp
qed

lemma or_swap: "(a OR b) OR c = (a OR c) OR (b :: u64)"
  by (simp only: or.assoc or.commute or.left_commute)

lemma settled_completed [simp]:
  assumes "mp_completed m = c" "i < 32" "j < 32"
  shows "settled (m\<lparr>mp_completed := c OR flag i\<rparr>) j \<longleftrightarrow> settled m j \<or> i = j"
  using assms by (simp add: settled_def or_swap [of _ "flag i"] or_flag_and)

lemma settled_errors [simp]:
  assumes "mp_errors m = e" "i < 32" "j < 32"
  shows "settled (m\<lparr>mp_errors := e OR flag i\<rparr>) j \<longleftrightarrow> settled m j \<or> i = j"
  using assms by (simp add: settled_def or.assoc [symmetric] or_flag_and)

lemma settled_other [simp]:
  "settled (set_torrent i t m) j = settled m j" "settled (m\<lparr>mp_started := k\<rparr>) j = settled m j"
  "settled (m\<lparr>mp_startport := p\<rparr>) j = settled m j" "settled (m\<lparr>mp_torrents := ts\<rparr>) j = settled m j"
  "settled (m\<lparr>mp_total_bits := w\<rparr>) j = settled m j" "settled (m\<lparr>mp_eseed := w\<rparr>) j = settled m j"
  by (simp_all add: settled_def set_torrent_def)

section \<open>The trackers that are active\<close>

lemma torrent_open_trackers:
  "torrent_open sha1 pp fs r f d s t = Inr (ok, s', t') \<Longrightarrow> to_activeTrackers t' = to_activeTrackers t"
  by (auto simp: torrent_open_def Let_def elim!: rbindE split: if_splits)

lemma queryTracker_fails:
  "queryTracker net now url q port t = Inr (False, t') \<Longrightarrow> to_activeTrackers t' = to_activeTrackers t"
  by (auto simp: queryTracker_def Let_def elim!: rbindE split: if_splits prod.splits)

lemma query_any_fails:
  assumes "\<And>url t t'. query url t = Inr (False, t') \<Longrightarrow> to_activeTrackers t' = to_activeTrackers t"
  shows "query_any query as t = Inr (False, t') \<Longrightarrow> to_activeTrackers t' = to_activeTrackers t"
proof (induction as arbitrary: t)
  case (Cons a as)
  then show ?case using assms by (fastforce elim!: rbindE split: if_splits)
qed simp

lemma query_tiers_fails:
  assumes "\<And>url t t'. query url t = Inr (False, t') \<Longrightarrow> to_activeTrackers t' = to_activeTrackers t"
  shows "query_tiers query ss t = Inr (False, t') \<Longrightarrow> to_activeTrackers t' = to_activeTrackers t"
proof (induction ss arbitrary: t)
  case (Cons s ss)
  then obtain u where u: "(case s of AVec vs \<Rightarrow> query_any query vs t | AString _ \<Rightarrow> query (cast_string AOther) t
      | _ \<Rightarrow> Inr (False, t)) = Inr (False, u)" "query_tiers query ss u = Inr (False, t')"
    by (auto elim!: rbindE split: if_splits)
  have "to_activeTrackers u = to_activeTrackers t"
    using u(1) assms query_any_fails [OF assms] by (auto split: any.splits)
  then show ?case using Cons.IH [OF u(2)] by simp
qed simp

lemma queryTrackers_fails:
  assumes "queryTrackers net now q port t = Inr (False, t')"
  shows "to_activeTrackers t' = to_activeTrackers t"
proof -
  obtain u where u: "queryTracker net now (tm_mainTracker (cl_meta (to_client t))) q port t = Inr (False, u)"
    "query_tiers (\<lambda>url. queryTracker net now url q port) (tm_trackers (cl_meta (to_client t))) u = Inr (False, t')"
    using assms by (auto simp: queryTrackers_def Let_def elim!: rbindE split: if_splits)
  show ?thesis
    using queryTracker_fails [OF u(1)] query_tiers_fails [OF queryTracker_fails u(2)] by simp
qed

lemma prepare_fails:
  "prepare net now can_bind port seeder t = Inr (state, t') \<Longrightarrow> state \<noteq> DS_None \<Longrightarrow>
    to_activeTrackers t' = to_activeTrackers t"
  using queryTrackers_fails
  by (fastforce simp: prepare_def elim!: rbindE split: if_splits option.splits)

lemma checkTrackers_none:
  "checkTrackers net now t = Inr (ok, t') \<Longrightarrow> to_activeTrackers t = [] \<Longrightarrow> to_activeTrackers t' = []"
  by (auto simp: checkTrackers_def)

lemma finish_trackers: "finish net now t = Inr (b, t') \<Longrightarrow> to_activeTrackers t' = []"
  by (auto simp: finish_def Let_def elim!: rbindE)

lemma nextConnection_trackers [simp]: "to_activeTrackers (snd (nextConnection t)) = to_activeTrackers t"
  by (simp add: nextConnection_def split: option.splits)

section \<open>Seeding\<close>

text \<open>Of \<open>n\<close> torrents the first \<open>k\<close> are started, and those which are settled or not started yet have no
  active tracker.\<close>

definition idle :: "nat \<Rightarrow> nat \<Rightarrow> progress \<Rightarrow> bool" where
  "idle n k m \<longleftrightarrow> n \<le> 32 \<and> length (mp_torrents m) = n \<and> mp_total_bits m = flags k \<and> mp_eseed m = 0 \<and>
     (\<forall>i<n. settled m i \<longrightarrow> i < k) \<and>
     (\<forall>i<n. k \<le> i \<or> settled m i \<longrightarrow> to_activeTrackers (mp_torrents m ! i) = [])"

definition all_started :: "bool \<Rightarrow> nat \<Rightarrow> progress \<Rightarrow> bool" where
  "all_started nodownload k m \<longleftrightarrow> nodownload \<or> mp_started m = 0 \<longrightarrow> (\<forall>i<k. settled m i)"

lemma rfold_upt_inv:
  assumes "\<And>i s s'. i < n \<Longrightarrow> P i s \<Longrightarrow> f i s = Inr s' \<Longrightarrow> P (Suc i) s'"
  shows "rfold f [0..<n] s = Inr t \<Longrightarrow> P 0 s \<Longrightarrow> P n t"
  using assms
proof (induction n arbitrary: t)
  case (Suc n)
  then obtain u where u: "rfold f [0..<n] s = Inr u" "f n u = Inr t"
    by (auto simp: rfold_append elim!: rbindE)
  show ?case using Suc.IH [OF u(1)] Suc.prems u(2) by simp
qed simp

lemma set_torrent_simps [simp]:
  "mp_torrents (set_torrent i t m) = (mp_torrents m)[i := t]" "mp_total_bits (set_torrent i t m) = mp_total_bits m"
  "mp_eseed (set_torrent i t m) = mp_eseed m" "mp_started (set_torrent i t m) = mp_started m"
  "mp_startport (set_torrent i t m) = mp_startport m" "mp_completed (set_torrent i t m) = mp_completed m"
  "mp_errors (set_torrent i t m) = mp_errors m"
  by (simp_all add: set_torrent_def)

lemma idle_settles:
  assumes "idle n i m" "all_started nd i m" "i < n" "to_activeTrackers t = []"
    "m' = (set_torrent i t (m\<lparr>mp_total_bits := mp_total_bits m OR flag i, mp_startport := w\<rparr>))
        \<lparr>mp_completed := mp_completed m OR flag i\<rparr> \<or>
      m' = (set_torrent i t (m\<lparr>mp_total_bits := mp_total_bits m OR flag i, mp_startport := w\<rparr>))
        \<lparr>mp_errors := mp_errors m OR flag i\<rparr>"
  shows "idle n (Suc i) m' \<and> all_started nd (Suc i) m'"
proof -
  have "\<forall>j<n. settled m' j \<longleftrightarrow> settled m j \<or> i = j"
    using assms(1,3,5) by (auto simp: idle_def)
  moreover have "mp_torrents m' = (mp_torrents m)[i := t]" "mp_total_bits m' = mp_total_bits m OR flag i"
    "mp_eseed m' = mp_eseed m" "mp_started m' = mp_started m"
    using assms(5) by auto
  ultimately show ?thesis
    using assms(1-4) by (auto simp: idle_def all_started_def nth_list_update less_Suc_eq)
qed

lemma idle_starts:
  assumes "idle n i m" "all_started nd i m" "i < n" "\<not> nd"
    "m' = (set_torrent i t (m\<lparr>mp_total_bits := mp_total_bits m OR flag i, mp_startport := w\<rparr>))
        \<lparr>mp_started := mp_started m + 1\<rparr>"
  shows "idle n (Suc i) m' \<and> all_started nd (Suc i) m'"
  using assms by (auto simp: idle_def all_started_def nth_list_update less_Suc_eq)

lemma start_torrent_idle:
  assumes "start_torrent opts su files i (s, m) = Inr (s', m')" "i < n" "idle n i m"
    "all_started (op_nodownload opts) i m"
  shows "idle n (Suc i) m' \<and> all_started (op_nodownload opts) (Suc i) m'"
proof -
  have i: "i < 32" using assms by (simp add: idle_def)
  have none: "to_activeTrackers (mp_torrents m ! i) = []" using assms(2,3) by (simp add: idle_def)
  obtain ok s1 t where t: "torrent_open (su_sha1 su) (su_parent_path su) (su_fs su) (su_random su i) (files ! i)
      (op_dldir opts) s (mp_torrents m ! i) = Inr (ok, s1, t)"
    using assms(1) i by (auto simp: start_torrent_def shift_one_flag Let_def elim!: rbindE)
  have t0: "to_activeTrackers t = []" using torrent_open_trackers [OF t] none by simp
  let ?m = "m\<lparr>mp_total_bits := mp_total_bits m OR flag i\<rparr>"
  show ?thesis
  proof (cases "\<not> ok \<or> op_nodownload opts")
    case True
    then have "m' = (set_torrent i t (?m\<lparr>mp_startport := mp_startport m\<rparr>))\<lparr>mp_completed := mp_completed m OR flag i\<rparr> \<or>
      m' = (set_torrent i t (?m\<lparr>mp_startport := mp_startport m\<rparr>))\<lparr>mp_errors := mp_errors m OR flag i\<rparr>"
      using assms(1)
      by (auto simp: start_torrent_def shift_one_flag [OF i] t Let_def set_torrent_def elim!: rbindE split: if_splits)
    then show ?thesis by (rule idle_settles [OF assms(3,4,2) t0])
  next
    case False
    obtain state t2 where p: "prepare (su_net su) (su_now su 0) (su_can_bind su) (ucast (mp_startport m))
        (\<not> op_noseed opts) t = Inr (state, t2)"
      "m' = (let m = (set_torrent i t2 ?m)\<lparr>mp_startport := mp_startport m + 1\<rparr> in
        case state of DS_None \<Rightarrow> m\<lparr>mp_started := mp_started m + 1\<rparr>
          | DS_Completed \<Rightarrow> m\<lparr>mp_completed := mp_completed m OR flag i\<rparr>
          | _ \<Rightarrow> m\<lparr>mp_errors := mp_errors m OR flag i\<rparr>)"
      using assms(1) False
      by (simp add: start_torrent_def shift_one_flag [OF i] t Let_def set_torrent_def) (auto elim!: rbindE)
    show ?thesis
    proof (cases "state = DS_None")
      case True
      show ?thesis
        by (rule idle_starts [OF assms(3,4,2), where t = t2 and w = "mp_startport m + 1"])
          (use p(2) True False in \<open>simp_all add: Let_def set_torrent_def\<close>)
    next
      case ns: False
      show ?thesis
        by (rule idle_settles [OF assms(3,4,2), where t = t2 and w = "mp_startport m + 1"])
          (use p(2) ns prepare_fails [OF p(1) ns] t0 in \<open>auto simp: Let_def set_torrent_def split: download_state.splits\<close>)
    qed
  qed
qed

lemma start_torrents_idle:
  assumes "start_torrents opts su files s (main_start port (length files)) = Inr (s', m)" "length files \<le> 32"
  shows "idle (length files) (length files) m \<and> all_started (op_nodownload opts) (length files) m"
proof -
  let ?P = "\<lambda>k sm. idle (length files) k (snd sm) \<and> all_started (op_nodownload opts) k (snd sm)"
  have "\<not> settled (main_start port (length files)) i" for i
    by (simp add: settled_def main_start_def)
  then have "?P 0 (s, main_start port (length files))"
    using assms(2) by (simp add: idle_def all_started_def) (simp add: main_start_def Torrent_def)
  moreover have "?P (Suc i) sm'"
    if "i < length files" "?P i sm" "start_torrent opts su files i sm = Inr sm'" for i sm sm'
    using that start_torrent_idle [of opts su files i "fst sm" "snd sm" "fst sm'" "snd sm'"] by simp
  ultimately have "?P (length files) (s', m)"
    using rfold_upt_inv [where P = ?P] assms(1) unfolding start_torrents_def by blast
  then show ?thesis by simp
qed

lemma set_torrent_idle:
  "idle n n m \<Longrightarrow> i < n \<Longrightarrow> settled m i \<longrightarrow> to_activeTrackers t = [] \<Longrightarrow> idle n n (set_torrent i t m)"
  by (auto simp: idle_def nth_list_update)

lemma complete_idle:
  "idle n n m \<Longrightarrow> i < n \<Longrightarrow> to_activeTrackers t = [] \<Longrightarrow>
    idle n n ((set_torrent i t m)\<lparr>mp_completed := mp_completed m OR flag i\<rparr>)"
  by (auto simp: idle_def nth_list_update)

lemma download_one_idle:
  assumes "download_one opts su k i m = Inr m'" "i < n" "idle n n m" "\<not> op_noseed opts"
  shows "idle n n m'"
proof -
  have i: "i < 32" using assms(2,3) by (simp add: idle_def)
  show ?thesis
  proof (cases "mp_errors m AND flag i = 0")
    case False
    then show ?thesis using assms(1,3) by (simp add: download_one_def shift_one_flag [OF i])
  next
    case True
    let ?t = "mp_torrents m ! i"
    obtain fin where fin: "isFinished (to_client ?t) = Inr fin"
      using assms(1) True by (auto simp: download_one_def shift_one_flag [OF i] Let_def elim!: rbindE)
    show ?thesis
    proof (cases fin)
      case True
      then obtain b t where t: "finish (su_net su) (su_now su k) ?t = Inr (b, t)"
        "m' = (set_torrent i t m)\<lparr>mp_completed := mp_completed m OR flag i\<rparr>"
        using assms(1,4) fin \<open>mp_errors m AND flag i = 0\<close>
        by (auto simp: download_one_def shift_one_flag [OF i] Let_def set_torrent_def elim!: rbindE)
      show ?thesis unfolding t(2) by (rule complete_idle [OF assms(3,2) finish_trackers [OF t(1)]])
    next
      case nf: False
      then obtain t where t: "t = ?t \<or> (\<exists>ok. checkTrackers (su_net su) (su_now su k) ?t = Inr (ok, t))"
        "m' = set_torrent i (snd (nextConnection t)) m"
        using assms(1,4) fin True
        by (auto simp: download_one_def shift_one_flag [OF i] Let_def elim!: rbindE split: if_splits)
      have "settled m i \<longrightarrow> to_activeTrackers t = []"
        using t(1) checkTrackers_none assms(2,3) by (auto simp: idle_def)
      then show ?thesis unfolding t(2) by (intro set_torrent_idle assms) simp
    qed
  qed
qed

text \<open>The handlers that \<open>Connection::poll\<close> runs leave the trackers alone.\<close>

definition poll_keeps_trackers :: "'s surroundings \<Rightarrow> bool" where
  "poll_keeps_trackers su \<longleftrightarrow>
     (\<forall>k ts ts'. su_poll su k ts = Inr ts' \<longrightarrow> map to_activeTrackers ts' = map to_activeTrackers ts)"

lemma poll_idle:
  assumes "poll_and_print su k m = Inr m'" "idle n n m" "poll_keeps_trackers su"
  shows "idle n n m'"
proof -
  obtain ts where ts: "su_poll su k (mp_torrents m) = Inr ts" "m' = m\<lparr>mp_torrents := ts\<rparr>"
    using assms(1) by (auto simp: poll_and_print_def elim!: rbindE)
  have eq: "map to_activeTrackers ts = map to_activeTrackers (mp_torrents m)"
    using assms(3) ts(1) by (auto simp: poll_keeps_trackers_def)
  then have len: "length ts = length (mp_torrents m)" by (rule map_eq_imp_length_eq)
  have "to_activeTrackers (ts ! i) = to_activeTrackers (mp_torrents m ! i)" if "i < length ts" for i
    using arg_cong [OF eq, of "\<lambda>l. l ! i"] that len by simp
  then show ?thesis using assms(2) ts(2) len by (auto simp: idle_def)
qed

lemma download_round_idle:
  assumes "download_round opts su k m = Inr m'" "idle n n m" "\<not> op_noseed opts" "poll_keeps_trackers su"
  shows "idle n n m'"
proof -
  have n: "length (mp_torrents m) = n" using assms(2) by (simp add: idle_def)
  obtain m1 where m1: "rfold (download_one opts su k) [0..<n] m = Inr m1" "poll_and_print su k m1 = Inr m'"
    using assms(1) by (auto simp: download_round_def n elim!: rbindE)
  have "idle n n m1"
    using rfold_upt_inv [where P = "\<lambda>_. idle n n"] download_one_idle assms(2,3) m1(1) by blast
  then show ?thesis using poll_idle m1(2) assms(4) by blast
qed

lemma xor_eq_0: "a XOR b = 0 \<longleftrightarrow> a = (b :: u64)"
  by (auto simp: bit_eq_iff bit_xor_iff)

lemma download_loop_idle:
  assumes "download_loop opts su k m = Some (Inr m')" "idle n n m" "\<not> op_noseed opts" "poll_keeps_trackers su"
  shows "idle n n m' \<and> mp_total_bits m' = mp_completed m' OR mp_errors m'"
proof -
  let ?P = "\<lambda>o' su' (k :: nat) m (r :: progress res). o' = opts \<longrightarrow> su' = su \<longrightarrow> idle n n m \<longrightarrow> r = Inr m' \<longrightarrow>
    idle n n m' \<and> mp_total_bits m' = mp_completed m' OR mp_errors m'"
  have "?P opts su k m (Inr m')"
  proof (rule download_loop.raw_induct [where P = ?P, OF _ assms(1)])
    fix loop o' su' k m r
    assume IH: "\<And>o' su' k m r. loop o' su' k m = Some r \<Longrightarrow> ?P o' su' k m r"
      and r: "(if mp_total_bits m XOR (mp_completed m OR mp_errors m) = 0 then Some (Inr m)
        else case download_round o' su' k m of Inl e \<Rightarrow> Some (Inl e) | Inr m \<Rightarrow> loop o' su' (k + 1) m) = Some r"
    show "?P o' su' k m r"
      using r IH download_round_idle [OF _ _ assms(3,4), of k m]
      by (fastforce simp: xor_eq_0 split: if_splits sum.splits)
  qed
  then show ?thesis using assms(2) by simp
qed

lemma flags_covers: "i < n \<Longrightarrow> n \<le> 32 \<Longrightarrow> flags n AND flag i \<noteq> 0"
  by (induction n) (auto simp: or_flag_and less_Suc_eq flag_not_0)

lemma idle_all_settled:
  assumes "idle n n m" "mp_total_bits m = mp_completed m OR mp_errors m" "i < n"
  shows "settled m i"
  using assms flags_covers [of i n] by (simp add: idle_def settled_def)

lemma rfold_seed_start:
  assumes "\<forall>i<k. to_activeTrackers (mp_torrents m ! i) = []" "k \<le> 32" "mp_eseed m = 0"
  shows "rfold seed_start_one [0..<k] m = Inr (m\<lparr>mp_eseed := flags k\<rparr>)"
  using assms
proof (induction k)
  case (Suc k)
  then show ?case by (simp add: rfold_append seed_start_one_def shift_one_flag)
next
  case 0
  then show ?case by (cases m) simp
qed

lemma after_download_idle:
  assumes "idle n n m" "\<forall>i<n. settled m i"
  shows "\<exists>e. after_download opts su m = Some (Inr (m\<lparr>mp_eseed := e\<rparr>))"
proof (cases "\<not> op_noseed opts \<and> mp_completed m \<noteq> 0")
  case True
  have n: "length (mp_torrents m) = n" "mp_total_bits m = flags n" using assms(1) by (simp_all add: idle_def)
  have "seed_start m = Inr (m\<lparr>mp_eseed := flags n\<rparr>)"
    unfolding seed_start_def n(1) by (rule rfold_seed_start) (use assms in \<open>auto simp: idle_def\<close>)
  then have "after_download opts su m = Some (Inr (m\<lparr>mp_eseed := flags n\<rparr>))"
    using True n(2) by (simp add: after_download_def seed_loop.simps xor_eq_0)
  then show ?thesis by blast
next
  case False
  then have "after_download opts su m = Some (Inr (m\<lparr>mp_eseed := mp_eseed m\<rparr>))"
    by (cases m) (auto simp: after_download_def)
  then show ?thesis by blast
qed

text \<open>
  Property C19. With seeding on and at most 32 torrents, the seeding phase ends at once, with nothing polled
  and no torrent changed: the download loop is left when every torrent is settled, and a torrent is settled
  either by \<open>finish\<close>, which forgets its trackers, or by an error that left it without one. A seeding torrent
  is given up when it has no tracker.
\<close>

theorem seeding_loop_never_runs:
  assumes "\<not> op_noseed opts" "length files \<le> 32" "poll_keeps_trackers su"
    "start_torrents opts su files s (main_start port (length files)) = Inr (s', m)"
    "after_start opts su m = Some (Inr m')"
  shows "\<exists>e. after_download opts su m' = Some (Inr (m'\<lparr>mp_eseed := e\<rparr>))"
proof -
  let ?n = "length files"
  have idle: "idle ?n ?n m" and started: "all_started (op_nodownload opts) ?n m"
    using start_torrents_idle [OF assms(4,2)] by simp_all
  show ?thesis
  proof (cases "\<not> op_nodownload opts \<and> mp_started m > 0")
    case True
    then have "idle ?n ?n m' \<and> mp_total_bits m' = mp_completed m' OR mp_errors m'"
      using assms(5) download_loop_idle [OF _ idle assms(1,3)] by (simp add: after_start_def)
    then show ?thesis using after_download_idle idle_all_settled by blast
  next
    case False
    then have "m' = m" using assms(5) by (simp add: after_start_def split: if_splits)
    then show ?thesis
      using after_download_idle idle started False by (auto simp: all_started_def)
  qed
qed

text \<open>A torrent file and a missing one, with nothing to download: the first is complete at once.\<close>

definition sample_files :: "string option list" where
  "sample_files = [Some (benc (ADict two_pieces)), None]"

definition sample_surroundings :: "string list surroundings" where
  "sample_surroundings = \<lparr>su_sha1 = (\<lambda>_. replicate 5 7), su_parent_path = dir_part, su_fs = new_disk,
     su_random = (\<lambda>_. replicate 12 9), su_net = (\<lambda>_. sample_network), su_now = id, su_can_bind = (\<lambda>_. True),
     su_poll = (\<lambda>_ ts. Inr ts)\<rparr>"

definition sample_options :: options where
  "sample_options = \<lparr>op_noseed = False, op_nodownload = True, op_max_peers = 30, op_dldir = ''d''\<rparr>"

lemma torrent_open_missing: "torrent_open sha1 pp fs r None dir s Torrent = Inr (False, s, Torrent)"
  by (simp add: torrent_open_def parse_file_def decode_file_def Torrent_def Let_def)

lemma sample_start:
  obtains s m where "start_torrents (sample_options\<lparr>op_noseed := b\<rparr>) sample_surroundings sample_files []
      (main_start 6881 2) = Inr (s, m)" "mp_completed m = 1" "mp_errors m = 2"
proof -
  obtain s t d bc where opened: "torrent_open (\<lambda>_. replicate 5 7) dir_part new_disk (replicate 12 9)
      (Some (benc (ADict two_pieces))) ''d'' [] Torrent = Inr (True, s, t)"
    and t: "length (fm_pieces (cl_fileManager (to_client t))) = 2" "fm_wf (cl_fileManager (to_client t))"
    by (rule two_pieces_opened)
  obtain n where n: "completed_pieces (cl_fileManager (to_client t)) = Inr n"
    using t bitset_count_result [of "fm_completedBits (cl_fileManager (to_client t))"]
    by (auto simp: completed_pieces_def fm_wf_def)
  show thesis
    using opened n that
    by (simp add: torrent_open_missing Let_def start_torrents_def sample_files_def sample_options_def
        sample_surroundings_def main_start_def start_torrent_def set_torrent_def shift_one_def)
qed

lemma seeding_loop_never_runs_witness:
  "\<exists>s m. start_torrents sample_options sample_surroundings sample_files [] (main_start 6881 2) = Inr (s, m) \<and>
    mp_completed m = 1 \<and> mp_errors m = 2 \<and>
    (\<exists>e. after_download sample_options sample_surroundings m = Some (Inr (m\<lparr>mp_eseed := e\<rparr>)))"
proof -
  have seed: "sample_options\<lparr>op_noseed := False\<rparr> = sample_options" by (simp add: sample_options_def)
  obtain s m where m: "start_torrents sample_options sample_surroundings sample_files [] (main_start 6881 2) = Inr (s, m)"
    "mp_completed m = 1" "mp_errors m = 2"
    by (rule sample_start [of False, unfolded seed])
  have "length sample_files = 2" by (simp add: sample_files_def)
  moreover have "after_start sample_options sample_surroundings m = Some (Inr m)"
    by (simp add: after_start_def sample_options_def)
  moreover have "poll_keeps_trackers sample_surroundings"
    by (simp add: poll_keeps_trackers_def sample_surroundings_def)
  moreover have "\<not> op_noseed sample_options" by (simp add: sample_options_def)
  ultimately show ?thesis
    using seeding_loop_never_runs [of sample_options sample_files sample_surroundings "[]" 6881 s m m] m by auto
qed

section \<open>The block size\<close>

lemma bit_length_bounds: "0 < n \<Longrightarrow> 2 ^ (bit_length n - 1) \<le> n \<and> n < 2 ^ bit_length n \<and> 0 < bit_length n"
proof (induction n rule: bit_length.induct)
  case (1 n)
  show ?case
  proof (cases "n div 2 = 0")
    case True
    then have "n = 1" using 1(2) by linarith
    then show ?thesis by (simp add: bit_length.simps)
  next
    case False
    then have IH: "2 ^ (bit_length (n div 2) - 1) \<le> n div 2" "n div 2 < 2 ^ bit_length (n div 2)" "0 < bit_length (n div 2)"
      using 1 by simp_all
    obtain k where k: "bit_length (n div 2) = Suc k" using IH(3) by (cases "bit_length (n div 2)") auto
    have "bit_length n = Suc (Suc k)" using 1(2) k by (subst bit_length.simps) simp
    then show ?thesis using IH k by (auto simp: less_eq_div_iff_mult_less_eq)
  qed
qed

text \<open>
  Property C40. The block size of \<open>--piecesize\<close> is rounded up to the next power of two, for a size from 2 to
  2 to the power of 30.
\<close>

theorem request_size_rounds_up:
  assumes "2 \<le> unat s" "unat s \<le> 2 ^ 30"
  shows "\<exists>k r. round_request_size s = Inr r \<and> unat r = 2 ^ k \<and> unat s \<le> unat r \<and> unat r < 2 * unat s"
proof -
  let ?x = "unat s - 1"
  let ?k = "bit_length ?x"
  have bounds: "2 ^ (?k - 1) \<le> ?x" "?x < 2 ^ ?k" "0 < ?k" using bit_length_bounds [of ?x] assms by simp_all
  have k: "?k \<le> 30"
  proof (rule ccontr)
    assume "\<not> ?k \<le> 30"
    then have "(2 :: nat) ^ 30 \<le> 2 ^ (?k - 1)" by (intro power_increasing) auto
    then show False using bounds assms by linarith
  qed
  have "unat (s - 1) = ?x" using assms(1) by (simp add: unat_sub word_le_nat_alt)
  then have x: "unat (ucast (s - 1) :: u32) = ?x"
    using assms by (simp add: unsigned_ucast_eq take_bit_nat_eq_self)
  then have "(ucast (s - 1) :: u32) \<noteq> 0" using assms(1) by auto
  then have round: "round_request_size s = Inr (flag ?k)"
    using x k by (simp add: round_request_size_def clz32_def shift_one_flag)
  have "flag ?k = push_bit ?k 1"
    using k by (intro bit_word_eqI) (auto simp: bit_flag bit_simps)
  then have "unat (flag ?k) = take_bit 64 (push_bit ?k 1)" by (simp only: unsigned_push_bit_eq) simp
  then have r: "unat (flag ?k) = 2 ^ ?k"
    using k power_strict_increasing [of ?k 64 "2 :: nat"] by (simp add: take_bit_nat_eq_self)
  have "2 ^ ?k \<le> 2 * ?x"
    using bounds by (cases ?k) auto
  then have "unat s \<le> 2 ^ ?k \<and> 2 ^ ?k < 2 * unat s" using bounds assms(1) by linarith
  then show ?thesis using round r by metis
qed

lemma request_size_rounds_up_witness:
  "\<exists>k r. round_request_size 20000 = Inr r \<and> unat r = 2 ^ k \<and> 20000 \<le> unat r \<and> unat r < 40000"
  using request_size_rounds_up [of 20000] by auto

section \<open>The end of the download loop\<close>

lemma bit_flag_single: "i < 31 \<Longrightarrow> bit (flag i) j \<longleftrightarrow> j = i"
  using bit_flag [of i j] by auto

lemma and_flag_single:
  assumes "i < 31"
  shows "w AND flag i = 0 \<longleftrightarrow> \<not> bit w i"
proof
  assume "w AND flag i = 0"
  then have "\<not> bit (w AND flag i) i" by simp
  then show "\<not> bit w i" using assms by (simp add: bit_and_iff bit_flag_single)
next
  assume "\<not> bit w i"
  then show "w AND flag i = 0" using assms by (intro bit_word_eqI) (auto simp: bit_and_iff bit_flag_single)
qed

lemma bit_flags: "n \<le> 31 \<Longrightarrow> bit (flags n) j \<longleftrightarrow> j < n"
  by (induction n) (auto simp: bit_or_iff bit_flag_single less_Suc_eq)

lemma download_one_finished:
  assumes "op_noseed opts" "i < 31" "i < length (mp_torrents m)"
    "bit (mp_errors m) i \<or> isFinished (to_client (mp_torrents m ! i)) = Inr True"
  shows "download_one opts su k i m =
    Inr (m\<lparr>mp_completed := mp_completed m OR (if bit (mp_errors m) i then 0 else flag i)\<rparr>)"
proof -
  have same: "set_torrent i (mp_torrents m ! i) m = m" by (simp add: set_torrent_def)
  show ?thesis
    using assms by (cases "bit (mp_errors m) i")
      (simp_all add: download_one_def shift_one_flag and_flag_single same Let_def)
qed

lemma download_all_finished:
  assumes "op_noseed opts" "j \<le> 31" "j \<le> length (mp_torrents m)"
    "\<forall>i < j. bit (mp_errors m) i \<or> isFinished (to_client (mp_torrents m ! i)) = Inr True"
  shows "\<exists>c. rfold (download_one opts su k) [0..<j] m = Inr (m\<lparr>mp_completed := c\<rparr>) \<and>
    (\<forall>i. bit c i \<longleftrightarrow> bit (mp_completed m) i \<or> i < j \<and> \<not> bit (mp_errors m) i)"
  using assms
proof (induction j)
  case 0
  show ?case by (rule exI [where x = "mp_completed m"]) simp
next
  case (Suc j)
  then obtain c where c: "rfold (download_one opts su k) [0..<j] m = Inr (m\<lparr>mp_completed := c\<rparr>)"
    "\<forall>i. bit c i \<longleftrightarrow> bit (mp_completed m) i \<or> i < j \<and> \<not> bit (mp_errors m) i" by auto
  have "download_one opts su k j (m\<lparr>mp_completed := c\<rparr>) =
      Inr (m\<lparr>mp_completed := c OR (if bit (mp_errors m) j then 0 else flag j)\<rparr>)"
    using download_one_finished [of opts j "m\<lparr>mp_completed := c\<rparr>" su k] Suc.prems by simp
  moreover have "\<forall>i. bit (c OR (if bit (mp_errors m) j then 0 else flag j)) i \<longleftrightarrow>
      bit (mp_completed m) i \<or> i < Suc j \<and> \<not> bit (mp_errors m) i"
    using c(2) Suc.prems(2) by (auto simp: bit_or_iff bit_flag_single less_Suc_eq)
  ultimately show ?case using c(1) by (auto simp: rfold_append)
qed

text \<open>
  Property C26. Without seeding the download loop ends in the round that finds every torrent finished or
  failed, and every torrent that has not failed is then reported as completed. (At most 31 torrents.)
\<close>

theorem finished_downloads_end_the_loop:
  assumes "op_noseed opts" "length (mp_torrents m) = n" "n \<le> 31" "mp_total_bits m = flags n"
    and "\<forall>i. bit (mp_completed m OR mp_errors m) i \<longrightarrow> i < n"
    and "\<forall>i < n. bit (mp_errors m) i \<or> isFinished (to_client (mp_torrents m ! i)) = Inr True"
    and "su_poll su k (mp_torrents m) = Inr ts" "succeeds (print_all_stats ts)"
  shows "\<exists>m'. download_loop opts su k m = Some (Inr m') \<and> mp_errors m' = mp_errors m \<and>
    (\<forall>i < n. \<not> bit (mp_errors m) i \<longrightarrow> report m' i = Inr Completed_download)"
proof (cases "mp_total_bits m = mp_completed m OR mp_errors m")
  case True
  have "report m i = Inr Completed_download" if "i < n" "\<not> bit (mp_errors m) i" for i
  proof -
    have "bit (mp_completed m OR mp_errors m) i" unfolding True [symmetric] using that assms(3,4) by (simp add: bit_flags)
    then show ?thesis using that assms(3) by (simp add: report_def shift_one_flag and_flag_single bit_or_iff)
  qed
  then show ?thesis using True by (subst download_loop.simps) (auto simp: xor_eq_0)
next
  case False
  obtain c where c: "rfold (download_one opts su k) [0..<n] m = Inr (m\<lparr>mp_completed := c\<rparr>)"
    "\<forall>i. bit c i \<longleftrightarrow> bit (mp_completed m) i \<or> i < n \<and> \<not> bit (mp_errors m) i"
    using download_all_finished [of opts n m su k] assms by auto
  let ?m = "m\<lparr>mp_completed := c, mp_torrents := ts\<rparr>"
  have round: "download_round opts su k m = Inr ?m"
    using c(1) assms(2,7,8) by (auto simp: download_round_def poll_and_print_def succeeds_iff)
  have "flags n = c OR mp_errors m"
    using assms(3,5) c(2) by (intro bit_word_eqI) (auto simp: bit_flags bit_or_iff)
  then have "download_loop opts su (k + 1) ?m = Some (Inr ?m)"
    using assms(4) by (subst download_loop.simps) (simp add: xor_eq_0)
  then have "download_loop opts su k m = Some (Inr ?m)"
    using False round by (subst download_loop.simps) (simp add: xor_eq_0)
  moreover have "report ?m i = Inr Completed_download" if "i < n" "\<not> bit (mp_errors m) i" for i
    using that assms(3) c(2) by (simp add: report_def shift_one_flag and_flag_single)
  ultimately show ?thesis by auto
qed

text \<open>Two torrents that are complete, one of which had failed to start.\<close>

definition done_torrent :: torrent where
  "done_torrent = Torrent\<lparr>to_client := sample_client\<lparr>cl_fileManager := sample_fm\<lparr>fm_completedBits :=
     \<lparr>bs_bits = [3, 0], bs_size = 2\<rparr>\<rparr>\<rparr>\<rparr>"

lemma done_torrent:
  "isFinished (to_client done_torrent) = Inr True" "print_stats done_torrent = Inr ()"
proof -
  have count: "bitset_count \<lparr>bs_bits = [3, 0], bs_size = 2\<rparr> = Inr 2" by code_simp
  have test: "bitset_test \<lparr>bs_bits = [3, 0], bs_size = 2\<rparr> 0 = Inr True"
    "bitset_test \<lparr>bs_bits = [3, 0], bs_size = 2\<rparr> 2 = Inr False" by code_simp+
  have pend: "succeeds (pending sample_fm)" by code_simp
  have pieces: "length (fm_pieces sample_fm) = 2" by (rule sample_pieces)
  show "isFinished (to_client done_torrent) = Inr True"
    by (simp add: isFinished_def done_torrent_def sample_client_def completed_pieces_def total_pieces_def count pieces)
  show "print_stats done_torrent = Inr ()"
    using count test pend pieces by (auto simp: print_stats_def Let_def done_torrent_def sample_client_def
        completed_pieces_def compute_downloaded_def sub64_def pending_def succeeds_iff numeral_2_eq_2)
qed

lemma finished_downloads_end_the_loop_witness:
  "\<exists>m'. download_loop (sample_options\<lparr>op_noseed := True\<rparr>) sample_surroundings 1
      ((main_start 6881 2)\<lparr>mp_torrents := [done_torrent, done_torrent], mp_total_bits := flags 2, mp_errors := 2\<rparr>) =
      Some (Inr m') \<and>
    report m' 0 = Inr Completed_download"
proof -
  have two: "bit (2 :: u64) i \<longleftrightarrow> i = 1" for i using bit_2_iff [of i, where 'a = "64 word"] by simp
  have stats: "succeeds (print_all_stats [done_torrent, done_torrent])"
    by (simp add: print_all_stats_def done_torrent)
  let ?m = "(main_start 6881 2)\<lparr>mp_torrents := [done_torrent, done_torrent], mp_total_bits := flags 2, mp_errors := 2\<rparr>"
  have "\<exists>m'. download_loop (sample_options\<lparr>op_noseed := True\<rparr>) sample_surroundings 1 ?m = Some (Inr m') \<and>
      mp_errors m' = mp_errors ?m \<and> (\<forall>i < 2. \<not> bit (mp_errors ?m) i \<longrightarrow> report m' i = Inr Completed_download)"
    by (rule finished_downloads_end_the_loop [where ts = "[done_torrent, done_torrent]"])
      (use stats in \<open>auto simp: two less_Suc_eq numeral_2_eq_2 sample_surroundings_def sample_options_def
         bit_or_iff main_start_def done_torrent\<close>)
  then show ?thesis by (auto simp: two)
qed

section \<open>Too many torrents\<close>

text \<open>The flag of the 33rd torrent is shifted out of the \<open>int\<close> it is made of, which C++ leaves undefined.\<close>

lemma at_most_32_torrents:
  assumes "32 < length files"
  shows "\<not> succeeds (start_torrents opts su files s m)"
proof -
  obtain ks where ks: "[0..<length files] = [0..<32] @ 32 # ks"
    using assms by (metis le_add_diff_inverse less_imp_le_nat upt_add_eq_append upt_conv_Cons zero_le)
  have "\<not> succeeds (start_torrent opts su files 32 sm)" for sm
    by (cases sm) (simp add: start_torrent_def shift_one_def)
  then show ?thesis
    by (auto simp: start_torrents_def ks rfold_append succeeds_iff elim!: rbindE)
qed

section \<open>The whole program\<close>

lemma report_total: "i < 32 \<Longrightarrow> succeeds (report m i)"
  by (simp add: report_def shift_one_flag)

lemma report_all_total:
  assumes "n \<le> 32"
  shows "\<exists>os. report_all m n = Inr os \<and> length os = n"
proof -
  have "\<exists>os. rfold (\<lambda>i os. rbind (report m i) (\<lambda>out. Inr (os @ [out]))) [0..<k] [] = Inr os \<and> length os = k"
    if "k \<le> n" for k
    using that
  proof (induction k)
    case (Suc k)
    then obtain out where "report m k = Inr out" using report_total [of k m] assms by (auto simp: succeeds_iff)
    then show ?case using Suc by (auto simp: rfold_append)
  qed simp
  then show ?thesis by (simp add: report_all_def)
qed

text \<open>
  Property C27. With \<open>--nodownload\<close> the program only looks at the torrents: when at most 32 of them could be
  scanned it ends with exit code 0, polls nothing, and says of each that it is complete or that something is
  wrong.
\<close>

theorem nodownload_ends:
  assumes "argc \<noteq> 1" "\<not> cm_help cmd" "\<not> cm_version cmd" "cm_piecesize cmd = None"
    and "op_nodownload (cm_options cmd)" "op_noseed (cm_options cmd)" "length (cm_files cmd) \<le> 32"
    and "start_torrents (cm_options cmd) su (cm_files cmd) s (main_start (cm_startport cmd) (length (cm_files cmd))) = Inr (s', m)"
  shows "\<exists>os. main su argc (Some cmd) True s = Some (Inr (0, os)) \<and> length os = length (cm_files cmd) \<and>
    set os \<subseteq> {Completed_download, Failed_download}"
proof -
  let ?n = "length (cm_files cmd)"
  have "idle ?n ?n m" and "all_started True ?n m"
    using start_torrents_idle [OF assms(8,7)] assms(5) by simp_all
  then have settled: "settled m i" if "i < ?n" for i using that by (simp add: all_started_def)
  have "report m i \<noteq> Inr Failed_seed \<and> report m i \<noteq> Inr Nothing_said" if "i < ?n" for i
  proof -
    have "(mp_completed m AND flag i) OR (mp_errors m AND flag i) \<noteq> 0"
      using settled [OF that] by (simp add: settled_def and.commute [of _ "flag i"] bit.conj_disj_distrib)
    then show ?thesis using that assms(7) by (auto simp: report_def shift_one_flag)
  qed
  note said = this
  have "\<forall>os. rfold (\<lambda>i os. rbind (report m i) (\<lambda>out. Inr (os @ [out]))) [0..<k] [] = Inr os \<longrightarrow>
      set os \<subseteq> {Completed_download, Failed_download}" if "k \<le> ?n" for k
    using that
  proof (induction k)
    case (Suc k)
    have "out = Completed_download \<or> out = Failed_download" if "report m k = Inr out" for out
      using said [of k] Suc.prems that by (cases out) auto
    then show ?case using Suc by (auto simp: rfold_append elim!: rbindE) blast+
  qed simp
  then have "report_all m ?n = Inr os \<Longrightarrow> set os \<subseteq> {Completed_download, Failed_download}" for os
    unfolding report_all_def by blast
  moreover obtain os where os: "report_all m ?n = Inr os" "length os = ?n" using report_all_total [OF assms(7)] by blast
  moreover have "main_loops (cm_options cmd) su m = Some (Inr m)"
    using assms(5,6) by (simp add: main_loops_def after_start_def after_download_def)
  ultimately show ?thesis
    using assms(1-4,8) by (simp add: main_def run_torrents_def)
qed

lemma nodownload_ends_witness:
  "\<exists>os. main sample_surroundings 4 (Some \<lparr>cm_help = False, cm_version = False, cm_piecesize = None, cm_startport = 6881,
      cm_options = sample_options\<lparr>op_noseed := True\<rparr>, cm_files = sample_files\<rparr>) True [] = Some (Inr (0, os)) \<and>
    length os = 2 \<and> set os \<subseteq> {Completed_download, Failed_download}"
proof -
  let ?cmd = "\<lparr>cm_help = False, cm_version = False, cm_piecesize = None, cm_startport = 6881,
      cm_options = sample_options\<lparr>op_noseed := True\<rparr>, cm_files = sample_files\<rparr>"
  have two: "length sample_files = 2" by (simp add: sample_files_def)
  obtain s m where "start_torrents (sample_options\<lparr>op_noseed := True\<rparr>) sample_surroundings sample_files []
      (main_start 6881 2) = Inr (s, m)"
    by (rule sample_start [of True])
  then have "start_torrents (cm_options ?cmd) sample_surroundings (cm_files ?cmd) []
      (main_start (cm_startport ?cmd) (length (cm_files ?cmd))) = Inr (s, m)"
    using two by simp
  from nodownload_ends [where argc = 4, OF _ _ _ _ _ _ _ this] show ?thesis
    using two by (simp add: sample_options_def)
qed

end
